(* ===== verification/Prelude.thy ===== *)
theory Prelude
  imports "HOL-Library.Word"
begin

text \<open>
  The prelude of the development: the names of Go's machine types, the run-time panics as
  values, big-endian access to byte slices (\<^verbatim>\<open>encoding/binary\<close>), signed 64-bit and unsigned
  64-bit wrap-around written out on \<open>int\<close>, and the lemmas about them that the components share.
\<close>

unbundle bit_operations_syntax

section \<open>Go types and panics\<close>

type_synonym byte = "8 word"
type_synonym u16 = "16 word"
type_synonym u32 = "32 word"

text \<open>A run-time panic is a value; a computation that may panic has the type \<open>go_panic + 'a\<close>.\<close>

datatype go_panic = NilDeref | SliceBounds | IndexRange | DivideByZero | MakeSize

named_theorems go_eval \<open>definitions that evaluate closed terms of the model\<close>

section \<open>Lists\<close>

text \<open>A separator that occurs in neither prefix splits a list in one way.\<close>

lemma append_sep_inject:
  "c \<notin> set xs \<Longrightarrow> c \<notin> set ys \<Longrightarrow> xs @ c # us = ys @ c # vs \<longleftrightarrow> xs = ys \<and> us = vs"
proof (induction xs arbitrary: ys)
  case Nil
  then show ?case by (cases ys) auto
next
  case (Cons x xs)
  then show ?case by (cases ys) auto
qed

lemma length_4_cases:
  assumes "length xs = 4"
  obtains a b c d where "xs = [a, b, c, d]"
  using assms by (auto simp: eval_nat_numeral length_Suc_conv)

lemma length_3_cases:
  assumes "length xs = 3"
  obtains a b c where "xs = [a, b, c]"
  using assms by (auto simp: eval_nat_numeral length_Suc_conv)

lemma length_ge_3_cases:
  assumes "3 \<le> length xs"
  obtains a b c r where "xs = a # b # c # r"
  using assms by (auto simp: numeral_3_eq_3 Suc_le_length_iff)

lemma in_set_update: "x \<in> set (xs[i := v]) \<Longrightarrow> x = v \<or> x \<in> set xs"
  using set_update_subset_insert by fastforce

text \<open>How a list update changes the number of elements with a property.\<close>

lemma length_filter_update:
  "i < length xs \<Longrightarrow> length (filter P (xs[i := v])) + (if P (xs ! i) then 1 else 0) =
    length (filter P xs) + (if P v then 1 else 0)"
proof (induction xs arbitrary: i)
  case (Cons x xs)
  then show ?case by (cases i) (fastforce split: if_splits)+
qed simp

text \<open>A loop that assigns \<open>f i\<close> to element \<open>i\<close>, for \<open>i\<close> from 0.\<close>

lemma foldl_update:
  "k \<le> length d \<Longrightarrow> foldl (\<lambda>d i. d[i := f i]) d [0..<k] = map f [0..<k] @ drop k d"
proof (induction k)
  case (Suc k)
  then have "drop k d = d ! k # drop (Suc k) d" by (simp add: Cons_nth_drop_Suc)
  then show ?case using Suc by (simp add: list_update_append)
qed simp

section \<open>Remainders\<close>

lemma Suc_mod_eq_iff: "Suc a mod m = Suc b mod m \<longleftrightarrow> a mod m = b mod (m :: nat)"
proof (induction a b rule: linorder_wlog)
  case (le a b)
  then show ?case
    using mod_eq_dvd_iff_nat [of a b m] mod_eq_dvd_iff_nat [of "Suc a" "Suc b" m]
    by (auto simp: eq_commute [of "_ mod m" "_ mod m"])
next
  case (sym a b)
  then show ?case by (simp only: eq_commute)
qed

lemma add_mod_eq_iff: "(s + a) mod m = (s + b) mod m \<longleftrightarrow> a mod m = b mod (m :: nat)"
  by (induction s) (simp_all add: Suc_mod_eq_iff)

section \<open>Big-endian integers in byte slices\<close>

text \<open>\<^verbatim>\<open>binary.BigEndian.Uint16\<close> and \<^verbatim>\<open>PutUint16\<close>, on the two bytes they touch.\<close>

definition be16 :: "byte \<Rightarrow> byte \<Rightarrow> u16" where
  "be16 hi lo = push_bit 8 (ucast hi) OR ucast lo"

definition hi8 :: "u16 \<Rightarrow> byte" where
  "hi8 w = ucast (drop_bit 8 w)"

definition lo8 :: "u16 \<Rightarrow> byte" where
  "lo8 w = ucast w"

definition put_be16 :: "u16 \<Rightarrow> byte list" where
  "put_be16 w = [hi8 w, lo8 w]"

lemmas [go_eval] = be16_def hi8_def lo8_def put_be16_def

lemma be16_hi8_lo8 [simp]: "be16 (hi8 w) (lo8 w) = w"
  unfolding be16_def hi8_def lo8_def
  by (rule bit_word_eqI) (auto simp: bit_simps)

lemma hi8_be16 [simp]: "hi8 (be16 a b) = a"
  unfolding be16_def hi8_def
  by (rule bit_word_eqI) (auto simp: bit_simps dest: bit_imp_le_length)

lemma lo8_be16 [simp]: "lo8 (be16 a b) = b"
  unfolding be16_def lo8_def
  by (rule bit_word_eqI) (auto simp: bit_simps)

lemma length_put_be16 [simp]: "length (put_be16 w) = 2"
  by (simp add: put_be16_def)

lemma unat_byte_less: "unat (a :: byte) < 256"
  using unsigned_less [of a, where ?'a = nat] by simp

lemma unat_u16_less: "unat (a :: u16) < 65536"
  using unsigned_less [of a, where ?'a = nat] by simp

lemma unat_ucast_byte_u16 [simp]: "unat (ucast (a :: byte) :: u16) = unat a"
  using unat_byte_less [of a] by (simp add: unsigned_ucast_eq take_bit_nat_eq_self_iff)

lemma unat_ucast_byte_u32 [simp]: "unat (ucast (a :: byte) :: u32) = unat a"
  using unat_byte_less [of a] by (simp add: unsigned_ucast_eq take_bit_nat_eq_self_iff)

lemma unat_ucast_u16_u32 [simp]: "unat (ucast (a :: u16) :: u32) = unat a"
  using unat_u16_less [of a] by (simp add: unsigned_ucast_eq take_bit_nat_eq_self_iff)

lemma unat_be16: "unat (be16 a b) = 256 * unat a + unat b"
proof -
  have "be16 a b = push_bit 8 (ucast a) + ucast b"
    unfolding be16_def
    by (rule disjunctive_add [symmetric]) (auto simp: bit_simps dest: bit_imp_le_length)
  moreover have "unat (push_bit 8 (ucast a :: u16)) = 256 * unat a"
    using unat_byte_less [of a] by (simp add: push_bit_eq_mult unat_word_ariths)
  ultimately show ?thesis
    using unat_byte_less [of a] unat_byte_less [of b] by (simp add: unat_word_ariths)
qed

lemma uint_u16_of_int: "0 \<le> n \<Longrightarrow> n < 65536 \<Longrightarrow> uint (word_of_int n :: u16) = n"
  by (simp add: uint_word_of_int)

lemma unat_u16_of_int: "0 \<le> n \<Longrightarrow> n < 65536 \<Longrightarrow> unat (word_of_int n :: u16) = nat n"
  by (simp add: uint_u16_of_int flip: nat_uint_eq)

lemma unat_mod_u16: "0 < n \<Longrightarrow> n < 65536 \<Longrightarrow> unat (w mod word_of_int n :: u16) = unat w mod nat n"
  by (simp add: unat_mod_distrib unat_u16_of_int)

section \<open>Signed and unsigned 64-bit arithmetic on int\<close>

text \<open>
  Go's \<^verbatim>\<open>int64\<close> (and \<^verbatim>\<open>time.Duration\<close>) values are modelled as \<open>int\<close>; every arithmetic operation
  of the source that can leave the range is wrapped by \<open>i64\<close> (two's complement). Conversions to
  \<^verbatim>\<open>uint64\<close> and arithmetic on it are wrapped by \<open>u64\<close>. Go's signed division truncates towards
  zero; \<open>tdiv\<close> is that division.
\<close>

definition i64 :: "int \<Rightarrow> int" where
  "i64 x = (x + 2 ^ 63) mod 2 ^ 64 - 2 ^ 63"

definition u64 :: "int \<Rightarrow> int" where
  "u64 x = x mod 2 ^ 64"

definition tdiv :: "int \<Rightarrow> int \<Rightarrow> int" where
  "tdiv a b = sgn a * sgn b * (\<bar>a\<bar> div \<bar>b\<bar>)"

definition in_i64 :: "int \<Rightarrow> bool" where
  "in_i64 x \<longleftrightarrow> - (2 ^ 63) \<le> x \<and> x < 2 ^ 63"

lemmas [go_eval] = i64_def u64_def tdiv_def in_i64_def

lemma i64_id: "in_i64 x \<Longrightarrow> i64 x = x"
  by (simp add: i64_def in_i64_def)

lemma i64_nonneg_id [simp]: "0 \<le> x \<Longrightarrow> x < 2 ^ 63 \<Longrightarrow> i64 x = x"
  by (simp add: i64_def)

lemma in_i64_i64: "in_i64 (i64 x)"
  by (simp add: in_i64_def i64_def)

lemma u64_id: "0 \<le> x \<Longrightarrow> x < 2 ^ 64 \<Longrightarrow> u64 x = x"
  by (simp add: u64_def)

lemma tdiv_nonneg: "0 \<le> a \<Longrightarrow> 0 \<le> b \<Longrightarrow> tdiv a b = a div b"
  by (cases "a = 0"; cases "b = 0") (auto simp: tdiv_def)

end
