(* ===== verification/NetAddr.thy ===== *)
theory NetAddr
  imports Prelude
begin

text \<open>
  What the programs use of Go's package \<^verbatim>\<open>net\<close>: an \<^verbatim>\<open>net.IP\<close> is a byte slice of length 4 or
  16 (or nil, here the empty list), with \<^verbatim>\<open>IPv4\<close>, \<^verbatim>\<open>To4\<close>, \<^verbatim>\<open>To16\<close>, \<^verbatim>\<open>Equal\<close> and \<^verbatim>\<open>String\<close>;
  \<^verbatim>\<open>fmt.Sprintf("%d", n)\<close> for naturals and \<^verbatim>\<open>net.JoinHostPort\<close>. The lemmas show that printing
  is injective on IPv4 addresses and ports, so that a dial string determines its target.
\<close>

type_synonym ip = "byte list"

section \<open>Addresses\<close>

definition v4_in_v6_prefix :: "byte list" where
  "v4_in_v6_prefix = [0, 0, 0, 0, 0, 0, 0, 0, 0, 0, 255, 255]"

definition IPv4 :: "byte \<Rightarrow> byte \<Rightarrow> byte \<Rightarrow> byte \<Rightarrow> ip" where
  "IPv4 a b c d = v4_in_v6_prefix @ [a, b, c, d]"

definition To4 :: "ip \<Rightarrow> ip option" where
  "To4 ip = (if length ip = 4 then Some ip
     else if length ip = 16 \<and> take 12 ip = v4_in_v6_prefix then Some (drop 12 ip)
     else None)"

definition To16 :: "ip \<Rightarrow> ip" where
  "To16 ip = (if length ip = 4 then v4_in_v6_prefix @ ip
     else if length ip = 16 then ip else [])"

definition ip_equal :: "ip \<Rightarrow> ip \<Rightarrow> bool" where
  "ip_equal x y = (if length x = length y then x = y
     else if length x = 4 \<and> length y = 16 then take 12 y = v4_in_v6_prefix \<and> x = drop 12 y
     else if length x = 16 \<and> length y = 4 then take 12 x = v4_in_v6_prefix \<and> drop 12 x = y
     else False)"

lemmas [go_eval] = v4_in_v6_prefix_def IPv4_def To4_def To16_def ip_equal_def

lemma length_v4_in_v6_prefix [simp]: "length v4_in_v6_prefix = 12"
  by (simp add: v4_in_v6_prefix_def)

lemma length_IPv4 [simp]: "length (IPv4 a b c d) = 16"
  by (simp add: IPv4_def)

lemma To4_IPv4 [simp]: "To4 (IPv4 a b c d) = Some [a, b, c, d]"
  by (simp add: To4_def IPv4_def)

lemma To4_length: "To4 ip = Some q \<Longrightarrow> length q = 4"
  by (auto simp: To4_def split: if_splits)

lemma ip_equal_refl [simp]: "ip_equal x x"
  by (simp add: ip_equal_def)

lemma ip_equal_sym: "ip_equal x y \<Longrightarrow> ip_equal y x"
  by (auto simp: ip_equal_def split: if_splits)

section \<open>Decimal and hexadecimal numerals\<close>

definition digit_char :: "nat \<Rightarrow> char" where
  "digit_char n = (if n < 10 then char_of (48 + n) else char_of (87 + n))"

fun dec_string :: "nat \<Rightarrow> string" where
  "dec_string n =
     (if n < 10 then [digit_char n] else dec_string (n div 10) @ [digit_char (n mod 10)])"

fun hex_string :: "nat \<Rightarrow> string" where
  "hex_string n =
     (if n < 16 then [digit_char n] else hex_string (n div 16) @ [digit_char (n mod 16)])"

declare dec_string.simps [simp del] hex_string.simps [simp del]

lemmas [go_eval] = digit_char_def dec_string.simps hex_string.simps

definition digit_val :: "char \<Rightarrow> nat" where
  "digit_val c = of_char c - 48"

definition dec_val :: "string \<Rightarrow> nat" where
  "dec_val s = foldl (\<lambda>v c. 10 * v + digit_val c) 0 s"

lemma digit_val_digit_char: "n < 10 \<Longrightarrow> digit_val (digit_char n) = n"
  by (simp add: digit_val_def digit_char_def)

lemma dec_val_dec_string [simp]: "dec_val (dec_string n) = n"
proof (induction n rule: dec_string.induct)
  case (1 n)
  then show ?case
    by (cases "n < 10")
      (auto simp: dec_string.simps [of n] dec_val_def digit_val_digit_char)
qed

lemma dec_string_inject [simp]: "dec_string m = dec_string n \<longleftrightarrow> m = n"
  by (metis dec_val_dec_string)

lemma dec_string_digits: "c \<in> set (dec_string n) \<Longrightarrow> \<exists>d < 10. c = digit_char d"
proof (induction n rule: dec_string.induct)
  case (1 n)
  then show ?case
    by (cases "n < 10")
      (auto simp: dec_string.simps [of n] intro: exI [of _ "n mod 10"])
qed

lemma digit_char_neq: "d < 10 \<Longrightarrow> digit_char d \<noteq> CHR ''.'' \<and> digit_char d \<noteq> CHR '':''"
  by (auto simp: digit_char_def char_of_eq_iff take_bit_eq_mod)

lemma dec_string_no_dot: "CHR ''.'' \<notin> set (dec_string n)"
  using dec_string_digits digit_char_neq by metis

lemma dec_string_no_colon: "CHR '':'' \<notin> set (dec_string n)"
  using dec_string_digits digit_char_neq by metis

section \<open>Printing addresses\<close>

text \<open>IPv4 in dotted decimal.\<close>

definition dotted :: "byte list \<Rightarrow> string" where
  "dotted q = (case q of
       [a, b, c, d] \<Rightarrow> dec_string (unat a) @ ''.'' @ dec_string (unat b) @ ''.'' @
                      dec_string (unat c) @ ''.'' @ dec_string (unat d)
     | _ \<Rightarrow> [])"

text \<open>
  IPv6 in hexadecimal groups, the first longest run of at least two zero groups written \<open>::\<close>.
\<close>

fun groups :: "byte list \<Rightarrow> nat list" where
  "groups (a # b # r) = unat (be16 a b) # groups r"
| "groups _ = []"

definition zero_run :: "nat list \<Rightarrow> nat \<Rightarrow> nat" where
  "zero_run gs i = length (takeWhile (\<lambda>g. g = 0) (drop i gs))"

definition best_run :: "nat list \<Rightarrow> nat \<times> nat" where
  "best_run gs = foldl (\<lambda>(s, e) i.
      let l = zero_run gs i in if 2 \<le> l \<and> e - s < l then (i, i + l) else (s, e))
    (255, 255) [0..<8]"

fun join_colon :: "string list \<Rightarrow> string" where
  "join_colon [] = []"
| "join_colon [x] = x"
| "join_colon (x # y # r) = x @ '':'' @ join_colon (y # r)"

definition v6_string :: "byte list \<Rightarrow> string" where
  "v6_string ip = (let gs = groups ip; (s, e) = best_run gs; hs = map hex_string gs
     in if s = 255 then join_colon hs
        else join_colon (take s hs) @ ''::'' @ join_colon (drop e hs))"

definition ip_string :: "ip \<Rightarrow> string" where
  "ip_string ip = (if ip = [] then ''<nil>''
     else if length ip \<noteq> 4 \<and> length ip \<noteq> 16 then
       ''?'' @ concat (map (\<lambda>b. [digit_char (unat b div 16), digit_char (unat b mod 16)]) ip)
     else case To4 ip of Some q \<Rightarrow> dotted q | None \<Rightarrow> v6_string ip)"

definition JoinHostPort :: "string \<Rightarrow> nat \<Rightarrow> string" where
  "JoinHostPort host port =
     (if CHR '':'' \<in> set host then ''['' @ host @ '']:'' @ dec_string port
      else host @ '':'' @ dec_string port)"

lemmas [go_eval] = dotted_def zero_run_def best_run_def v6_string_def ip_string_def JoinHostPort_def

lemma ip_string_v6_loopback:
  "ip_string [0, 0, 0, 0, 0, 0, 0, 0, 0, 0, 0, 0, 0, 0, 0, 1] = ''::1''"
  by code_simp

lemma ip_string_IPv4 [simp]: "ip_string (IPv4 a b c d) = ip_string [a, b, c, d]"
proof -
  have "IPv4 a b c d \<noteq> []" by (simp add: IPv4_def)
  then show ?thesis by (simp add: ip_string_def To4_def [of "[a, b, c, d]"])
qed

lemma dotted_inject:
  assumes "length p = 4" and "length q = 4" and "dotted p = dotted q"
  shows "p = q"
proof -
  obtain a b c d where p: "p = [a, b, c, d]" using assms(1) by (rule length_4_cases)
  obtain a' b' c' d' where q: "q = [a', b', c', d']" using assms(2) by (rule length_4_cases)
  from assms(3) have "unat a = unat a' \<and> unat b = unat b' \<and> unat c = unat c' \<and> unat d = unat d'"
    by (simp add: p q dotted_def append_sep_inject dec_string_no_dot)
  then show ?thesis by (simp add: p q word_unat_eq_iff)
qed

lemma dotted_no_colon: "CHR '':'' \<notin> set (dotted q)"
  by (auto simp: dotted_def dec_string_no_colon split: list.splits)

lemma ip_string_4: "length q = 4 \<Longrightarrow> ip_string q = dotted q"
  by (auto simp: ip_string_def To4_def)

lemma JoinHostPort_v4_inject:
  assumes "length p = 4" and "length q = 4"
    and "JoinHostPort (ip_string p) m = JoinHostPort (ip_string q) n"
  shows "p = q \<and> m = n"
proof -
  from assms(3) have "dotted p = dotted q \<and> m = n"
    by (simp add: JoinHostPort_def ip_string_4 assms(1,2) dotted_no_colon append_sep_inject)
  then show ?thesis using dotted_inject assms(1,2) by blast
qed

end
