(* ===== verification/Packet.thy ===== *)
theory Packet
  imports NetAddr
begin

text \<open>
  The wire formats of \<^verbatim>\<open>code/ping/main.go\<close>: the Internet checksum, ICMP echo packets and the
  IPv4 header. \<^verbatim>\<open>code/traceroute/main.go\<close> holds the same text of \<^verbatim>\<open>checksum\<close>,
  \<^verbatim>\<open>build_icmp_packet\<close> and \<^verbatim>\<open>parse_icmp_packet\<close>. The lemmas relate the 32-bit accumulator
  with its carry-folding loop to the RFC 1071 one's complement sum on naturals.
\<close>

section \<open>Data\<close>

record ICMP =
  icmp_type :: byte
  icmp_code :: byte
  icmp_checksum :: u16
  icmp_identifier :: u16
  icmp_seq :: u16
  icmp_data :: "byte list"

record IPHeader =
  ih_version_ihl :: byte
  ih_tos :: byte
  ih_total_length :: u16
  ih_identification :: u16
  ih_flags_frag_offset :: u16
  ih_ttl :: byte
  ih_protocol :: byte
  ih_header_checksum :: u16
  ih_source :: ip
  ih_destination :: ip

datatype packet_error = PacketTooShort

section \<open>The checksum\<close>

definition pad_even :: "byte list \<Rightarrow> byte list" where
  "pad_even packet = (if length packet mod 2 = 1 then packet @ [0] else packet)"

text \<open>The summing loop: \<^verbatim>\<open>sum\<close> is a \<^verbatim>\<open>uint32\<close>, so the addition wraps.\<close>

fun sum_loop :: "u32 \<Rightarrow> byte list \<Rightarrow> u32" where
  "sum_loop s (a # b # r) = sum_loop (s + (push_bit 8 (ucast a) OR ucast b)) r"
| "sum_loop s _ = s"

lemma unat_and_mask16: "unat (s AND 0xFFFF :: u32) = unat s mod 65536"
proof -
  have "s AND 0xFFFF = take_bit 16 s"
    by (simp add: take_bit_eq_mask mask_eq_exp_minus_1)
  then show ?thesis by (simp only: unsigned_take_bit_eq) (simp add: take_bit_eq_mod)
qed

lemma unat_shift16: "unat (drop_bit 16 s :: u32) = unat s div 65536"
  by (simp only: unat_drop_bit_eq) (simp add: drop_bit_eq_div)

lemma unat_u32_less: "unat (s :: u32) < 2 ^ 32"
  using unsigned_less [of s, where ?'a = nat] by simp

lemma unat_fold_step:
  "unat ((s AND 0xFFFF) + drop_bit 16 s :: u32) = unat s mod 65536 + unat s div 65536"
  using unat_u32_less [of s] by (simp add: unat_word_ariths unat_and_mask16 unat_shift16)

lemma fold_step_less: "0 < n div 65536 \<Longrightarrow> n mod 65536 + n div 65536 < (n :: nat)"
  using div_mult_mod_eq [of n 65536] by linarith

function fold_carry :: "u32 \<Rightarrow> u32" where
  "fold_carry s = (if drop_bit 16 s > 0 then fold_carry ((s AND 0xFFFF) + drop_bit 16 s) else s)"
  by pat_completeness auto
termination
proof (relation "measure unat", goal_cases)
  case (2 s)
  then have "0 < unat s div 65536"
    by (simp add: word_less_nat_alt unat_shift16)
  then show ?case by (simp only: in_measure unat_fold_step fold_step_less)
qed simp

declare fold_carry.simps [simp del]

definition checksum :: "byte list \<Rightarrow> u16" where
  "checksum packet = NOT (ucast (fold_carry (sum_loop 0 (pad_even packet))))"

lemmas [go_eval] = pad_even_def fold_carry.simps checksum_def

section \<open>The checksum against RFC 1071\<close>

text \<open>
  The reference: the exact sum of the big-endian 16-bit words (an odd last byte is the high byte
  of a word), and its one's complement representative in \<open>0..65535\<close>, which is zero only for a zero
  sum.
\<close>

fun word_sum :: "byte list \<Rightarrow> nat" where
  "word_sum (a # b # r) = unat (be16 a b) + word_sum r"
| "word_sum [a] = unat (be16 a 0)"
| "word_sum [] = 0"

definition ones_rep :: "nat \<Rightarrow> nat" where
  "ones_rep s = (if s = 0 then 0 else (s - 1) mod 65535 + 1)"

text \<open>At most this many bytes keep the 32-bit accumulator exact.\<close>

definition max_exact :: nat where
  "max_exact = 131074"

lemma ones_rep_small: "s \<le> 65535 \<Longrightarrow> ones_rep s = s"
  by (auto simp: ones_rep_def)

lemma ones_rep_le: "ones_rep s \<le> 65535"
proof (cases "s = 0")
  case True
  then show ?thesis by (simp add: ones_rep_def)
next
  case False
  moreover have "(s - 1) mod 65535 < 65535" by simp
  ultimately show ?thesis unfolding ones_rep_def by (split if_split) linarith
qed

lemma ones_rep_pos: "0 < s \<Longrightarrow> 0 < ones_rep s"
  by (simp add: ones_rep_def)

lemma ones_rep_cong: "0 < s \<Longrightarrow> 0 < t \<Longrightarrow> ones_rep s = ones_rep t \<longleftrightarrow> s mod 65535 = t mod 65535"
  by (cases s; cases t) (simp_all add: ones_rep_def Suc_mod_eq_iff)

lemma ones_rep_add_mult: "0 < s \<Longrightarrow> ones_rep (s + 65535 * k) = ones_rep s"
  by (subst ones_rep_cong) auto

lemma ones_rep_dvd: "0 < s \<Longrightarrow> s mod 65535 = 0 \<Longrightarrow> ones_rep s = 65535"
  using ones_rep_cong [of s 65535] ones_rep_small [of 65535] by simp

lemma ones_rep_fold: "0 < n div 65536 \<Longrightarrow> ones_rep (n mod 65536 + n div 65536) = ones_rep n"
proof -
  assume "0 < n div 65536"
  then have "0 < n mod 65536 + n div 65536" by simp
  from ones_rep_add_mult [OF this, of "n div 65536"]
  have "ones_rep (n mod 65536 + n div 65536) =
      ones_rep (n mod 65536 + n div 65536 + 65535 * (n div 65536))" by (rule sym)
  also have "n mod 65536 + n div 65536 + 65535 * (n div 65536) = n"
    using div_mult_mod_eq [of n 65536] by linarith
  finally show ?thesis .
qed

lemma unat_fold_carry: "unat (fold_carry s) = ones_rep (unat s)"
proof (induction s rule: fold_carry.induct)
  case (1 s)
  show ?case
  proof (cases "drop_bit 16 s > 0")
    case True
    then have pos: "0 < unat s div 65536"
      by (simp only: word_less_nat_alt unat_shift16 unat_0)
    have "unat (fold_carry s) = unat (fold_carry ((s AND 0xFFFF) + drop_bit 16 s))"
      using True by (simp only: fold_carry.simps [of s] if_True)
    also have "\<dots> = ones_rep (unat s mod 65536 + unat s div 65536)"
      using "1.IH" [OF True] by (simp only: unat_fold_step)
    also have "\<dots> = ones_rep (unat s)" using pos by (rule ones_rep_fold)
    finally show ?thesis .
  next
    case False
    then have "\<not> 0 < unat s div 65536"
      by (simp only: word_less_nat_alt unat_shift16 unat_0 not_False_eq_True)
    then have "unat s \<le> 65535" by linarith
    then show ?thesis using False
      by (simp only: fold_carry.simps [of s] if_False ones_rep_small)
  qed
qed

lemma word_sum_le: "word_sum p \<le> 65535 * ((length p + 1) div 2)"
proof (induction p rule: word_sum.induct)
  case (1 a b r)
  then show ?case using unat_u16_less [of "be16 a b"] by simp
next
  case (2 a)
  then show ?case using unat_u16_less [of "be16 a 0"] by simp
qed simp

lemma word_sum_pad_even [simp]: "word_sum (pad_even p) = word_sum p"
proof -
  have "word_sum (p @ [0]) = word_sum p" if "length p mod 2 = 1"
    using that by (induction p rule: word_sum.induct) auto
  then show ?thesis by (simp add: pad_even_def)
qed

lemma even_length_pad_even [simp]: "even (length (pad_even p))"
  by (simp add: pad_even_def) presburger

lemma unat_loop_word: "unat (push_bit 8 (ucast a) OR ucast b :: u32) = unat (be16 a b)"
proof -
  have "push_bit 8 (ucast a) OR ucast b = (ucast (be16 a b) :: u32)"
    unfolding be16_def by (rule bit_word_eqI) (auto simp: bit_simps dest: bit_imp_le_length)
  then show ?thesis by simp
qed

lemma unat_sum_loop:
  "even (length p) \<Longrightarrow> unat s + word_sum p < 2 ^ 32 \<Longrightarrow> unat (sum_loop s p) = unat s + word_sum p"
proof (induction s p rule: sum_loop.induct)
  case (1 s a b r)
  let ?w = "push_bit 8 (ucast a) OR ucast b :: u32"
  have "unat (s + ?w) = unat s + unat (be16 a b)"
    using "1.prems" by (simp add: unat_word_ariths unat_loop_word)
  then show ?case using "1.IH" "1.prems" by (simp add: add.assoc)
qed auto

lemma unat_not_u16: "unat (NOT w :: u16) = 65535 - unat w"
proof -
  have "NOT w = - 1 - w" by (simp add: not_eq_complement)
  moreover have "unat (- 1 - w) = unat (- 1 :: u16) - unat w"
    by (rule unat_sub) simp
  moreover have "unat (- 1 :: u16) = 65535"
    by (simp add: unsigned_minus_1_eq_mask mask_eq_exp_minus_1)
  ultimately show ?thesis by simp
qed

lemma unat_ucast_u32_u16: "unat w < 65536 \<Longrightarrow> unat (ucast (w :: u32) :: u16) = unat w"
  by (simp add: unsigned_ucast_eq take_bit_nat_eq_self_iff)

lemma unat_checksum:
  assumes "length p \<le> max_exact"
  shows "unat (checksum p) = 65535 - ones_rep (word_sum p)"
proof -
  have "(length p + 1) div 2 \<le> 65537" using assms by (simp add: max_exact_def)
  then have "65535 * ((length p + 1) div 2) \<le> 65535 * 65537" by (rule mult_left_mono) simp
  with word_sum_le [of p] have "word_sum p < 2 ^ 32" by simp
  then have "unat (sum_loop 0 (pad_even p)) = word_sum p"
    using unat_sum_loop [of "pad_even p" 0] by simp
  then have fold: "unat (fold_carry (sum_loop 0 (pad_even p))) = ones_rep (word_sum p)"
    by (simp only: unat_fold_carry)
  then have "unat (fold_carry (sum_loop 0 (pad_even p))) < 65536"
    using ones_rep_le [of "word_sum p"] by simp
  then show ?thesis
    by (simp add: checksum_def unat_not_u16 unat_ucast_u32_u16 fold)
qed

text \<open>Two packets with positive word sums have one checksum exactly when the sums agree modulo 65535.\<close>

lemma checksum_eq_iff:
  assumes "length p \<le> max_exact" and "length q \<le> max_exact"
    and "0 < word_sum p" and "0 < word_sum q"
  shows "checksum p = checksum q \<longleftrightarrow> word_sum p mod 65535 = word_sum q mod 65535"
proof -
  have "checksum p = checksum q \<longleftrightarrow> 65535 - ones_rep (word_sum p) = 65535 - ones_rep (word_sum q)"
    by (simp only: word_unat_eq_iff unat_checksum assms(1,2))
  also have "\<dots> \<longleftrightarrow> ones_rep (word_sum p) = ones_rep (word_sum q)"
    using ones_rep_le [of "word_sum p"] ones_rep_le [of "word_sum q"] by linarith
  also have "\<dots> \<longleftrightarrow> word_sum p mod 65535 = word_sum q mod 65535"
    using assms(3,4) by (rule ones_rep_cong)
  finally show ?thesis .
qed

section \<open>Building and parsing ICMP packets\<close>

text \<open>\<^verbatim>\<open>binary.BigEndian.PutUint16(buffer[i:i+2], w)\<close>: two bytes are overwritten.\<close>

definition put16_at :: "nat \<Rightarrow> u16 \<Rightarrow> byte list \<Rightarrow> byte list" where
  "put16_at i w buffer = buffer[i := hi8 w, Suc i := lo8 w]"

definition build_icmp_packet :: "u16 \<Rightarrow> u16 \<Rightarrow> byte list \<Rightarrow> byte list" where
  "build_icmp_packet ident seq data =
     (let buffer = [8, 0, 0, 0, 0, 0, 0, 0];
          buffer = put16_at 4 ident buffer;
          buffer = put16_at 6 seq buffer;
          buffer = buffer @ data;
          check = checksum buffer
      in put16_at 2 check buffer)"

definition parse_icmp_packet :: "byte list \<Rightarrow> packet_error + ICMP" where
  "parse_icmp_packet packet =
     (if length packet < 8 then Inl PacketTooShort
      else Inr \<lparr> icmp_type = packet ! 0,
                 icmp_code = packet ! 1,
                 icmp_checksum = be16 (packet ! 2) (packet ! 3),
                 icmp_identifier = be16 (packet ! 4) (packet ! 5),
                 icmp_seq = be16 (packet ! 6) (packet ! 7),
                 icmp_data = drop 8 packet \<rparr>)"

text \<open>An IPv4 header of 20 bytes; options are not skipped.\<close>

definition parse_ip_header :: "byte list \<Rightarrow> packet_error + IPHeader" where
  "parse_ip_header packet =
     (if length packet < 20 then Inl PacketTooShort
      else Inr \<lparr> ih_version_ihl = packet ! 0,
                 ih_tos = packet ! 1,
                 ih_total_length = be16 (packet ! 2) (packet ! 3),
                 ih_identification = be16 (packet ! 4) (packet ! 5),
                 ih_flags_frag_offset = be16 (packet ! 6) (packet ! 7),
                 ih_ttl = packet ! 8,
                 ih_protocol = packet ! 9,
                 ih_header_checksum = be16 (packet ! 10) (packet ! 11),
                 ih_source = IPv4 (packet ! 12) (packet ! 13) (packet ! 14) (packet ! 15),
                 ih_destination = IPv4 (packet ! 16) (packet ! 17) (packet ! 18) (packet ! 19) \<rparr>)"

lemmas [go_eval] = put16_at_def build_icmp_packet_def parse_icmp_packet_def parse_ip_header_def

text \<open>
  An ICMP message of the given type and code as its octets, with the checksum field \<open>c\<close>. A host
  answering an echo request sends \<open>icmp_octets 0 0\<close> of the request's identifier, sequence number
  and data, with the checksum of the message whose checksum field is zero.
\<close>

definition icmp_octets :: "byte \<Rightarrow> byte \<Rightarrow> u16 \<Rightarrow> u16 \<Rightarrow> u16 \<Rightarrow> byte list \<Rightarrow> byte list" where
  "icmp_octets t c check ident seq data =
     [t, c, hi8 check, lo8 check, hi8 ident, lo8 ident, hi8 seq, lo8 seq] @ data"

lemma length_icmp_octets [simp]: "length (icmp_octets t c k i q d) = 8 + length d"
  by (simp add: icmp_octets_def)

lemma put16_at_header:
  "put16_at 6 q (put16_at 4 i [t, c, 0, 0, 0, 0, 0, 0]) @ d = icmp_octets t c 0 i q d"
  by (simp add: put16_at_def icmp_octets_def eval_nat_numeral hi8_def [of 0] lo8_def [of 0])

lemma build_icmp_packet_octets:
  "build_icmp_packet i q d = icmp_octets 8 0 (checksum (icmp_octets 8 0 0 i q d)) i q d"
  by (simp add: build_icmp_packet_def Let_def put16_at_header)
    (simp add: put16_at_def icmp_octets_def eval_nat_numeral)

lemma parse_icmp_octets:
  "parse_icmp_packet (icmp_octets t c k i q d) =
     Inr \<lparr> icmp_type = t, icmp_code = c, icmp_checksum = k, icmp_identifier = i,
           icmp_seq = q, icmp_data = d \<rparr>"
  by (simp add: parse_icmp_packet_def icmp_octets_def eval_nat_numeral)

lemma word_sum_icmp_octets:
  "word_sum (icmp_octets t c k i q d) =
     unat (be16 t c) + unat k + unat i + unat q + word_sum d"
  by (simp add: icmp_octets_def)

lemma parse_icmp_packet_Inr_iff:
  "parse_icmp_packet packet = Inr p \<longleftrightarrow>
     packet = icmp_octets (icmp_type p) (icmp_code p) (icmp_checksum p) (icmp_identifier p)
       (icmp_seq p) (icmp_data p)"
proof
  assume ok: "parse_icmp_packet packet = Inr p"
  then have "8 \<le> length packet" by (simp add: parse_icmp_packet_def split: if_splits)
  then obtain a b c d e f g h r where "packet = a # b # c # d # e # f # g # h # r"
    by (auto simp: eval_nat_numeral Suc_le_length_iff)
  with ok show "packet = icmp_octets (icmp_type p) (icmp_code p) (icmp_checksum p)
      (icmp_identifier p) (icmp_seq p) (icmp_data p)"
    by (auto simp: parse_icmp_packet_def icmp_octets_def eval_nat_numeral)
next
  assume "packet = icmp_octets (icmp_type p) (icmp_code p) (icmp_checksum p)
      (icmp_identifier p) (icmp_seq p) (icmp_data p)"
  then show "parse_icmp_packet packet = Inr p"
    by (cases p) (simp add: parse_icmp_octets)
qed

lemma word_sum_append:
  "even (length xs) \<Longrightarrow> word_sum (xs @ ys) = word_sum xs + word_sum ys"
  by (induction xs rule: word_sum.induct) auto

text \<open>
  What the probing programs rely on: a probe's identifier and sequence number are read back from
  any prefix of it that holds the eight header bytes, which is all that an ICMP error quotes.
\<close>

locale probe_codec =
  fixes build :: "u16 \<Rightarrow> u16 \<Rightarrow> byte list \<Rightarrow> byte list"
    and parse :: "byte list \<Rightarrow> 'e + ICMP"
  assumes parse_prefix: "8 \<le> n \<Longrightarrow> \<exists>k. parse (take n (build i q d)) =
      Inr \<lparr> icmp_type = 8, icmp_code = 0, icmp_checksum = k, icmp_identifier = i,
            icmp_seq = q, icmp_data = take (n - 8) d \<rparr>"
begin

lemma parse_build:
  "\<exists>k. parse (build i q d) = Inr \<lparr> icmp_type = 8, icmp_code = 0, icmp_checksum = k,
     icmp_identifier = i, icmp_seq = q, icmp_data = d \<rparr>"
proof -
  let ?n = "8 + length d + length (build i q d)"
  have "take ?n (build i q d) = build i q d" by simp
  moreover have "take (?n - 8) d = d" by simp
  ultimately show ?thesis using parse_prefix [of ?n i q d] by simp
qed

lemma build_inject: "build i q d = build i' q' d' \<longleftrightarrow> i = i' \<and> q = q' \<and> d = d'"
proof
  assume eq: "build i q d = build i' q' d'"
  obtain k where k: "parse (build i q d) = Inr \<lparr> icmp_type = 8, icmp_code = 0,
      icmp_checksum = k, icmp_identifier = i, icmp_seq = q, icmp_data = d \<rparr>"
    using parse_build by blast
  obtain k' where "parse (build i' q' d') = Inr \<lparr> icmp_type = 8, icmp_code = 0,
      icmp_checksum = k', icmp_identifier = i', icmp_seq = q', icmp_data = d' \<rparr>"
    using parse_build by blast
  with k eq show "i = i' \<and> q = q' \<and> d = d'" by simp
qed simp

lemma quoted_identity:
  assumes "8 \<le> n" and "parse (take n (build i q d)) = Inr p"
  shows "icmp_identifier p = i \<and> icmp_seq p = q"
  using parse_prefix [OF assms(1), of i q d] assms(2) by auto

end

interpretation echo: probe_codec build_icmp_packet parse_icmp_packet
proof unfold_locales
  fix n :: nat and i q :: u16 and d :: "byte list"
  assume n: "8 \<le> n"
  have "take n (icmp_octets 8 0 k i q d) = icmp_octets 8 0 k i q (take (n - 8) d)" for k
    using n unfolding icmp_octets_def take_append by (simp add: eval_nat_numeral)
  then show "\<exists>k. parse_icmp_packet (take n (build_icmp_packet i q d)) =
      Inr \<lparr> icmp_type = 8, icmp_code = 0, icmp_checksum = k, icmp_identifier = i,
            icmp_seq = q, icmp_data = take (n - 8) d \<rparr>"
    by (simp add: build_icmp_packet_octets parse_icmp_octets)
qed

section \<open>Properties\<close>

lemma u16_mod_eq_cases:
  assumes "unat x mod 65535 = unat y mod 65535" and "unat x < 65536" and "unat y < 65536"
  shows "x = y \<or> {x, y} = {0, 0xFFFF :: u16}"
proof (cases "unat x < 65535 \<longleftrightarrow> unat y < 65535")
  case True
  then have "unat x = unat y" using assms by (cases "unat x < 65535") simp_all
  then show ?thesis by (simp add: word_unat_eq_iff)
next
  case False
  then consider "unat x = 65535" "unat y = 0" | "unat x = 0" "unat y = 65535"
    using assms by (cases "unat x = 65535"; cases "unat y = 65535") auto
  then show ?thesis by cases (simp_all add: word_unat_eq_iff [where ?'a = 16] doubleton_eq_iff)
qed

lemma checksum_residue:
  assumes "length p \<le> max_exact" and "0 < word_sum p"
  shows "unat (checksum p) < 65535 \<and> (word_sum p + unat (checksum p)) mod 65535 = 0"
proof -
  let ?s = "word_sum p"
  have r: "0 < ones_rep ?s" "ones_rep ?s \<le> 65535"
    using assms(2) by (simp_all add: ones_rep_pos ones_rep_le)
  have "ones_rep ?s = ones_rep (ones_rep ?s)" by (simp add: ones_rep_small ones_rep_le)
  then have "?s mod 65535 = ones_rep ?s mod 65535"
    using ones_rep_cong [of ?s "ones_rep ?s"] assms(2) r(1) by simp
  then have "(?s + (65535 - ones_rep ?s)) mod 65535 = (ones_rep ?s + (65535 - ones_rep ?s)) mod 65535"
    by (metis mod_add_left_eq)
  then show ?thesis using r by (simp add: unat_checksum assms(1))
qed

text \<open>C2: \<open>checksum\<close> computes the RFC 1071 Internet checksum: on every packet of at most 131074 bytes
  whose word sum is not zero it is the one 16-bit value below 0xFFFF that brings the sum of the
  big-endian words, an odd last byte padded, to a multiple of 65535. So neither the 32-bit
  accumulator nor the folding loop loses a carry.\<close>

theorem checksum_unique:
  assumes "length p \<le> max_exact" and "0 < word_sum p"
  shows "checksum p = c \<longleftrightarrow> unat c < 65535 \<and> (word_sum p + unat c) mod 65535 = 0"
proof
  assume "checksum p = c"
  then show "unat c < 65535 \<and> (word_sum p + unat c) mod 65535 = 0"
    using checksum_residue [OF assms] by simp
next
  let ?k = "checksum p"
  assume c: "unat c < 65535 \<and> (word_sum p + unat c) mod 65535 = 0"
  have k: "unat ?k < 65535 \<and> (word_sum p + unat ?k) mod 65535 = 0"
    using assms by (rule checksum_residue)
  have "(word_sum p + unat ?k) mod 65535 = (word_sum p + unat c) mod 65535"
    using c k by simp
  then have "unat ?k mod 65535 = unat c mod 65535" by (simp only: add_mod_eq_iff)
  then have "unat ?k = unat c" using c k by simp
  then show "?k = c" by (simp add: word_unat_eq_iff)
qed

theorem checksum_unique_witness:
  "(checksum [8, 0, 0, 0, 0, 1, 0, 2, 7] = 0xF0FC) \<longleftrightarrow>
     unat (0xF0FC :: u16) < 65535 \<and> (word_sum [8, 0, 0, 0, 0, 1, 0, 2, 7] + unat (0xF0FC :: u16)) mod 65535 = 0"
  by (rule checksum_unique) (simp_all add: max_exact_def go_eval)

text \<open>C18: every packet that \<open>build_icmp_packet\<close> builds passes the receiver's test of RFC 1071: the
  checksum over the whole packet, its checksum field included, is zero.\<close>

theorem built_packet_verifies:
  assumes "8 + length d \<le> max_exact"
  shows "checksum (build_icmp_packet i q d) = 0"
proof -
  let ?z = "icmp_octets 8 0 0 i q d"
  have len: "length ?z \<le> max_exact" using assms by simp
  have pos: "0 < word_sum ?z" by (simp add: word_sum_icmp_octets unat_be16)
  have sum: "word_sum (build_icmp_packet i q d) = word_sum ?z + unat (checksum ?z)"
    by (simp add: build_icmp_packet_octets word_sum_icmp_octets)
  have "(word_sum (build_icmp_packet i q d) + unat (0 :: u16)) mod 65535 = 0"
    using checksum_residue [OF len pos] by (simp add: sum)
  moreover have "length (build_icmp_packet i q d) \<le> max_exact"
    using assms by (simp add: build_icmp_packet_octets)
  moreover have "0 < word_sum (build_icmp_packet i q d)" using pos by (simp add: sum)
  ultimately show ?thesis by (simp add: word_unat_eq_iff unat_checksum ones_rep_dvd)
qed

theorem built_packet_verifies_witness:
  "(8 + length [1, 2, 3 :: byte] \<le> max_exact) \<and> checksum (build_icmp_packet 77 5 [1, 2, 3]) = 0"
  using built_packet_verifies [of "[1, 2, 3]" 77 5] by (simp add: max_exact_def)

text \<open>C30: the checksum detects every change of a single 16-bit word of a packet, except the swap of
  the two representations 0 and 0xFFFF of zero.\<close>

theorem single_word_change_detected:
  assumes "even (length xs)"
    and "length xs + 2 + length ys \<le> max_exact"
    and "be16 a b \<noteq> be16 a' b'"
    and "{be16 a b, be16 a' b'} \<noteq> {0, 0xFFFF}"
    and "0 < word_sum (xs @ [a, b] @ ys)" and "0 < word_sum (xs @ [a', b'] @ ys)"
  shows "checksum (xs @ [a, b] @ ys) \<noteq> checksum (xs @ [a', b'] @ ys)"
proof
  assume "checksum (xs @ [a, b] @ ys) = checksum (xs @ [a', b'] @ ys)"
  then have "word_sum (xs @ [a, b] @ ys) mod 65535 = word_sum (xs @ [a', b'] @ ys) mod 65535"
    using assms(2,5,6) by (subst (asm) checksum_eq_iff) simp_all
  then have "(word_sum xs + word_sum ys + unat (be16 a b)) mod 65535 =
      (word_sum xs + word_sum ys + unat (be16 a' b')) mod 65535"
    using assms(1) by (simp add: word_sum_append ac_simps)
  then have "unat (be16 a b) mod 65535 = unat (be16 a' b') mod 65535"
    by (simp only: add_mod_eq_iff)
  moreover have "x = y \<or> {x, y} = {0, 0xFFFF}" if "unat x mod 65535 = unat y mod 65535" for x y :: u16
    using that unat_u16_less [of x] unat_u16_less [of y] by (rule u16_mod_eq_cases)
  ultimately show False using assms(3,4) by blast
qed

theorem single_word_change_detected_witness:
  "checksum ([8, 0] @ [1, 2] @ [3]) \<noteq> checksum ([8, 0] @ [1, 3] @ [3])"
  by (rule single_word_change_detected) (simp_all add: max_exact_def go_eval doubleton_eq_iff)

end
