(* ===== verification/Ping.thy ===== *)
theory Ping
  imports Packet
begin

text \<open>
  The program \<^verbatim>\<open>code/ping/main.go\<close> above the packet formats: the acceptance test for echo
  replies, what the sending and reading goroutines put on the channel \<^verbatim>\<open>pingResultChan\<close>, the
  two arms of the main loop's \<^verbatim>\<open>select\<close>, and the whole program as a step relation over the main
  loop's state, the two channels and the running timers. Times are nanoseconds of the process clock.
  Output (\<^verbatim>\<open>fmt.Printf\<close>) is not modelled.
\<close>

section \<open>Data\<close>

text \<open>The constants \<^verbatim>\<open>WAITING = 0\<close>, \<dots>, \<^verbatim>\<open>ERROR = 3\<close>; the zero value is \<open>WAITING\<close>.\<close>

datatype ping_state = WAITING | RECEIVED | TIMEOUT | ERROR

record PingResult =
  State :: ping_state
  SendData :: "byte list"
  SendTime :: int
  SendIdentifier :: u16
  Seq :: u16
  TTL :: int
  IP :: ip
  Size :: int
  ReceiveTime :: int
  icmp :: ICMP
  err :: string

definition zero_ICMP :: ICMP where
  "zero_ICMP = \<lparr> icmp_type = 0, icmp_code = 0, icmp_checksum = 0, icmp_identifier = 0,
     icmp_seq = 0, icmp_data = [] \<rparr>"

text \<open>The zero value \<^verbatim>\<open>PingResult{}\<close>.\<close>

definition zero_PingResult :: PingResult where
  "zero_PingResult = \<lparr> State = WAITING, SendData = [], SendTime = 0, SendIdentifier = 0, Seq = 0,
     TTL = 0, IP = [], Size = 0, ReceiveTime = 0, icmp = zero_ICMP, err = [] \<rparr>"

lemmas [go_eval] = zero_ICMP_def zero_PingResult_def

section \<open>Accepting an echo reply\<close>

text \<open>
  \<^verbatim>\<open>pingResult\<close> is a pointer: \<open>None\<close> is nil. The first guard lets a nil pointer through, the
  second dereferences it unless the type test already decides.
\<close>

definition check_icmp_packet :: "ICMP \<Rightarrow> PingResult option \<Rightarrow> go_panic + bool" where
  "check_icmp_packet ic pingResult =
     (case pingResult of
        None \<Rightarrow> if icmp_type ic \<noteq> 0 then Inr False else Inl NilDeref
      | Some r \<Rightarrow>
          if State r \<noteq> WAITING then Inr False
          else if icmp_type ic \<noteq> 0 \<or> icmp_identifier ic \<noteq> SendIdentifier r then Inr False
          else if length (icmp_data ic) \<noteq> length (SendData r) then Inr False
          else if list_ex (\<lambda>i. icmp_data ic ! i \<noteq> SendData r ! i) [0..<length (icmp_data ic)]
          then Inr False
          else
            (let buffer = [icmp_type ic, icmp_code ic, 0, 0, 0, 0, 0, 0];
                 buffer = put16_at 4 (icmp_identifier ic) buffer;
                 buffer = put16_at 6 (icmp_seq ic) buffer;
                 buffer = buffer @ icmp_data ic
             in if icmp_checksum ic \<noteq> checksum buffer then Inr False else Inr True))"

lemma bytes_differ_iff:
  assumes "length xs = length ys"
  shows "list_ex (\<lambda>i. xs ! i \<noteq> ys ! i) [0..<length ys] \<longleftrightarrow> xs \<noteq> ys"
proof
  assume "list_ex (\<lambda>i. xs ! i \<noteq> ys ! i) [0..<length ys]"
  then show "xs \<noteq> ys" by (auto simp: list_ex_iff)
next
  assume "xs \<noteq> ys"
  then obtain i where "i < length ys" "xs ! i \<noteq> ys ! i"
    using assms nth_equalityI [of xs ys] by auto
  then show "list_ex (\<lambda>i. xs ! i \<noteq> ys ! i) [0..<length ys]" by (auto simp: list_ex_iff)
qed

lemma check_icmp_packet_Some:
  "check_icmp_packet ic (Some r) = Inr
     (State r = WAITING \<and> icmp_type ic = 0 \<and> icmp_identifier ic = SendIdentifier r \<and>
      icmp_data ic = SendData r \<and>
      icmp_checksum ic = checksum (icmp_octets (icmp_type ic) (icmp_code ic) 0
        (icmp_identifier ic) (icmp_seq ic) (icmp_data ic)))"
proof (cases "length (icmp_data ic) = length (SendData r)")
  case True
  then show ?thesis
    by (simp add: check_icmp_packet_def bytes_differ_iff Let_def put16_at_header) auto
next
  case False
  then show ?thesis by (auto simp: check_icmp_packet_def)
qed

section \<open>The sending goroutine\<close>

text \<open>
  \<^verbatim>\<open>data\<close>: the nanosecond part of the send time in eight bytes, then \<^verbatim>\<open>size-8\<close> random bytes; \<open>rnd j\<close> is the \<open>j\<close>-th value
  drawn. A size below eight leaves the eight bytes.
\<close>

definition put_be64 :: "64 word \<Rightarrow> byte list" where
  "put_be64 w = map (\<lambda>i. ucast (drop_bit (8 * i) w)) (rev [0..<8])"

definition ping_payload :: "int \<Rightarrow> (nat \<Rightarrow> byte) \<Rightarrow> int \<Rightarrow> byte list" where
  "ping_payload sendTime rnd psize =
     put_be64 (word_of_int (sendTime mod 1000000000)) @ map rnd [0..<nat (psize - 8)]"

text \<open>The record put on the channel once probe \<open>i\<close> with this payload has been written.\<close>

definition sent_result :: "u16 \<Rightarrow> nat \<Rightarrow> int \<Rightarrow> byte list \<Rightarrow> PingResult" where
  "sent_result ident i sendTime data = zero_PingResult
     \<lparr> State := WAITING, SendData := data, SendTime := sendTime, SendIdentifier := ident,
       Seq := of_nat i \<rparr>"

lemma length_ping_payload: "length (ping_payload t rnd n) = nat (max 8 n)"
  by (simp add: ping_payload_def put_be64_def)

section \<open>The reading goroutine\<close>

text \<open>
  One datagram read into the zeroed 1500-byte buffer, which cuts a longer one: \<open>packet\<close> is
  \<^verbatim>\<open>buffer[:n]\<close>. \<open>Inr None\<close> is \<^verbatim>\<open>continue\<close>. The slice \<^verbatim>\<open>buffer[20:n]\<close> panics for a datagram shorter than 20 bytes. The error of
  \<^verbatim>\<open>parse_ip_header\<close> is overwritten; on 20 bytes there is none.
\<close>

definition read_reply :: "byte list \<Rightarrow> int \<Rightarrow> go_panic + PingResult option" where
  "read_reply datagram now =
     (let packet = take 1500 datagram; n = length packet; buffer = packet @ replicate (1500 - n) 0 in
      case parse_ip_header (take 20 buffer) of
        Inl _ \<Rightarrow> Inr None
      | Inr ipHeader \<Rightarrow>
          if n < 20 then Inl SliceBounds
          else (case parse_icmp_packet (drop 20 packet) of
            Inl _ \<Rightarrow> Inr None
          | Inr ic \<Rightarrow> Inr (Some (zero_PingResult
              \<lparr> State := RECEIVED, Seq := icmp_seq ic, TTL := int (unat (ih_ttl ipHeader)),
                IP := ih_source ipHeader, Size := int n - 20, ReceiveTime := now, icmp := ic \<rparr>))))"

lemmas [go_eval] = check_icmp_packet_def put_be64_def ping_payload_def sent_result_def read_reply_def

section \<open>The main loop\<close>

record ping_main =
  pingResults :: "u16 \<Rightarrow> PingResult option"
  sended :: int
  received :: int
  loss :: int

definition init_main :: ping_main where
  "init_main = \<lparr> pingResults = Map.empty, sended = 0, received = 0, loss = 0 \<rparr>"

text \<open>
  How an arm of the \<^verbatim>\<open>select\<close> ends: by falling through to the termination test, or with
  \<^verbatim>\<open>continue\<close>, which skips the test.
\<close>

datatype loop_ctl = Fallthrough | Continue

definition set_result :: "u16 \<Rightarrow> PingResult \<Rightarrow> ping_main \<Rightarrow> ping_main" where
  "set_result k r s = s\<lparr> pingResults := (pingResults s)(k \<mapsto> r) \<rparr>"

text \<open>\<^verbatim>\<open>case seq := <-timeChan\<close>; a missing entry is a nil pointer.\<close>

definition on_timeout :: "nat \<Rightarrow> ping_main \<Rightarrow> go_panic + loop_ctl \<times> ping_main" where
  "on_timeout seq s =
     (case pingResults s (of_nat seq) of
        None \<Rightarrow> Inl NilDeref
      | Some r \<Rightarrow>
          if State r = WAITING then
            Inr (Fallthrough, (set_result (of_nat seq) (r\<lparr> State := TIMEOUT \<rparr>) s)
              \<lparr> loss := loss s + 1 \<rparr>)
          else Inr (Fallthrough, s))"

text \<open>
  The branch for a reply whose ICMP code is not 0. The three arms of the inner \<^verbatim>\<open>switch\<close> print
  and store the state \<open>ERROR\<close>.
\<close>

definition on_error_reply :: "PingResult \<Rightarrow> PingResult \<Rightarrow> ping_main \<Rightarrow> loop_ctl \<times> ping_main" where
  "on_error_reply result entry s =
     (if length (icmp_data (icmp result)) \<noteq> 28 then (Continue, s)
      else case parse_icmp_packet (drop 28 (icmp_data (icmp result))) of
        Inl _ \<Rightarrow> (Continue, s)
      | Inr originalICMP \<Rightarrow>
          (if icmp_type (icmp result) = 3 then
             (Fallthrough, set_result (Seq result) (entry\<lparr> State := ERROR \<rparr>) s)
           else if icmp_type (icmp result) = 11 then
             (Fallthrough, set_result (Seq result) (entry\<lparr> State := ERROR \<rparr>) s)
           else (Fallthrough, set_result (Seq result) (entry\<lparr> State := ERROR \<rparr>) s)))"

text \<open>\<^verbatim>\<open>case result := <-pingResultChan\<close>: an unknown sequence number gets the zero entry first.\<close>

definition ensure_entry :: "u16 \<Rightarrow> ping_main \<Rightarrow> ping_main" where
  "ensure_entry k s = (if pingResults s k = None then set_result k zero_PingResult s else s)"

definition mark_received :: "PingResult \<Rightarrow> PingResult \<Rightarrow> ping_main \<Rightarrow> ping_main" where
  "mark_received result entry s =
     (set_result (Seq result) (entry\<lparr> State := RECEIVED, TTL := TTL result, IP := IP result,
        Size := Size result, ReceiveTime := ReceiveTime result \<rparr>) s)
       \<lparr> received := received s + 1 \<rparr>"

definition mark_sent :: "PingResult \<Rightarrow> PingResult \<Rightarrow> ping_main \<Rightarrow> ping_main" where
  "mark_sent result entry s =
     (set_result (Seq result) (entry\<lparr> State := WAITING, Seq := Seq result,
        SendData := SendData result, SendTime := SendTime result,
        SendIdentifier := SendIdentifier result \<rparr>) s)
       \<lparr> sended := sended s + 1 \<rparr>"

definition on_result :: "PingResult \<Rightarrow> ping_main \<Rightarrow> go_panic + loop_ctl \<times> ping_main" where
  "on_result result s0 =
     (let s = ensure_entry (Seq result) s0
      in case pingResults s (Seq result) of
        None \<Rightarrow> Inl NilDeref
      | Some entry \<Rightarrow>
          if State result = RECEIVED then
            (if State entry \<noteq> WAITING then Inr (Continue, s)
             else if icmp_code (icmp result) \<noteq> 0 then Inr (on_error_reply result entry s)
             else (case check_icmp_packet (icmp result) (pingResults s (icmp_seq (icmp result))) of
                 Inl p \<Rightarrow> Inl p
               | Inr ok \<Rightarrow>
                   if ok then Inr (Fallthrough, mark_received result entry s)
                   else Inr (Continue, s)))
          else Inr (Fallthrough, mark_sent result entry s))"

text \<open>The termination test after the \<^verbatim>\<open>select\<close>; \<^verbatim>\<open>count\<close> is \<open>-1\<close> for an unlimited run.\<close>

definition finished :: "int \<Rightarrow> ping_main \<Rightarrow> bool" where
  "finished count s \<longleftrightarrow> count \<noteq> -1 \<and> sended s = count \<and> received s + loss s = count"

lemmas [go_eval] = init_main_def set_result_def on_timeout_def on_error_reply_def on_result_def
  finished_def

section \<open>The program as a step relation\<close>

datatype run_status = Running | Returned | Panicked go_panic

record ping_sys =
  next_i :: nat
  resultChan :: "PingResult list"
  timeChan :: "nat list"
  timers :: "nat list"
  main_st :: ping_main
  status :: run_status

definition init_sys :: ping_sys where
  "init_sys = \<lparr> next_i = 0, resultChan = [], timeChan = [], timers = [],
     main_st = init_main, status = Running \<rparr>"

text \<open>What the main loop does with the result of an arm.\<close>

definition main_iter :: "int \<Rightarrow> go_panic + loop_ctl \<times> ping_main \<Rightarrow> ping_sys \<Rightarrow> ping_sys" where
  "main_iter count res y =
     (case res of
        Inl p \<Rightarrow> y\<lparr> status := Panicked p \<rparr>
      | Inr (Continue, s) \<Rightarrow> y\<lparr> main_st := s \<rparr>
      | Inr (Fallthrough, s) \<Rightarrow>
          y\<lparr> main_st := s, status := (if finished count s then Returned else Running) \<rparr>)"

text \<open>
  The steps: the sender writes probe \<open>i\<close>, queues its record and starts its timer, or fails to
  write it; a timer fires; the reader reads a datagram of the network (\<open>net\<close> says which ones the
  network may deliver) and queues a result, drops it or panics; the main loop takes from one of
  its channels; the interrupt ends the program. Both channels hold 16 values. With \<open>prompt\<close> the
  main loop takes a probe's time-out only after the probe's record has left the queue, which holds
  when the time-out is longer than the queueing delay.
\<close>

inductive ping_step :: "int \<Rightarrow> u16 \<Rightarrow> (byte list \<Rightarrow> bool) \<Rightarrow> bool \<Rightarrow> ping_sys \<Rightarrow> ping_sys \<Rightarrow> bool"
  for count :: int and ident :: u16 and net :: "byte list \<Rightarrow> bool" and prompt :: bool where
  send: "\<lbrakk> status y = Running; count = -1 \<or> int (next_i y) < count; length (resultChan y) < 16 \<rbrakk> \<Longrightarrow>
    ping_step count ident net prompt y
      (y\<lparr> next_i := Suc (next_i y),
          resultChan := resultChan y @
            [sent_result ident (next_i y) now (ping_payload now rnd psize)],
          timers := next_i y # timers y \<rparr>)"
| send_fails: "\<lbrakk> status y = Running; count = -1 \<or> int (next_i y) < count \<rbrakk> \<Longrightarrow>
    ping_step count ident net prompt y (y\<lparr> next_i := Suc (next_i y) \<rparr>)"
| timer_fires: "\<lbrakk> status y = Running; i \<in> set (timers y); length (timeChan y) < 16 \<rbrakk> \<Longrightarrow>
    ping_step count ident net prompt y
      (y\<lparr> timers := remove1 i (timers y), timeChan := timeChan y @ [i] \<rparr>)"
| reply: "\<lbrakk> status y = Running; net packet; read_reply packet now = Inr (Some r);
      length (resultChan y) < 16 \<rbrakk> \<Longrightarrow>
    ping_step count ident net prompt y (y\<lparr> resultChan := resultChan y @ [r] \<rparr>)"
| reply_panics: "\<lbrakk> status y = Running; net packet; read_reply packet now = Inl p \<rbrakk> \<Longrightarrow>
    ping_step count ident net prompt y (y\<lparr> status := Panicked p \<rparr>)"
| take_time: "\<lbrakk> status y = Running; timeChan y = i # rest;
      prompt \<longrightarrow> (\<forall>r \<in> set (resultChan y). State r = WAITING \<longrightarrow> Seq r \<noteq> of_nat i) \<rbrakk> \<Longrightarrow>
    ping_step count ident net prompt y
      (main_iter count (on_timeout i (main_st y)) (y\<lparr> timeChan := rest \<rparr>))"
| take_result: "\<lbrakk> status y = Running; resultChan y = r # rest \<rbrakk> \<Longrightarrow>
    ping_step count ident net prompt y
      (main_iter count (on_result r (main_st y)) (y\<lparr> resultChan := rest \<rparr>))"
| interrupt: "status y = Running \<Longrightarrow>
    ping_step count ident net prompt y (y\<lparr> status := Returned \<rparr>)"

inductive ping_reachable :: "int \<Rightarrow> u16 \<Rightarrow> (byte list \<Rightarrow> bool) \<Rightarrow> bool \<Rightarrow> ping_sys \<Rightarrow> bool"
  for count :: int and ident :: u16 and net :: "byte list \<Rightarrow> bool" and prompt :: bool where
  start: "ping_reachable count ident net prompt init_sys"
| step: "\<lbrakk> ping_reachable count ident net prompt y; ping_step count ident net prompt y z \<rbrakk> \<Longrightarrow>
    ping_reachable count ident net prompt z"

section \<open>Invariants\<close>

text \<open>
  The keys with a given state, and the keys of probes whose record the main loop has taken: a
  probe's payload has at least eight bytes, while an entry made for a reply that nobody asked for
  holds the zero value.
\<close>

definition keys_in :: "ping_state \<Rightarrow> ping_main \<Rightarrow> u16 set" where
  "keys_in st s = {k. \<exists>r. pingResults s k = Some r \<and> State r = st}"

definition sent_keys :: "ping_main \<Rightarrow> u16 set" where
  "sent_keys s = {k. \<exists>r. pingResults s k = Some r \<and> SendData r \<noteq> []}"

definition main_inv :: "ping_main \<Rightarrow> bool" where
  "main_inv s \<longleftrightarrow>
     sended s = int (card (sent_keys s)) \<and>
     received s = int (card (keys_in RECEIVED s)) \<and>
     loss s = int (card (keys_in TIMEOUT s)) \<and>
     keys_in RECEIVED s \<union> keys_in TIMEOUT s \<subseteq> sent_keys s \<and>
     keys_in ERROR s = {} \<and>
     (\<forall>k r. pingResults s k = Some r \<longrightarrow> SendData r = [] \<longrightarrow> SendIdentifier r = 0)"

text \<open>A reply that the zero value accepts: identifier 0 and no data.\<close>

definition blank :: "ICMP \<Rightarrow> bool" where
  "blank ic \<longleftrightarrow> icmp_identifier ic = 0 \<and> icmp_data ic = []"

named_theorems ping_sets

lemma keys_in_set_result [ping_sets]:
  "keys_in st (set_result k r s) = (if State r = st then insert k (keys_in st s) else keys_in st s - {k})"
  by (auto simp: keys_in_def set_result_def)

lemma sent_keys_set_result [ping_sets]:
  "sent_keys (set_result k r s) = (if SendData r \<noteq> [] then insert k (sent_keys s) else sent_keys s - {k})"
  by (auto simp: sent_keys_def set_result_def)

lemma keys_in_counters [ping_sets]:
  "keys_in st (s\<lparr> loss := l \<rparr>) = keys_in st s" "sent_keys (s\<lparr> loss := l \<rparr>) = sent_keys s"
  "keys_in st (s\<lparr> received := l \<rparr>) = keys_in st s" "sent_keys (s\<lparr> received := l \<rparr>) = sent_keys s"
  "keys_in st (s\<lparr> sended := l \<rparr>) = keys_in st s" "sent_keys (s\<lparr> sended := l \<rparr>) = sent_keys s"
  by (simp_all add: keys_in_def sent_keys_def)

lemma counters_set_result [ping_sets]:
  "sended (set_result k r s) = sended s" "received (set_result k r s) = received s"
  "loss (set_result k r s) = loss s" "pingResults (set_result k r s) = (pingResults s)(k \<mapsto> r)"
  by (simp_all add: set_result_def)

lemma keys_inD: "pingResults s k = Some r \<Longrightarrow> State r \<noteq> st \<Longrightarrow> k \<notin> keys_in st s"
  by (simp add: keys_in_def)

lemma keys_in_None: "pingResults s k = None \<Longrightarrow> k \<notin> keys_in st s \<and> k \<notin> sent_keys s"
  by (simp add: keys_in_def sent_keys_def)

lemma sent_keys_iff: "pingResults s k = Some r \<Longrightarrow> k \<in> sent_keys s \<longleftrightarrow> SendData r \<noteq> []"
  by (simp add: sent_keys_def)

lemma main_inv_init: "main_inv init_main"
  by (simp add: main_inv_def init_main_def keys_in_def sent_keys_def)

text \<open>An error reply never reaches the \<^verbatim>\<open>switch\<close>: 28 bytes of data leave none for the inner parse.\<close>

lemma on_error_reply_Continue: "on_error_reply result entry s = (Continue, s)"
  by (simp add: on_error_reply_def parse_icmp_packet_def)

lemma ensure_entry_Some: "\<exists>r. pingResults (ensure_entry k s) k = Some r"
  by (auto simp: ensure_entry_def set_result_def)

lemma sent_keys_ensure_entry [ping_sets]: "sent_keys (ensure_entry k s) = sent_keys s"
  using keys_in_None [of s k]
  by (auto simp: ensure_entry_def ping_sets zero_PingResult_def)

lemma main_inv_ensure_entry: "main_inv s \<Longrightarrow> main_inv (ensure_entry k s)"
  using keys_in_None [of s k]
  by (auto simp: main_inv_def ensure_entry_def ping_sets zero_PingResult_def)

text \<open>The three ways a result changes the main loop's state.\<close>

lemma on_result_cases:
  assumes "State r = RECEIVED \<Longrightarrow> Seq r = icmp_seq (icmp r)"
  obtains (ignored) "State r = RECEIVED" "on_result r s = Inr (Continue, ensure_entry (Seq r) s)"
  | (accepted) entry where "State r = RECEIVED"
      "pingResults (ensure_entry (Seq r) s) (Seq r) = Some entry"
      "check_icmp_packet (icmp r) (Some entry) = Inr True" "icmp_code (icmp r) = 0"
      "on_result r s = Inr (Fallthrough, mark_received r entry (ensure_entry (Seq r) s))"
  | (recorded) entry where "State r \<noteq> RECEIVED"
      "pingResults (ensure_entry (Seq r) s) (Seq r) = Some entry"
      "on_result r s = Inr (Fallthrough, mark_sent r entry (ensure_entry (Seq r) s))"
proof -
  obtain entry where entry: "pingResults (ensure_entry (Seq r) s) (Seq r) = Some entry"
    using ensure_entry_Some by blast
  show thesis
  proof (cases "State r = RECEIVED")
    case False
    with entry show thesis by (intro recorded) (simp_all add: on_result_def Let_def)
  next
    case True
    obtain ok where ok: "check_icmp_packet (icmp r) (Some entry) = Inr ok"
      using check_icmp_packet_Some by blast
    have res: "on_result r s = (if State entry \<noteq> WAITING \<or> icmp_code (icmp r) \<noteq> 0 \<or> \<not> ok
        then Inr (Continue, ensure_entry (Seq r) s)
        else Inr (Fallthrough, mark_received r entry (ensure_entry (Seq r) s)))"
      using True entry ok assms by (simp add: on_result_def Let_def on_error_reply_Continue)
    show thesis
    proof (cases "State entry \<noteq> WAITING \<or> icmp_code (icmp r) \<noteq> 0 \<or> \<not> ok")
      case True
      then show thesis using \<open>State r = RECEIVED\<close> res by (intro ignored) simp_all
    next
      case False
      then show thesis using \<open>State r = RECEIVED\<close> res entry ok by (intro accepted) simp_all
    qed
  qed
qed

text \<open>Each operation on a state with the invariant.\<close>

lemma main_inv_mark_received:
  assumes "main_inv s" and "pingResults s (Seq r) = Some entry"
    and "check_icmp_packet (icmp r) (Some entry) = Inr True" and "\<not> blank (icmp r)"
  shows "main_inv (mark_received r entry s) \<and> sent_keys (mark_received r entry s) = sent_keys s"
proof -
  have e: "State entry = WAITING" "icmp_identifier (icmp r) = SendIdentifier entry"
    "icmp_data (icmp r) = SendData entry"
    using assms(3) by (simp_all add: check_icmp_packet_Some)
  have sent: "SendData entry \<noteq> []"
    using assms(1,2,4) e unfolding main_inv_def blank_def by metis
  then have k: "Seq r \<in> sent_keys s" using assms(2) by (simp add: sent_keys_iff)
  have "Seq r \<notin> keys_in st s" if "st \<noteq> WAITING" for st
    using keys_inD [OF assms(2)] e(1) that by simp
  then have "Seq r \<notin> keys_in RECEIVED s" "Seq r \<notin> keys_in TIMEOUT s" by simp_all
  then show ?thesis
    using assms(1) sent k
    by (auto simp: main_inv_def mark_received_def ping_sets insert_absorb split: if_splits)
qed

lemma main_inv_mark_sent:
  assumes "main_inv s" and "pingResults s (Seq r) = Some entry"
    and "Seq r \<notin> sent_keys s" and "SendData r \<noteq> []"
  shows "main_inv (mark_sent r entry s) \<and>
    sent_keys (mark_sent r entry s) = insert (Seq r) (sent_keys s)"
proof -
  have "Seq r \<notin> keys_in RECEIVED s" "Seq r \<notin> keys_in TIMEOUT s"
    using assms(1,3) by (auto simp: main_inv_def)
  then show ?thesis
    using assms by (auto simp: main_inv_def mark_sent_def ping_sets split: if_splits)
qed

lemma on_timeout_inv:
  assumes "main_inv s" and "of_nat i \<in> sent_keys s"
  shows "\<exists>s'. on_timeout i s = Inr (Fallthrough, s') \<and> main_inv s' \<and> sent_keys s' = sent_keys s"
proof -
  obtain r where r: "pingResults s (of_nat i) = Some r" "SendData r \<noteq> []"
    using assms(2) by (auto simp: sent_keys_def)
  show ?thesis
  proof (cases "State r = WAITING")
    case True
    then have "of_nat i \<notin> keys_in RECEIVED s" "of_nat i \<notin> keys_in TIMEOUT s"
      using keys_inD [OF r(1)] by simp_all
    then show ?thesis
      using assms r True
      by (auto simp: on_timeout_def main_inv_def ping_sets insert_absorb split: if_splits)
  qed (use assms r in \<open>simp add: on_timeout_def\<close>)
qed

text \<open>The records of written probes that wait in \<^verbatim>\<open>pingResultChan\<close>, by sequence number.\<close>

definition queued :: "PingResult list \<Rightarrow> u16 list" where
  "queued q = map Seq (filter (\<lambda>r. State r = WAITING) q)"

lemma queued_simps [simp]:
  "queued [] = []"
  "queued (r # q) = (if State r = WAITING then Seq r # queued q else queued q)"
  "queued (p @ q) = queued p @ queued q"
  by (simp_all add: queued_def)

definition result_ok :: "PingResult \<Rightarrow> bool" where
  "result_ok r \<longleftrightarrow> (State r = WAITING \<and> SendData r \<noteq> []) \<or>
     (State r = RECEIVED \<and> Seq r = icmp_seq (icmp r) \<and> \<not> blank (icmp r))"

definition sys_inv :: "ping_sys \<Rightarrow> bool" where
  "sys_inv y \<longleftrightarrow>
     main_inv (main_st y) \<and>
     (\<forall>r \<in> set (resultChan y). result_ok r) \<and>
     distinct (queued (resultChan y)) \<and>
     set (queued (resultChan y)) \<inter> sent_keys (main_st y) = {} \<and>
     set (queued (resultChan y)) \<union> sent_keys (main_st y) \<subseteq> of_nat ` {..<next_i y} \<and>
     of_nat ` (set (timers y) \<union> set (timeChan y)) \<subseteq>
       set (queued (resultChan y)) \<union> sent_keys (main_st y) \<and>
     (\<forall>p. status y \<noteq> Panicked p)"

text \<open>What the network may deliver: whole IPv4 headers, and no reply that the zero value accepts.\<close>

definition net_ok :: "(byte list \<Rightarrow> bool) \<Rightarrow> bool" where
  "net_ok net \<longleftrightarrow> (\<forall>p. net p \<longrightarrow> 20 \<le> length p \<and>
     (\<forall>ic. parse_icmp_packet (drop 20 (take 1500 p)) = Inr ic \<longrightarrow> \<not> blank ic))"

lemma read_reply_Some:
  assumes "read_reply packet now = Inr (Some r)"
  shows "State r = RECEIVED \<and> Seq r = icmp_seq (icmp r) \<and>
    parse_icmp_packet (drop 20 (take 1500 packet)) = Inr (icmp r)"
  using assms
  by (auto simp: read_reply_def zero_PingResult_def Let_def split: sum.splits if_splits)

lemma read_reply_total: "20 \<le> length packet \<Longrightarrow> read_reply packet now \<noteq> Inl p"
  by (auto simp: read_reply_def Let_def split: sum.splits)

lemma sent_result_fields [simp]:
  "State (sent_result ident i t d) = WAITING" "SendData (sent_result ident i t d) = d"
  "Seq (sent_result ident i t d) = of_nat i"
  by (simp_all add: sent_result_def)

lemma ping_payload_nonempty [simp]: "ping_payload t rnd n \<noteq> []"
  using length_ping_payload [of t rnd n] by auto

lemma of_nat_u16_notin:
  assumes "n < 65536"
  shows "(of_nat n :: u16) \<notin> of_nat ` {..<n}"
proof
  assume "(of_nat n :: u16) \<in> of_nat ` {..<n}"
  then obtain m where m: "m < n" "(of_nat n :: u16) = of_nat m" by auto
  then have "unat (of_nat n :: u16) = unat (of_nat m :: u16)" by simp
  then have "n = m" using assms m(1) by (simp add: unsigned_of_nat take_bit_nat_eq_self)
  with m(1) show False by simp
qed

lemma sys_inv_init: "sys_inv init_sys"
  by (simp add: sys_inv_def init_sys_def main_inv_init) (simp add: sent_keys_def init_main_def)

lemma main_iter_simps [simp]:
  "main_iter count (Inr (Continue, s)) y = y\<lparr> main_st := s \<rparr>"
  "main_iter count (Inr (Fallthrough, s)) y =
     y\<lparr> main_st := s, status := (if finished count s then Returned else Running) \<rparr>"
  by (simp_all add: main_iter_def)

lemma next_i_main_iter [simp]: "next_i (main_iter count res y) = next_i y"
  by (auto simp: main_iter_def split: sum.splits loop_ctl.splits)

lemma ping_step_next_i: "ping_step count ident net prompt y z \<Longrightarrow> next_i y \<le> next_i z"
  by (induction rule: ping_step.induct) auto

lemma sys_inv_take_result:
  assumes inv: "sys_inv y" and q: "resultChan y = r # rest" and run: "status y = Running"
  shows "sys_inv (main_iter count (on_result r (main_st y)) (y\<lparr> resultChan := rest \<rparr>))"
proof -
  let ?s = "ensure_entry (Seq r) (main_st y)"
  have ok: "result_ok r" using inv q by (simp add: sys_inv_def)
  have s: "main_inv ?s" "sent_keys ?s = sent_keys (main_st y)"
    using inv by (simp_all add: sys_inv_def main_inv_ensure_entry ping_sets)
  have seq: "State r = RECEIVED \<Longrightarrow> Seq r = icmp_seq (icmp r)"
    using ok by (auto simp: result_ok_def)
  show ?thesis
  proof (rule on_result_cases [OF seq, of "main_st y"], goal_cases)
    case ignored: 2
    then show ?case using inv q s by (auto simp: sys_inv_def)
  next
    case accepted: (3 entry)
    then have "\<not> blank (icmp r)" using ok by (auto simp: result_ok_def)
    note m = main_inv_mark_received [OF s(1) accepted(2,3) this]
    then show ?case using inv q s accepted by (auto simp: sys_inv_def)
  next
    case recorded: (4 entry)
    then have w: "State r = WAITING" "SendData r \<noteq> []" using ok by (auto simp: result_ok_def)
    then have "Seq r \<notin> sent_keys ?s" using inv q s by (auto simp: sys_inv_def)
    note m = main_inv_mark_sent [OF s(1) recorded(2) this w(2)]
    then show ?case using inv q s recorded w by (auto simp: sys_inv_def)
  qed
qed

lemma sys_inv_timers:
  assumes "sys_inv y" and "set ts \<union> set tc \<subseteq> set (timers y) \<union> set (timeChan y)"
  shows "sys_inv (y\<lparr> timers := ts, timeChan := tc \<rparr>)"
proof -
  have "(of_nat ` (set ts \<union> set tc) :: u16 set) \<subseteq> of_nat ` (set (timers y) \<union> set (timeChan y))"
    using assms(2) by (rule image_mono)
  then show ?thesis using assms(1) unfolding sys_inv_def
    by (simp del: Un_subset_iff) (elim conjE, rule subset_trans)
qed

lemma sys_inv_send:
  assumes inv: "sys_inv y" and n: "next_i y < 65536"
  shows "sys_inv (y\<lparr> next_i := Suc (next_i y),
    resultChan := resultChan y @ [sent_result ident (next_i y) now (ping_payload now rnd psize)],
    timers := next_i y # timers y \<rparr>)"
proof -
  have "of_nat (next_i y) \<notin> set (queued (resultChan y)) \<union> sent_keys (main_st y)"
    using inv of_nat_u16_notin [OF n] by (auto simp: sys_inv_def)
  then show ?thesis using inv by (auto simp: sys_inv_def result_ok_def lessThan_Suc)
qed

lemma sys_inv_take_time:
  assumes inv: "sys_inv y" and q: "timeChan y = i # rest" and run: "status y = Running"
    and prompt: "\<forall>r \<in> set (resultChan y). State r = WAITING \<longrightarrow> Seq r \<noteq> of_nat i"
  shows "sys_inv (main_iter count (on_timeout i (main_st y)) (y\<lparr> timeChan := rest \<rparr>))"
proof -
  have "of_nat i \<notin> set (queued (resultChan y))" using prompt by (auto simp: queued_def)
  then have "of_nat i \<in> sent_keys (main_st y)" using inv q by (auto simp: sys_inv_def)
  moreover have "main_inv (main_st y)" using inv by (simp add: sys_inv_def)
  ultimately obtain s' where "on_timeout i (main_st y) = Inr (Fallthrough, s')" "main_inv s'"
      "sent_keys s' = sent_keys (main_st y)"
    using on_timeout_inv by blast
  then show ?thesis using inv q by (auto simp: sys_inv_def)
qed

lemma ping_step_sys_inv:
  assumes "ping_step count ident net True y z" and "net_ok net" and "sys_inv y" and "next_i z \<le> 65536"
  shows "sys_inv z"
  using assms
proof (induction rule: ping_step.induct)
  case (send y now rnd psize)
  then show ?case using sys_inv_send [of y] by simp
next
  case (send_fails y)
  then show ?case by (auto simp: sys_inv_def lessThan_Suc)
next
  case (timer_fires y i)
  then show ?case
    using set_remove1_subset [of i "timers y"] by (intro sys_inv_timers) auto
next
  case (reply y packet now r)
  then have "result_ok r"
    using read_reply_Some [OF reply.hyps(3)] by (auto simp: result_ok_def net_ok_def)
  then show ?case using reply by (auto simp: sys_inv_def read_reply_Some)
next
  case (reply_panics y packet now p)
  then show ?case using read_reply_total by (auto simp: net_ok_def)
next
  case (take_time y i rest)
  then show ?case using sys_inv_take_time by simp
next
  case (take_result y r rest)
  then show ?case using sys_inv_take_result by simp
next
  case (interrupt y)
  then show ?case by (simp add: sys_inv_def)
qed

lemma ping_reachable_sys_inv:
  assumes "ping_reachable count ident net True y" and "net_ok net" and "next_i y \<le> 65536"
  shows "sys_inv y"
  using assms
proof (induction rule: ping_reachable.induct)
  case start
  show ?case by (rule sys_inv_init)
next
  case (step y z)
  have "next_i y \<le> 65536" using ping_step_next_i [OF step.hyps(2)] step.prems(2) by simp
  then have "sys_inv y" using step.IH step.prems(1) by simp
  with step show ?case by (blast intro: ping_step_sys_inv)
qed

section \<open>The statistics\<close>

text \<open>
  The deferred function that prints the statistics: when a reply was received, the loop over
  \<^verbatim>\<open>i < sended\<close> reads \<^verbatim>\<open>pingResults[uint16(i)]\<close>, a nil pointer for an unknown sequence number, and
  collects the round-trip times, here in nanoseconds, from which the minimum, the average, the
  maximum and the deviation are computed in floating point.
\<close>

fun rtt_loop :: "ping_main \<Rightarrow> nat list \<Rightarrow> go_panic + int list" where
  "rtt_loop s [] = Inr []"
| "rtt_loop s (i # is) =
     (case pingResults s (of_nat i) of
        None \<Rightarrow> Inl NilDeref
      | Some r \<Rightarrow>
          (case rtt_loop s is of
             Inl p \<Rightarrow> Inl p
           | Inr ts \<Rightarrow> Inr (if State r = RECEIVED then (ReceiveTime r - SendTime r) # ts else ts)))"

definition rtt_samples :: "ping_main \<Rightarrow> go_panic + int list" where
  "rtt_samples s = (if received s \<noteq> 0 then rtt_loop s [0..<nat (sended s)] else Inr [])"

lemmas [go_eval] = rtt_samples_def

lemma rtt_loop_total:
  assumes "\<forall>i \<in> set is. pingResults s (of_nat i) \<noteq> None"
  shows "\<exists>ts. rtt_loop s is = Inr ts \<and>
    length ts = length (filter (\<lambda>i. of_nat i \<in> keys_in RECEIVED s) is)"
  using assms
proof (induction "is")
  case (Cons i "is")
  then show ?case by (auto simp: keys_in_def)
qed simp

lemma rtt_loop_missing:
  assumes "i \<in> set is" and "pingResults s (of_nat i) = None"
  shows "rtt_loop s is = Inl NilDeref"
  using assms by (induction "is") (auto split: option.splits sum.splits)

section \<open>A concrete run\<close>

text \<open>One probe with an all-zero payload, its reply, and both results taken.\<close>

definition demo_reply :: "byte list" where
  "demo_reply = replicate 20 0 @ [0, 0, 0xFF, 0xF8, 0, 7, 0, 0] @ replicate 8 0"

definition demo_net :: "byte list \<Rightarrow> bool" where
  "demo_net p \<longleftrightarrow> p = demo_reply"

definition demo_probe :: PingResult where
  "demo_probe = sent_result 7 0 0 (ping_payload 0 (\<lambda>_. 0) 0)"

definition demo_result :: PingResult where
  "demo_result = zero_PingResult\<lparr> State := RECEIVED, IP := IPv4 0 0 0 0, Size := 16, ReceiveTime := 5,
     icmp := \<lparr> icmp_type = 0, icmp_code = 0, icmp_checksum = 0xFFF8, icmp_identifier = 7,
       icmp_seq = 0, icmp_data = replicate 8 0 \<rparr> \<rparr>"

definition demo_queued :: ping_sys where
  "demo_queued = init_sys\<lparr> next_i := 1, resultChan := [demo_probe, demo_result], timers := [0] \<rparr>"

definition demo_end :: ping_sys where
  "demo_end = (let y = main_iter 1 (on_result demo_probe (main_st demo_queued))
       (demo_queued\<lparr> resultChan := [demo_result] \<rparr>)
     in main_iter 1 (on_result demo_result (main_st y)) (y\<lparr> resultChan := [] \<rparr>))"

lemmas demo_defs = demo_reply_def demo_probe_def demo_result_def demo_queued_def demo_end_def

lemma demo_reply_read: "read_reply demo_reply 5 = Inr (Some demo_result)"
  by code_simp

lemma demo_reachable: "ping_reachable 1 7 demo_net True demo_queued"
proof -
  let ?y = "init_sys\<lparr> next_i := 1, resultChan := [demo_probe], timers := [0] \<rparr>"
  have "ping_step 1 7 demo_net True init_sys ?y"
    using ping_step.send [of init_sys 1 7 demo_net True 0 "\<lambda>_. 0" 0]
    by (simp add: init_sys_def demo_probe_def)
  moreover have "ping_step 1 7 demo_net True ?y demo_queued"
    using ping_step.reply [of ?y demo_net demo_reply 5 demo_result 1 7 True]
    by (simp add: init_sys_def demo_queued_def demo_net_def demo_reply_read)
  ultimately show ?thesis by (blast intro: ping_reachable.intros)
qed

lemma demo_end_values:
  "next_i demo_end = 1" "sended (main_st demo_end) = 1" "received (main_st demo_end) = 1"
  "loss (main_st demo_end) = 0" "status demo_end = Returned"
  by code_simp+

lemma demo_end_reachable: "ping_reachable 1 7 demo_net True demo_end"
proof -
  define y where "y = main_iter 1 (on_result demo_probe (main_st demo_queued))
      (demo_queued\<lparr> resultChan := [demo_result] \<rparr>)"
  have st: "status demo_queued = Running" "resultChan demo_queued = [demo_probe, demo_result]"
    by (simp_all add: demo_queued_def init_sys_def)
  have "status y = Running" unfolding y_def by code_simp
  moreover have "resultChan y = [demo_result]" unfolding y_def by code_simp
  moreover have "ping_step 1 7 demo_net True demo_queued y"
    using ping_step.take_result [OF st] by (simp add: y_def)
  moreover have "demo_end = main_iter 1 (on_result demo_result (main_st y)) (y\<lparr> resultChan := [] \<rparr>)"
    by (simp add: demo_end_def y_def Let_def)
  ultimately show ?thesis
    using demo_reachable ping_step.take_result [of y demo_result "[]"]
    by (metis ping_reachable.step)
qed

lemma demo_net_ok: "net_ok demo_net"
proof -
  have "20 \<le> length demo_reply" by code_simp
  moreover have "parse_icmp_packet (drop 20 (take 1500 demo_reply)) = Inr (icmp demo_result)"
    using demo_reply_read read_reply_Some by blast
  moreover have "\<not> blank (icmp demo_result)" by (simp add: blank_def demo_result_def)
  ultimately show ?thesis by (simp add: net_ok_def demo_net_def)
qed

section \<open>No operation stores the state ERROR\<close>

lemma on_timeout_no_error:
  "on_timeout i s = Inr (c, s') \<Longrightarrow> keys_in ERROR s = {} \<Longrightarrow> keys_in ERROR s' = {}"
  by (auto simp: on_timeout_def ping_sets split: option.splits if_splits)

lemma on_result_no_error:
  assumes "on_result r s = Inr (c, s')" and "keys_in ERROR s = {}"
  shows "keys_in ERROR s' = {}"
proof -
  have "keys_in ERROR (ensure_entry (Seq r) s) = {}"
    using assms(2) by (simp add: ensure_entry_def ping_sets zero_PingResult_def)
  then show ?thesis using assms(1)
    by (auto simp: on_result_def on_error_reply_Continue mark_received_def mark_sent_def ping_sets
        Let_def split: option.splits if_splits sum.splits)
qed

lemma main_iter_no_error:
  assumes "\<And>c s'. res = Inr (c, s') \<Longrightarrow> keys_in ERROR s' = {}" and "keys_in ERROR (main_st y) = {}"
  shows "keys_in ERROR (main_st (main_iter count res y)) = {}"
  using assms by (auto simp: main_iter_def split: sum.splits loop_ctl.splits)

section \<open>Properties\<close>

text \<open>C17: a genuine echo reply is accepted: when the probe's record is still \<open>WAITING\<close>, the reader
  and the acceptance test together accept the datagram that holds an IPv4 header and the echo reply
  of a conforming host to the packet \<open>build_icmp_packet\<close> made, and the result carries the probe's
  sequence number, the header's TTL and source address and the ICMP size.\<close>

theorem echo_reply_accepted:
  assumes "length hdr = 20" and "20 + (8 + length (SendData r)) \<le> 1500"
    and "State r = WAITING"
    and "answer = icmp_octets 0 0 (checksum (icmp_octets 0 0 0 (SendIdentifier r) q (SendData r)))
      (SendIdentifier r) q (SendData r)"
  shows "\<exists>res. read_reply (hdr @ answer) now = Inr (Some res) \<and>
    check_icmp_packet (icmp res) (Some r) = Inr True \<and>
    Seq res = q \<and> TTL res = int (unat (hdr ! 8)) \<and>
    IP res = IPv4 (hdr ! 12) (hdr ! 13) (hdr ! 14) (hdr ! 15) \<and>
    Size res = 8 + int (length (SendData r))"
proof -
  have "take 1500 (hdr @ answer) = hdr @ answer" using assms(1,2,4) by simp
  then show ?thesis
    using assms
    by (simp add: read_reply_def parse_icmp_octets parse_ip_header_def Let_def
        check_icmp_packet_Some zero_PingResult_def)
qed

theorem echo_reply_accepted_witness:
  "\<exists>res. read_reply (replicate 20 9 @
      icmp_octets 0 0 (checksum (icmp_octets 0 0 0 7 3 [1, 2])) 7 3 [1, 2]) 5 = Inr (Some res) \<and>
    check_icmp_packet (icmp res)
      (Some (zero_PingResult\<lparr> SendIdentifier := 7, SendData := [1, 2] \<rparr>)) = Inr True \<and>
    Seq res = 3 \<and> TTL res = 9 \<and> IP res = IPv4 9 9 9 9 \<and> Size res = 10"
  using echo_reply_accepted [of "replicate 20 9"
      "zero_PingResult\<lparr> SendIdentifier := 7, SendData := [1, 2] \<rparr>" _ 3 5, OF _ _ _ refl]
  by (simp add: zero_PingResult_def)

text \<open>C1: the accounting of the whole program. In every reachable state, while fewer than 65537 probes
  have been tried and the time-out is longer than the queueing delay, and whatever replies a network
  without blank replies delivers in whatever order: nothing has panicked, \<open>sended\<close> counts the probes
  the loop knows, \<open>received\<close> and \<open>loss\<close> count those whose record says \<open>RECEIVED\<close> and \<open>TIMEOUT\<close>,
  no probe is counted twice and none is counted that was not sent.\<close>

theorem ping_accounting:
  assumes "ping_reachable count ident net True y" and "net_ok net" and "next_i y \<le> 65536"
  shows "sended (main_st y) = int (card (sent_keys (main_st y))) \<and>
    received (main_st y) = int (card (keys_in RECEIVED (main_st y))) \<and>
    loss (main_st y) = int (card (keys_in TIMEOUT (main_st y))) \<and>
    received (main_st y) + loss (main_st y) \<le> sended (main_st y) \<and>
    sended (main_st y) \<le> int (next_i y) \<and>
    (\<forall>p. status y \<noteq> Panicked p)"
proof -
  have inv: "sys_inv y" using assms by (rule ping_reachable_sys_inv)
  then have m: "main_inv (main_st y)" by (simp add: sys_inv_def)
  have "card (keys_in RECEIVED (main_st y)) + card (keys_in TIMEOUT (main_st y)) =
      card (keys_in RECEIVED (main_st y) \<union> keys_in TIMEOUT (main_st y))"
    by (rule card_Un_disjoint [symmetric]) (auto simp: keys_in_def)
  also have "\<dots> \<le> card (sent_keys (main_st y))"
    using m by (intro card_mono) (auto simp: main_inv_def)
  finally have "received (main_st y) + loss (main_st y) \<le> sended (main_st y)"
    using m by (simp add: main_inv_def)
  moreover have "card (sent_keys (main_st y)) \<le> card (of_nat ` {..<next_i y} :: u16 set)"
    using inv by (intro card_mono) (auto simp: sys_inv_def)
  then have "card (sent_keys (main_st y)) \<le> next_i y"
    using card_image_le [of "{..<next_i y}" "of_nat :: nat \<Rightarrow> u16"] by simp
  ultimately show ?thesis using m inv by (simp add: main_inv_def sys_inv_def)
qed

theorem ping_accounting_witness:
  "received (main_st demo_end) = 1 \<and>
    received (main_st demo_end) = int (card (keys_in RECEIVED (main_st demo_end))) \<and>
    sended (main_st demo_end) = int (card (sent_keys (main_st demo_end)))"
  using ping_accounting [OF demo_end_reachable demo_net_ok] by (simp add: demo_end_values)

text \<open>When the loop's termination test holds, every probe the loop knows has been answered or has
  timed out, and there are \<open>count\<close> of them.\<close>

lemma finished_means_resolved:
  assumes "ping_reachable count ident net True y" and "net_ok net" and "next_i y \<le> 65536"
    and "finished count (main_st y)"
  shows "sent_keys (main_st y) \<inter> keys_in WAITING (main_st y) = {} \<and>
    int (card (sent_keys (main_st y))) = count"
proof -
  have m: "main_inv (main_st y)"
    using ping_reachable_sys_inv [OF assms(1-3)] by (simp add: sys_inv_def)
  let ?done = "keys_in RECEIVED (main_st y) \<union> keys_in TIMEOUT (main_st y)"
  have "card ?done = card (keys_in RECEIVED (main_st y)) + card (keys_in TIMEOUT (main_st y))"
    by (rule card_Un_disjoint) (auto simp: keys_in_def)
  then have "card ?done = card (sent_keys (main_st y))"
    using m assms(4) by (simp add: main_inv_def finished_def)
  moreover have "?done \<subseteq> sent_keys (main_st y)" using m by (simp add: main_inv_def)
  ultimately have "?done = sent_keys (main_st y)" by (intro card_subset_eq) simp_all
  moreover have "?done \<inter> keys_in WAITING (main_st y) = {}" by (auto simp: keys_in_def)
  ultimately have "sent_keys (main_st y) \<inter> keys_in WAITING (main_st y) = {}" by simp
  then show ?thesis using m assms(4) by (simp add: main_inv_def finished_def)
qed

lemma finished_means_resolved_witness:
  "finished 1 (main_st demo_end) \<and>
    sent_keys (main_st demo_end) \<inter> keys_in WAITING (main_st demo_end) = {} \<and>
    int (card (sent_keys (main_st demo_end))) = 1"
  using finished_means_resolved [OF demo_end_reachable demo_net_ok]
  by (simp add: demo_end_values finished_def)

text \<open>No ICMP error is ever recorded: in every run, whatever the network delivers, no entry of
  \<^verbatim>\<open>pingResults\<close> has the state \<open>ERROR\<close>. The length test of the error branch leaves no bytes for the
  inner parse, so the branch always ends in \<^verbatim>\<open>continue\<close> and its messages are never printed.\<close>

lemma error_state_unreachable:
  assumes "ping_reachable count ident net prompt y"
  shows "keys_in ERROR (main_st y) = {}"
  using assms
proof (induction rule: ping_reachable.induct)
  case start
  show ?case by (simp add: init_sys_def init_main_def keys_in_def)
next
  case (step y z)
  from step.hyps(2) step.IH show ?case
    by (induction rule: ping_step.induct)
      (auto simp: on_result_no_error on_timeout_no_error main_iter_no_error)
qed

lemma error_state_unreachable_witness:
  "ping_reachable 1 7 demo_net True demo_end \<and> keys_in ERROR (main_st demo_end) = {}"
  using demo_end_reachable error_state_unreachable [OF demo_end_reachable] by simp

text \<open>A time-out taken before its probe's record is a nil dereference. The two channels of the
  \<^verbatim>\<open>select\<close> are served in any order, so whenever the loop may send, a run without the promptness
  assumption panics after sending one probe.\<close>

lemma timeout_before_record_panics:
  assumes "count = -1 \<or> 0 < count"
  shows "\<exists>y. ping_reachable count ident net False y \<and> status y = Panicked NilDeref"
proof -
  let ?r = "sent_result ident 0 0 (ping_payload 0 (\<lambda>_. 0) 0)"
  let ?y1 = "init_sys\<lparr> next_i := 1, resultChan := [?r], timers := [0] \<rparr>"
  let ?y2 = "init_sys\<lparr> next_i := 1, resultChan := [?r], timeChan := [0] \<rparr>"
  let ?y3 = "init_sys\<lparr> next_i := 1, resultChan := [?r], status := Panicked NilDeref \<rparr>"
  have "ping_step count ident net False init_sys ?y1"
    using ping_step.send [of init_sys count ident net False 0 "\<lambda>_. 0" 0] assms
    by (simp add: init_sys_def)
  moreover have "ping_step count ident net False ?y1 ?y2"
    using ping_step.timer_fires [of ?y1 0 count ident net False] by (simp add: init_sys_def)
  moreover have "ping_step count ident net False ?y2 ?y3"
    using ping_step.take_time [of ?y2 0 "[]" False count ident net]
    by (simp add: init_sys_def init_main_def on_timeout_def main_iter_def)
  ultimately have "ping_reachable count ident net False ?y3"
    by (blast intro: ping_reachable.intros)
  then show ?thesis by (intro exI [of _ ?y3]) simp
qed

lemma timeout_before_record_panics_witness:
  "\<exists>y. ping_reachable 4 7 demo_net False y \<and> status y = Panicked NilDeref"
  by (rule timeout_before_record_panics) simp

text \<open>A reply that nobody asked for can be counted. An echo reply with identifier 0 and no data
  matches the zero entry that the loop makes for an unknown sequence number, so a run in which
  nothing was sent reports a reply received, under every \<open>ident\<close> and \<open>count\<close>.\<close>

lemma blank_reply_is_counted:
  "\<exists>y. ping_reachable count ident (\<lambda>_. True) True y \<and> received (main_st y) = 1 \<and>
     sended (main_st y) = 0"
proof -
  let ?p = "replicate 20 0 @ [0, 0, 0xFF, 0xFF, 0, 0, 0, 0]"
  define r where "r = zero_PingResult\<lparr> State := RECEIVED, IP := IPv4 0 0 0 0, Size := 8,
      icmp := zero_ICMP\<lparr> icmp_checksum := 0xFFFF \<rparr> \<rparr>"
  have read: "read_reply ?p 0 = Inr (Some r)" unfolding r_def by code_simp
  let ?y1 = "init_sys\<lparr> resultChan := [r] \<rparr>"
  have 1: "ping_step count ident (\<lambda>_. True) True init_sys ?y1"
    using ping_step.reply [of init_sys "\<lambda>_. True" ?p 0 r count ident True] read
    by (simp add: init_sys_def)
  define s where "s = mark_received r zero_PingResult (ensure_entry 0 init_main)"
  have chk: "check_icmp_packet (icmp r) (Some zero_PingResult) = Inr True"
    unfolding r_def by code_simp
  have res: "on_result r init_main = Inr (Fallthrough, s)"
    using chk by (simp add: on_result_def s_def ensure_entry_def set_result_def init_main_def r_def
        zero_PingResult_def zero_ICMP_def)
  have "ping_step count ident (\<lambda>_. True) True ?y1
      (main_iter count (on_result r (main_st ?y1)) (?y1\<lparr> resultChan := [] \<rparr>))"
    by (rule ping_step.take_result) (simp_all add: init_sys_def)
  with 1 have "ping_reachable count ident (\<lambda>_. True) True
      (main_iter count (on_result r (main_st ?y1)) (?y1\<lparr> resultChan := [] \<rparr>))"
    by (blast intro: ping_reachable.intros)
  moreover have "main_st (main_iter count (on_result r (main_st ?y1)) (?y1\<lparr> resultChan := [] \<rparr>)) = s"
    by (simp add: init_sys_def res)
  moreover have "received s = 1 \<and> sended s = 0"
    by (simp add: s_def mark_received_def ensure_entry_def ping_sets init_main_def)
  ultimately show ?thesis by metis
qed

text \<open>The statistics. When the sequence numbers below \<open>sended\<close> are all known, which is so when
  no write failed, the printing loop dereferences no nil pointer and collects one round-trip time for
  each of them that was answered; when a failed write left a gap below \<open>sended\<close> and some reply was
  received, it panics.\<close>

lemma rtt_samples_outcome:
  assumes "received s \<noteq> 0"
  shows "if \<forall>i < nat (sended s). pingResults s (of_nat i) \<noteq> None
    then (\<exists>ts. rtt_samples s = Inr ts \<and>
      length ts = length (filter (\<lambda>i. of_nat i \<in> keys_in RECEIVED s) [0..<nat (sended s)]))
    else rtt_samples s = Inl NilDeref"
proof (cases "\<forall>i < nat (sended s). pingResults s (of_nat i) \<noteq> None")
  case True
  then show ?thesis
    using rtt_loop_total [of "[0..<nat (sended s)]" s] assms by (simp add: rtt_samples_def)
next
  case False
  then have "rtt_samples s = Inl NilDeref"
    using assms by (auto simp: rtt_samples_def intro: rtt_loop_missing)
  with False show ?thesis by simp
qed

lemma rtt_samples_outcome_witness:
  "(\<exists>ts. rtt_samples (main_st demo_end) = Inr ts) \<and>
    rtt_samples (init_main\<lparr> sended := 1, received := 1 \<rparr>) = Inl NilDeref"
proof
  have "received (main_st demo_end) \<noteq> 0" by (simp add: demo_end_values)
  moreover have "pingResults (main_st demo_end) 0 \<noteq> None" by code_simp
  ultimately show "\<exists>ts. rtt_samples (main_st demo_end) = Inr ts"
    using rtt_samples_outcome [of "main_st demo_end"] by (auto simp: demo_end_values)
next
  let ?s = "init_main\<lparr> sended := 1, received := 1 \<rparr>"
  have "received ?s \<noteq> 0" "\<not> (\<forall>i < nat (sended ?s). pingResults ?s (of_nat i) \<noteq> None)"
    by (auto simp: init_main_def)
  then show "rtt_samples ?s = Inl NilDeref" using rtt_samples_outcome [of ?s] by simp
qed

end
