(* ===== verification/PingStats.thy ===== *)
theory PingStats
  imports Complex_Main Ping
begin

text \<open>
  The rest of \<^verbatim>\<open>code/ping/main.go\<close>: the setup of the program, what its time-outs become, and the
  statistics that the deferred function prints. Go's \<^verbatim>\<open>float64\<close> values are exact fractions here; the
  deviation that is printed is the square root of \<open>variance\<close>.
\<close>

section \<open>Setup\<close>

record ping_flags =
  pf_count :: int
  pf_interval :: rat
  pf_size :: int
  pf_timeout :: rat
  pf_host :: string

text \<open>
  \<open>ListenIP\<close>: whether the raw socket could be opened; \<open>ResolveIPAddr\<close>: the address of the host. Its error is not
  looked at: the address is nil then, prints as such, and every write to it fails.
\<close>

record ping_env =
  ListenIP :: bool
  ResolveIPAddr :: "string \<Rightarrow> string option"

text \<open>A conversion of a float to an integer cuts off the fraction; what it gives out of range is left open by Go.\<close>

definition trunc :: "rat \<Rightarrow> int" where
  "trunc x = (if x < 0 then \<lceil>x\<rceil> else \<lfloor>x\<rfloor>)"

definition Second :: int where
  "Second = 1000000000"

text \<open>The ticker's interval, the timer of a probe and the read deadline's distance, in nanoseconds.\<close>

definition ticker_span :: "rat \<Rightarrow> int" where
  "ticker_span interval = trunc (interval * of_int Second)"

definition timer_span :: "rat \<Rightarrow> int" where
  "timer_span timeout = trunc (timeout * of_int Second)"

definition read_span :: "rat \<Rightarrow> int" where
  "read_span timeout = i64 (trunc timeout * Second)"

record ping_setup =
  raddr :: "string option"
  ticker :: int
  probe_timer :: int
  read_deadline :: int

datatype setup_panic = ListenPanic | TickerPanic

text \<open>\<^verbatim>\<open>time.NewTicker\<close> panics on an interval that is not positive.\<close>

definition main_setup :: "ping_env \<Rightarrow> ping_flags \<Rightarrow> setup_panic + ping_setup" where
  "main_setup env f =
     (if \<not> ListenIP env then Inl ListenPanic
      else if ticker_span (pf_interval f) \<le> 0 then Inl TickerPanic
      else Inr \<lparr> raddr = ResolveIPAddr env (pf_host f), ticker = ticker_span (pf_interval f),
             probe_timer = timer_span (pf_timeout f), read_deadline = read_span (pf_timeout f) \<rparr>)"

text \<open>A read whose deadline is not in the future returns no packet.\<close>

definition readable :: "ping_setup \<Rightarrow> (byte list \<Rightarrow> bool) \<Rightarrow> byte list \<Rightarrow> bool" where
  "readable su net p \<longleftrightarrow> 0 < read_deadline su \<and> net p"

section \<open>Statistics\<close>

text \<open>The loop's variables \<^verbatim>\<open>minTime\<close>, \<^verbatim>\<open>maxTime\<close>, \<^verbatim>\<open>sumTime\<close> and \<^verbatim>\<open>sum2Time\<close>, in milliseconds.\<close>

record rtt_stats =
  minTime :: rat
  maxTime :: rat
  sumTime :: rat
  sum2Time :: rat

definition init_stats :: "rat \<Rightarrow> rtt_stats" where
  "init_stats timeout = \<lparr> minTime = timeout * 1000, maxTime = 0, sumTime = 0, sum2Time = 0 \<rparr>"

definition stats_step :: "rtt_stats \<Rightarrow> rat \<Rightarrow> rtt_stats" where
  "stats_step s t =
     (let s = (if t < minTime s then s\<lparr> minTime := t \<rparr> else s);
          s = (if maxTime s < t then s\<lparr> maxTime := t \<rparr> else s)
      in s\<lparr> sumTime := sumTime s + t, sum2Time := sum2Time s + t * t \<rparr>)"

definition milliseconds :: "int \<Rightarrow> rat" where
  "milliseconds d = of_int d / of_int Second * 1000"

record summary =
  sm_min :: rat
  sm_avg :: rat
  sm_max :: rat
  variance :: rat

definition summarise :: "rat \<Rightarrow> int \<Rightarrow> int list \<Rightarrow> summary" where
  "summarise timeout answered ts =
     (let s = foldl stats_step (init_stats timeout) (map milliseconds ts); n = of_int answered in
      \<lparr> sm_min = minTime s, sm_avg = sumTime s / n, sm_max = maxTime s,
        variance = sum2Time s / n - (sumTime s / n) * (sumTime s / n) \<rparr>)"

definition loss_percent :: "ping_main \<Rightarrow> rat" where
  "loss_percent s = of_int (sended s - received s) / of_int (sended s) * 100"

text \<open>The deferred function: nothing but the loss when no reply was received.\<close>

definition final_statistics :: "rat \<Rightarrow> ping_main \<Rightarrow> go_panic + (int \<times> int \<times> rat) \<times> summary option" where
  "final_statistics timeout s =
     (let counts = (sended s, received s, loss_percent s) in
      if received s = 0 then Inr (counts, None)
      else (case rtt_samples s of
          Inl p \<Rightarrow> Inl p
        | Inr ts \<Rightarrow> Inr (counts, Some (summarise timeout (received s) ts))))"

lemmas [go_eval] = trunc_def Second_def ticker_span_def timer_span_def read_span_def main_setup_def readable_def
  init_stats_def stats_step_def milliseconds_def summarise_def loss_percent_def final_statistics_def

section \<open>Properties\<close>

lemma stats_fold:
  "foldl stats_step s ts = \<lparr> minTime = foldl min (minTime s) ts, maxTime = foldl max (maxTime s) ts,
     sumTime = sumTime s + sum_list ts, sum2Time = sum2Time s + sum_list (map (\<lambda>t. t * t) ts) \<rparr>"
  by (induction ts arbitrary: s) (auto simp: stats_step_def Let_def min_def max_def)

lemma foldl_min_max:
  fixes a :: rat
  shows "foldl min a ts = Min (set (a # ts))" and "foldl max a ts = Max (set (a # ts))"
proof -
  have "(\<lambda>x s :: rat. min s x) = min" "(\<lambda>x s :: rat. max s x) = max"
    by (auto simp: fun_eq_iff min_def max_def)
  then show "foldl min a ts = Min (set (a # ts))" "foldl max a ts = Max (set (a # ts))"
    unfolding Min.set_eq_fold Max.set_eq_fold foldl_conv_fold by simp_all
qed

text \<open>The one-pass formula of the variance and its definition.\<close>

lemma variance_one_pass:
  fixes ts :: "rat list"
  assumes "ts \<noteq> []" and "m = sum_list ts / of_nat (length ts)"
  shows "sum_list (map (\<lambda>t. t * t) ts) / of_nat (length ts) - m * m =
    sum_list (map (\<lambda>t. (t - m) * (t - m)) ts) / of_nat (length ts)"
proof -
  let ?n = "of_nat (length ts) :: rat"
  have "sum_list (map (\<lambda>t. (t - c) * (t - c)) xs) =
      sum_list (map (\<lambda>t. t * t) xs) - 2 * c * sum_list xs + of_nat (length xs) * (c * c)" for c and xs :: "rat list"
    by (induction xs) (simp_all add: algebra_simps)
  note sq = this [of m ts]
  have n: "?n \<noteq> 0" using assms(1) by simp
  then have "sum_list ts = m * ?n" using assms(2) by simp
  then show ?thesis using n unfolding sq by (simp add: field_simps)
qed

text \<open>C20: the statistics are what they are called: for round-trip times that are not negative and of which at
  least one is within the time-out, the minimum, the mean and the maximum that the loop computes in one pass are
  those of the samples, and what is put under the square root is their variance, the mean squared distance from the
  mean, which is never negative.\<close>

theorem statistics_exact:
  assumes "ts \<noteq> []" and "\<forall>t \<in> set ts. 0 \<le> t" and "\<exists>t \<in> set ts. milliseconds t \<le> timeout * 1000"
    and "xs = map milliseconds ts" and "answered = int (length ts)"
  shows "sm_min (summarise timeout answered ts) = Min (set xs) \<and> sm_max (summarise timeout answered ts) = Max (set xs) \<and>
    sm_avg (summarise timeout answered ts) = sum_list xs / of_nat (length xs) \<and>
    variance (summarise timeout answered ts) =
      sum_list (map (\<lambda>x. (x - sum_list xs / of_nat (length xs)) * (x - sum_list xs / of_nat (length xs))) xs) / of_nat (length xs) \<and>
    0 \<le> variance (summarise timeout answered ts)"
proof -
  have xs: "xs \<noteq> []" using assms(1,4) by simp
  have "Max (set xs) \<ge> 0"
    using assms(1,2,4) by (auto simp: Max_ge_iff milliseconds_def Second_def intro!: list.set_sel(1) [of ts])
  then have mx: "foldl max 0 xs = Max (set xs)" using xs by (simp add: foldl_min_max max_def)
  have "Min (set xs) \<le> timeout * 1000" using assms(3,4) xs by (auto simp: Min_le_iff)
  then have mn: "foldl min (timeout * 1000) xs = Min (set xs)" using xs by (simp add: foldl_min_max min.absorb2)
  have n: "of_int answered = (of_nat (length xs) :: rat)" by (simp add: assms(4,5))
  note v = variance_one_pass [OF xs refl]
  have "0 \<le> sum_list (map (\<lambda>x. (x - m) * (x - m)) xs)" for m :: rat
    by (rule sum_list_nonneg) auto
  then have "0 \<le> sum_list (map (\<lambda>x. (x - m) * (x - m)) xs) / of_nat (length xs)" for m :: rat
    by simp
  moreover have "summarise timeout answered ts = \<lparr> sm_min = Min (set xs), sm_avg = sum_list xs / of_nat (length xs),
      sm_max = Max (set xs), variance = sum_list (map (\<lambda>x. (x - sum_list xs / of_nat (length xs)) *
        (x - sum_list xs / of_nat (length xs))) xs) / of_nat (length xs) \<rparr>"
    by (simp only: summarise_def Let_def assms(4) [symmetric] stats_fold init_stats_def rtt_stats.simps mx mn n add_0 v)
  ultimately show ?thesis by simp
qed

theorem statistics_exact_witness:
  "variance (summarise 1 3 [1000000, 2000000, 3000000]) = 2 / 3"
  using statistics_exact [of "[1000000, 2000000, 3000000]" 1 _ 3, OF _ _ _ refl]
  by (simp add: milliseconds_def Second_def)

section \<open>Probes that could not be written\<close>

text \<open>The sequence numbers of the probes that were written: recorded, or on their way to the main loop.\<close>

definition written :: "ping_sys \<Rightarrow> u16 set" where
  "written y = set (queued (resultChan y)) \<union> sent_keys (main_st y)"

lemma sent_keys_on_result:
  assumes "sys_inv y" and "resultChan y = r # rest"
  shows "set (queued rest) \<union> sent_keys (main_st (main_iter count (on_result r (main_st y)) (y\<lparr> resultChan := rest \<rparr>))) \<subseteq> written y"
proof -
  have inv: "main_inv (main_st y)" and ok: "result_ok r" and fresh: "State r = WAITING \<Longrightarrow> Seq r \<notin> sent_keys (main_st y)"
    using assms by (auto simp: sys_inv_def)
  have seq: "State r = RECEIVED \<Longrightarrow> Seq r = icmp_seq (icmp r)" using ok by (auto simp: result_ok_def)
  have e: "main_inv (ensure_entry (Seq r) (main_st y))" "sent_keys (ensure_entry (Seq r) (main_st y)) = sent_keys (main_st y)"
    using inv by (simp_all add: main_inv_ensure_entry ping_sets)
  show ?thesis
  proof (rule on_result_cases [OF seq, of "main_st y"], goal_cases)
    case ignored: 2
    then show ?case using e assms(2) by (auto simp: written_def)
  next
    case (3 entry)
    then have "\<not> blank (icmp r)" using ok by (auto simp: result_ok_def)
    note main_inv_mark_received [OF e(1) 3(2,3) this]
    then show ?case using 3 e assms(2) by (auto simp: written_def)
  next
    case (4 entry)
    then have w: "State r = WAITING" "SendData r \<noteq> []" using ok by (auto simp: result_ok_def)
    then have "Seq r \<notin> sent_keys (ensure_entry (Seq r) (main_st y))" using fresh e by simp
    note main_inv_mark_sent [OF e(1) 4(2) this w(2)]
    then show ?case using 4 e assms(2) w by (auto simp: written_def)
  qed simp
qed

lemma written_step:
  assumes "ping_step count ident net True y z" and "sys_inv y"
  shows "written z \<subseteq> written y \<union> (if next_i z = next_i y then {} else {of_nat (next_i y)})"
  using assms
proof (induction rule: ping_step.induct)
  case (reply y packet now r)
  then show ?case using read_reply_Some [OF reply.hyps(3)] by (auto simp: written_def)
next
  case (take_time y i rest)
  have "of_nat i \<notin> set (queued (resultChan y))" using take_time.hyps(3) by (auto simp: queued_def)
  then have "of_nat i \<in> sent_keys (main_st y)" using take_time.prems take_time.hyps(2) by (auto simp: sys_inv_def)
  moreover have "main_inv (main_st y)" using take_time.prems by (simp add: sys_inv_def)
  ultimately obtain s' where "on_timeout i (main_st y) = Inr (Fallthrough, s')" "sent_keys s' = sent_keys (main_st y)"
    using on_timeout_inv by blast
  then show ?case by (simp add: written_def)
next
  case (take_result y r rest)
  have "resultChan (main_iter count x (y\<lparr> resultChan := rest \<rparr>)) = rest" for x
    by (auto simp: main_iter_def split: sum.splits loop_ctl.splits)
  then show ?case using sent_keys_on_result [OF take_result.prems take_result.hyps(2), of count] by (simp add: written_def)
qed (auto simp: written_def)

text \<open>The runs in which the write of probe \<open>i\<close> fails.\<close>

inductive ping_without :: "nat \<Rightarrow> int \<Rightarrow> u16 \<Rightarrow> (byte list \<Rightarrow> bool) \<Rightarrow> ping_sys \<Rightarrow> bool"
  for i :: nat and count :: int and ident :: u16 and net :: "byte list \<Rightarrow> bool" where
  failed: "\<lbrakk> ping_reachable count ident net True y; status y = Running; count = -1 \<or> int i < count; next_i y = i \<rbrakk> \<Longrightarrow>
    ping_without i count ident net (y\<lparr> next_i := Suc i \<rparr>)"
| later: "\<lbrakk> ping_without i count ident net y; ping_step count ident net True y z \<rbrakk> \<Longrightarrow>
    ping_without i count ident net z"

lemma ping_without_reachable: "ping_without i count ident net y \<Longrightarrow> ping_reachable count ident net True y"
proof (induction rule: ping_without.induct)
  case (failed y)
  then show ?case using ping_step.send_fails [of y count ident net True] by (auto intro: ping_reachable.step)
qed (auto intro: ping_reachable.step)

lemma of_nat_u16_inj: "m < 65536 \<Longrightarrow> n < 65536 \<Longrightarrow> (of_nat m :: u16) = of_nat n \<longleftrightarrow> m = n"
  by (metis of_nat_u16_notin imageI lessThan_iff linorder_neqE_nat)

lemma ping_step_count:
  "ping_step count ident net prompt y z \<Longrightarrow> count = -1 \<or> int (next_i y) \<le> count \<Longrightarrow> count = -1 \<or> int (next_i z) \<le> count"
  by (induction rule: ping_step.induct) auto

lemma ping_without_inv:
  assumes "ping_without i count ident net y" and "net_ok net" and "next_i y \<le> 65536"
  shows "i < next_i y \<and> of_nat i \<notin> written y \<and> (count = -1 \<or> int (next_i y) \<le> count)"
  using assms
proof (induction rule: ping_without.induct)
  case (failed y)
  have "sys_inv y" using ping_reachable_sys_inv [OF failed.hyps(1)] failed.prems failed.hyps(4) by simp
  then have "written y \<subseteq> of_nat ` {..<i}" using failed.hyps(4) by (auto simp: sys_inv_def written_def)
  moreover have "of_nat i \<notin> (of_nat ` {..<i} :: u16 set)" using failed.prems(2) by (intro of_nat_u16_notin) simp
  ultimately show ?case using failed.hyps(3) by (auto simp: written_def)
next
  case (later y z)
  have n: "next_i y \<le> next_i z" "next_i y \<le> 65536"
    using ping_step_next_i [OF later.hyps(2)] later.prems(2) by simp_all
  note IH = later.IH [OF later.prems(1) n(2)]
  have "sys_inv y" using ping_without_reachable [OF later.hyps(1)] later.prems(1) n(2) by (rule ping_reachable_sys_inv)
  note w = written_step [OF later.hyps(2) this]
  have "of_nat (next_i y) \<noteq> (of_nat i :: u16)" if "next_i z \<noteq> next_i y"
    using that n later.prems(2) IH of_nat_u16_inj [of "next_i y" i] by simp
  then have "of_nat i \<notin> written z" using w IH by (auto split: if_splits)
  then show ?case using IH n(1) ping_step_count [OF later.hyps(2)] by simp
qed

text \<open>C16: one failed write and the program never finishes by itself: from the moment a probe could not be written, its
  number is never recorded, so fewer probes than \<^verbatim>\<open>count\<close> are ever known and the termination test fails for
  ever, whatever is answered; a host that cannot be resolved, whose nil address fails every write, is such a
  case. Only the interrupt ends the program.\<close>

theorem lost_write_never_finishes:
  assumes "ping_without i count ident net y" and "net_ok net" and "next_i y \<le> 65536"
  shows "\<not> finished count (main_st y) \<and> sended (main_st y) < int (next_i y)"
proof -
  have inv: "sys_inv y" using ping_without_reachable [OF assms(1)] assms(2,3) by (rule ping_reachable_sys_inv)
  note w = ping_without_inv [OF assms]
  have "sent_keys (main_st y) \<subseteq> of_nat ` ({..<next_i y} - {i})"
    using inv w by (auto simp: sys_inv_def written_def)
  then have "card (sent_keys (main_st y)) \<le> card ({..<next_i y} - {i})"
    by (meson card_image_le card_mono finite_Diff finite_imageI finite_lessThan le_trans)
  also have "\<dots> < next_i y" using w by simp
  finally have "sended (main_st y) < int (next_i y)" using inv by (simp add: sys_inv_def main_inv_def)
  then show ?thesis using w by (auto simp: finished_def)
qed

theorem lost_write_never_finishes_witness:
  "\<not> finished 1 (main_st (init_sys\<lparr> next_i := 1 \<rparr>))"
proof -
  have "ping_without 0 1 7 demo_net (init_sys\<lparr> next_i := Suc 0 \<rparr>)"
    using ping_without.failed [OF ping_reachable.start, of 1 0 7 demo_net] by (simp add: init_sys_def)
  from lost_write_never_finishes [OF this demo_net_ok] show ?thesis by simp
qed

section \<open>Time-outs below a second\<close>

lemma unread_nothing_received:
  assumes "ping_reachable count ident net prompt y" and "\<forall>p. \<not> net p"
  shows "received (main_st y) = 0 \<and> (\<forall>r \<in> set (resultChan y). State r = WAITING)"
  using assms(1)
proof (induction rule: ping_reachable.induct)
  case start
  show ?case by (simp add: init_sys_def init_main_def)
next
  case (step y z)
  have iter: "received (main_st (main_iter count res u)) = 0 \<and> resultChan (main_iter count res u) = resultChan u"
    if "received (main_st u) = 0" "\<And>c s. res = Inr (c, s) \<Longrightarrow> received s = 0" for res u
    using that by (auto simp: main_iter_def split: sum.splits loop_ctl.splits)
  from step.hyps(2) step.IH assms(2) show ?case
  proof (induction rule: ping_step.induct)
    case (take_time y i rest)
    then show ?case using iter [of "y\<lparr> timeChan := rest \<rparr>" "on_timeout i (main_st y)"]
      by (auto simp: on_timeout_def set_result_def split: option.splits if_splits)
  next
    case (take_result y r rest)
    have "received s = 0" if "on_result r (main_st y) = Inr (c, s)" for c s
      using that take_result.prems take_result.hyps(2)
      by (auto simp: on_result_def mark_sent_def ensure_entry_def set_result_def Let_def split: option.splits if_splits)
    then show ?case using iter [of "y\<lparr> resultChan := rest \<rparr>" "on_result r (main_st y)"] take_result
      by auto
  qed auto
qed

text \<open>C40: a time-out below a second disables ping: the read deadline is computed from the time-out cut to whole
  seconds, so with \<^verbatim>\<open>-t 0.5\<close> it has always passed before the read, no reply is ever read in any run, whatever the
  network delivers, and the summary reports a loss of every packet that was sent.\<close>

theorem subsecond_timeout_loses_all:
  assumes "main_setup env f = Inr su" and "0 \<le> pf_timeout f" and "pf_timeout f < 1"
    and "ping_reachable count ident (readable su net) prompt y"
  shows "received (main_st y) = 0 \<and>
    (sended (main_st y) \<noteq> 0 \<longrightarrow> final_statistics (pf_timeout f) (main_st y) = Inr ((sended (main_st y), 0, 100), None))"
proof -
  have "trunc (pf_timeout f) = 0" using assms(2,3) by (auto simp: trunc_def floor_eq_iff)
  then have "read_deadline su = 0" using assms(1) by (auto simp: main_setup_def read_span_def split: if_splits)
  then have "\<forall>p. \<not> readable su net p" by (simp add: readable_def)
  from unread_nothing_received [OF assms(4) this] show ?thesis
    by (auto simp: final_statistics_def loss_percent_def)
qed

definition demo_flags :: ping_flags where
  "demo_flags = \<lparr> pf_count = 1, pf_interval = 1, pf_size = 56, pf_timeout = 1 / 2, pf_host = ''h'' \<rparr>"

theorem subsecond_timeout_loses_all_witness:
  "\<exists>su y. main_setup \<lparr> ListenIP = True, ResolveIPAddr = Some \<rparr> demo_flags = Inr su \<and>
     ping_reachable 1 7 (readable su demo_net) True y \<and>
     final_statistics (pf_timeout demo_flags) (main_st y) = Inr ((1, 0, 100), None)"
proof -
  obtain su where su: "main_setup \<lparr> ListenIP = True, ResolveIPAddr = Some \<rparr> demo_flags = Inr su"
    by (simp add: main_setup_def demo_flags_def ticker_span_def trunc_def Second_def)
  let ?net = "readable su demo_net"
  let ?y = "init_sys\<lparr> next_i := 1, resultChan := [demo_probe], timers := [0] \<rparr>"
  define z where "z = main_iter 1 (on_result demo_probe (main_st ?y)) (?y\<lparr> resultChan := [] \<rparr>)"
  have "ping_step 1 7 ?net True init_sys ?y"
    using ping_step.send [of init_sys 1 7 ?net True 0 "\<lambda>_. 0" 0] by (simp add: init_sys_def demo_probe_def)
  moreover have "ping_step 1 7 ?net True ?y z"
    using ping_step.take_result [of ?y demo_probe "[]" 1 7 ?net True] by (simp add: z_def init_sys_def)
  ultimately have reach: "ping_reachable 1 7 ?net True z" by (blast intro: ping_reachable.intros)
  moreover have "sended (main_st z) = 1" unfolding z_def by code_simp
  ultimately show ?thesis
    using subsecond_timeout_loses_all [OF su _ _ reach] su
    by (intro exI [of _ su] exI [of _ z]) (simp add: demo_flags_def)
qed

end
