(* ===== verification/Traceroute.thy ===== *)
theory Traceroute
  imports Packet
begin

text \<open>
  The program \<^verbatim>\<open>code/traceroute/main.go\<close>: the parsers that differ from ping's, the payload, what
  the reading goroutine of a hop makes of a packet, the sending loop, the collection loop of a hop and
  the loop over the hops. \<^verbatim>\<open>checksum\<close>, \<^verbatim>\<open>build_icmp_packet\<close> and \<^verbatim>\<open>parse_icmp_packet\<close> are the text of
  ping's and the definitions of Packet.thy. Times are nanoseconds. The readers of
  several hops together, the setup and the printed hop are in TraceReaders.thy.
\<close>

section \<open>Packets\<close>

record IPPackage = IPHeader +
  pk_data :: "byte list"

record UDPHeader =
  uh_source_port :: u16
  uh_destination_port :: u16
  uh_length :: u16
  uh_checksum :: u16

text \<open>Traceroute's \<^verbatim>\<open>parse_ip_header\<close>: it also keeps what follows the 20 bytes.\<close>

definition parse_ip_package :: "byte list \<Rightarrow> packet_error + IPPackage" where
  "parse_ip_package packet =
     (if length packet < 20 then Inl PacketTooShort
      else Inr \<lparr> ih_version_ihl = packet ! 0,
                 ih_tos = packet ! 1,
                 ih_total_length = be16 (packet ! 2) (packet ! 3),
                 ih_identification = be16 (packet ! 4) (packet ! 5),
                 ih_flags_frag_offset = be16 (packet ! 6) (packet ! 7),
                 ih_ttl = packet ! 8,
                 ih_protocol = packet ! 9,
                 ih_header_checksum = be16 (packet ! 10) (packet ! 11),
                 ih_source = IPv4 (packet ! 12) (packet ! 13) (packet ! 14) (packet ! 15),
                 ih_destination = IPv4 (packet ! 16) (packet ! 17) (packet ! 18) (packet ! 19),
                 pk_data = drop 20 packet \<rparr>)"

definition parse_udp_header :: "byte list \<Rightarrow> packet_error + UDPHeader" where
  "parse_udp_header packet =
     (if length packet < 8 then Inl PacketTooShort
      else Inr \<lparr> uh_source_port = be16 (packet ! 0) (packet ! 1),
                 uh_destination_port = be16 (packet ! 2) (packet ! 3),
                 uh_length = be16 (packet ! 4) (packet ! 5),
                 uh_checksum = be16 (packet ! 6) (packet ! 7) \<rparr>)"

text \<open>\<^verbatim>\<open>random_data\<close>: \<open>nanos\<close> is the clock's nanosecond part, \<open>rnd i\<close> the \<open>i\<close>-th value drawn.\<close>

definition put_be32 :: "u32 \<Rightarrow> byte list" where
  "put_be32 w = [ucast (drop_bit 24 w), ucast (drop_bit 16 w), ucast (drop_bit 8 w), ucast w]"

definition random_data :: "u32 \<Rightarrow> (nat \<Rightarrow> byte) \<Rightarrow> nat \<Rightarrow> go_panic + byte list" where
  "random_data nanos rnd n =
     (if n < 4 then Inl SliceBounds
      else
        (let data = put_be32 nanos @ drop 4 (replicate n 0)
         in Inr (foldl (\<lambda>d i. d[i := rnd i]) data [0..<n - 4])))"

section \<open>The reading goroutine\<close>

datatype trace_state = WAITING | TIMEOUT | RECEIVED_NOT_ARRIVE | RECEIVED

record TraceData =
  State :: trace_state
  ID :: u16
  SendTime :: int
  ReceiveTime :: int
  IP :: ip

definition zero_TraceData :: TraceData where
  "zero_TraceData = \<lparr> State = WAITING, ID = 0, SendTime = 0, ReceiveTime = 0, IP = [] \<rparr>"

text \<open>The reply of a probe of this hop: the state by the ICMP type, nothing for other types.\<close>

definition reply_state :: "bool \<Rightarrow> byte \<Rightarrow> trace_state option" where
  "reply_state icmp_mode t =
     (if icmp_mode then
        (if t = 0 then Some RECEIVED else if t = 11 then Some RECEIVED_NOT_ARRIVE else None)
      else
        (if t = 3 then Some RECEIVED else if t = 11 then Some RECEIVED_NOT_ARRIVE else None))"

definition match_reply :: "bool \<Rightarrow> int \<Rightarrow> int \<Rightarrow> int \<Rightarrow> int \<Rightarrow> byte \<Rightarrow> ip \<Rightarrow> u16 \<Rightarrow> go_panic + TraceData option" where
  "match_reply icmp_mode nqueries ttl first_ttl now t source reply_id =
     (if nqueries = 0 then Inl DivideByZero
      else if tdiv (uint reply_id) nqueries \<noteq> ttl - first_ttl then Inr None
      else Inr (case reply_state icmp_mode t of
          None \<Rightarrow> None
        | Some st \<Rightarrow> Some (zero_TraceData\<lparr> State := st, ID := reply_id, ReceiveTime := now, IP := source \<rparr>)))"

text \<open>One packet from the raw socket: what is sent on \<^verbatim>\<open>resultChan\<close>.\<close>

definition read_trace :: "bool \<Rightarrow> u16 \<Rightarrow> int \<Rightarrow> int \<Rightarrow> int \<Rightarrow> int \<Rightarrow> byte list \<Rightarrow> go_panic + TraceData option" where
  "read_trace icmp_mode ident nqueries ttl first_ttl now packet =
     (case parse_ip_package packet of
        Inl _ \<Rightarrow> Inr None
      | Inr ipPackage \<Rightarrow>
          (case parse_icmp_packet (pk_data ipPackage) of
             Inl _ \<Rightarrow> Inr None
           | Inr icmp \<Rightarrow>
               (case parse_ip_package (icmp_data icmp) of
                  Inl _ \<Rightarrow> Inr None
                | Inr originalIP \<Rightarrow>
                    if icmp_mode then
                      (case parse_icmp_packet (pk_data originalIP) of
                         Inl _ \<Rightarrow> Inr None
                       | Inr originalHeader \<Rightarrow>
                           if icmp_identifier originalHeader \<noteq> ident then Inr None
                           else match_reply True nqueries ttl first_ttl now (icmp_type icmp)
                             (ih_source ipPackage) (icmp_seq originalHeader))
                    else
                      (case parse_udp_header (pk_data originalIP) of
                         Inl _ \<Rightarrow> Inr None
                       | Inr originalHeader \<Rightarrow>
                           if uh_destination_port originalHeader < 33434 then Inr None
                           else match_reply False nqueries ttl first_ttl now (icmp_type icmp)
                             (ih_source ipPackage) (uh_destination_port originalHeader - 33434)))))"

section \<open>The sending loop\<close>

definition probe_id :: "int \<Rightarrow> int \<Rightarrow> int \<Rightarrow> nat \<Rightarrow> u16" where
  "probe_id nqueries ttl first_ttl i = word_of_int ((ttl - first_ttl) * nqueries + int i)"

text \<open>
  \<open>sent i\<close>: the write (for UDP also the dial) of probe \<open>i\<close> succeeds; \<open>clock i\<close>: the time recorded. The
  result is the array and the identifiers of the armed timers; a probe that fails is skipped.
\<close>

fun send_loop :: "int \<Rightarrow> int \<Rightarrow> int \<Rightarrow> (nat \<Rightarrow> bool) \<Rightarrow> (nat \<Rightarrow> int) \<Rightarrow> nat list \<Rightarrow>
    TraceData list \<times> u16 list \<Rightarrow> TraceData list \<times> u16 list" where
  "send_loop nqueries ttl first_ttl sent clock [] (results, timers) = (results, timers)"
| "send_loop nqueries ttl first_ttl sent clock (i # is) (results, timers) =
     send_loop nqueries ttl first_ttl sent clock is
       (if sent i then
          (results[i := zero_TraceData\<lparr> State := WAITING, ID := probe_id nqueries ttl first_ttl i,
             SendTime := clock i \<rparr>],
           timers @ [probe_id nqueries ttl first_ttl i])
        else (results, timers))"

section \<open>The collection loop\<close>

text \<open>A sample is a duration, or the -1 recorded for a time-out.\<close>

datatype sample = Elapsed int | MinusOne

text \<open>\<open>receivedIPs\<close>: the Go map as an association list in the order of insertion.\<close>

record hop =
  results :: "TraceData list"
  receivedIPs :: "(string \<times> sample list) list"
  waiting :: int
  reached :: bool

fun add_sample :: "string \<Rightarrow> sample \<Rightarrow> (string \<times> sample list) list \<Rightarrow> (string \<times> sample list) list" where
  "add_sample k v [] = [(k, [v])]"
| "add_sample k v ((k', vs) # m) = (if k' = k then (k', vs @ [v]) # m else (k', vs) # add_sample k v m)"

definition start_hop :: "int \<Rightarrow> int \<Rightarrow> int \<Rightarrow> (nat \<Rightarrow> bool) \<Rightarrow> (nat \<Rightarrow> int) \<Rightarrow> hop" where
  "start_hop nqueries ttl first_ttl sent clock =
     \<lparr> results = fst (send_loop nqueries ttl first_ttl sent clock [0..<nat nqueries]
         (replicate (nat nqueries) zero_TraceData, [])),
       receivedIPs = [], waiting = nqueries, reached = False \<rparr>"

text \<open>The \<^verbatim>\<open>switch\<close> for one result: an entry that waits is resolved, any other result is ignored.\<close>

definition on_trace :: "int \<Rightarrow> hop \<Rightarrow> TraceData \<Rightarrow> go_panic + hop" where
  "on_trace nqueries h res =
     (if State res = WAITING then Inr h
      else if word_of_int nqueries = (0 :: u16) then Inl DivideByZero
      else
        (let i = unat (ID res mod word_of_int nqueries) in
         if length (results h) \<le> i then Inl IndexRange
         else if State (results h ! i) \<noteq> WAITING then Inr h
         else if State res = TIMEOUT then
           Inr (h\<lparr> waiting := waiting h - 1,
                   results := (results h)[i := (results h ! i)\<lparr> State := TIMEOUT \<rparr>],
                   receivedIPs := add_sample ''*'' MinusOne (receivedIPs h) \<rparr>)
         else
           Inr (h\<lparr> waiting := waiting h - 1,
                   results := (results h)[i := (results h ! i)\<lparr> State := State res,
                     ReceiveTime := ReceiveTime res \<rparr>],
                   receivedIPs := add_sample (ip_string (IP res))
                     (Elapsed (ReceiveTime res - SendTime (results h ! i))) (receivedIPs h),
                   reached := reached h \<or> State res = RECEIVED \<rparr>)))"

text \<open>
  The loop over the results that the program takes from the channel, in the order in which it takes
  them: \<open>Blocked\<close> when it waits for another one after all of them, \<open>Complete\<close> when no probe waits any
  more, at the point where the reader is told to stop before the hop is printed, \<open>Abandoned\<close> when
  the loop is left because the destination answered: nothing is printed and the reader keeps running.
  The bounded channel, the goroutines that fill it and the handshake with the reader are in TraceHop.thy,
  where \<open>hop_run_collect\<close> says that every run of them takes results as this loop does.
\<close>

datatype hop_end = Blocked hop | Complete hop | Abandoned hop

fun collect :: "int \<Rightarrow> hop \<Rightarrow> TraceData list \<Rightarrow> go_panic + hop_end" where
  "collect nqueries h [] = Inr (Blocked h)"
| "collect nqueries h (res # es) = (case on_trace nqueries h res of
       Inl p \<Rightarrow> Inl p
     | Inr h' \<Rightarrow>
         if waiting h' = 0 then Inr (Complete h')
         else if reached h' then Inr (Abandoned h')
         else collect nqueries h' es)"

definition run_hop :: "int \<Rightarrow> int \<Rightarrow> int \<Rightarrow> (nat \<Rightarrow> bool) \<Rightarrow> (nat \<Rightarrow> int) \<Rightarrow> TraceData list \<Rightarrow> go_panic + hop_end" where
  "run_hop nqueries ttl first_ttl sent clock es =
     (if nqueries < 0 then Inl MakeSize
      else collect nqueries (start_hop nqueries ttl first_ttl sent clock) es)"

section \<open>The loop over the hops\<close>

function trace :: "(int \<Rightarrow> go_panic + hop_end) \<Rightarrow> int \<Rightarrow> int \<Rightarrow> go_panic + (int \<times> hop_end) list" where
  "trace run max_hops ttl =
     (if max_hops < ttl then Inr []
      else (case run ttl of
          Inl p \<Rightarrow> Inl p
        | Inr (Blocked h) \<Rightarrow> Inr [(ttl, Blocked h)]
        | Inr e \<Rightarrow>
            (case trace run max_hops (ttl + 1) of
               Inl p \<Rightarrow> Inl p
             | Inr ends \<Rightarrow> Inr ((ttl, e) # ends))))"
  by pat_completeness auto
termination
  by (relation "measure (\<lambda>(run, max_hops, ttl). nat (max_hops + 1 - ttl))") auto

declare trace.simps [simp del]

lemmas [go_eval] = parse_ip_package_def parse_udp_header_def put_be32_def random_data_def
  zero_TraceData_def reply_state_def match_reply_def read_trace_def probe_id_def start_hop_def
  on_trace_def run_hop_def trace.simps

section \<open>Matching replies to probes\<close>

lemma read_trace_total: "q \<noteq> 0 \<Longrightarrow> \<exists>r. read_trace m ident q ttl first now packet = Inr r"
  by (auto simp: read_trace_def match_reply_def Let_def split: sum.split)

lemma parse_ip_package_append:
  assumes "length hdr = 20"
  shows "\<exists>pkg. parse_ip_package (hdr @ d) = Inr pkg \<and> pk_data pkg = d \<and>
    ih_source pkg = IPv4 (hdr ! 12) (hdr ! 13) (hdr ! 14) (hdr ! 15)"
  using assms by (simp add: parse_ip_package_def nth_append)

text \<open>A UDP header, possibly with the data after it, as an ICMP error quotes it.\<close>

definition udp_octets :: "u16 \<Rightarrow> u16 \<Rightarrow> u16 \<Rightarrow> u16 \<Rightarrow> byte list \<Rightarrow> byte list" where
  "udp_octets sport dport len chk data =
     put_be16 sport @ put_be16 dport @ put_be16 len @ put_be16 chk @ data"

lemma parse_udp_octets:
  "parse_udp_header (udp_octets sport dport len chk data) =
    Inr \<lparr> uh_source_port = sport, uh_destination_port = dport, uh_length = len, uh_checksum = chk \<rparr>"
  by (simp add: parse_udp_header_def udp_octets_def put_be16_def eval_nat_numeral)

lemma read_trace_udp:
  assumes "length outer = 20" and "length inner = 20" and "33434 \<le> dport"
  shows "read_trace False ident q ttl first now
      (outer @ icmp_octets t c k a b (inner @ udp_octets sport dport len chk extra)) =
    match_reply False q ttl first now t (IPv4 (outer ! 12) (outer ! 13) (outer ! 14) (outer ! 15))
      (dport - 33434)"
proof -
  obtain out_pkg where out: "parse_ip_package (outer @ icmp_octets t c k a b (inner @ udp_octets sport dport len chk extra)) = Inr out_pkg"
      "pk_data out_pkg = icmp_octets t c k a b (inner @ udp_octets sport dport len chk extra)"
      "ih_source out_pkg = IPv4 (outer ! 12) (outer ! 13) (outer ! 14) (outer ! 15)"
    using parse_ip_package_append [OF assms(1)] by blast
  obtain in_pkg where inn: "parse_ip_package (inner @ udp_octets sport dport len chk extra) = Inr in_pkg"
      "pk_data in_pkg = udp_octets sport dport len chk extra"
    using parse_ip_package_append [OF assms(2)] by blast
  have "\<not> dport < 33434" using assms(3) by simp
  then show ?thesis by (simp add: read_trace_def out inn parse_icmp_octets parse_udp_octets)
qed

lemma read_trace_icmp:
  assumes "length outer = 20" and "length inner = 20"
  shows "read_trace True ident q ttl first now
      (outer @ icmp_octets t c k a b (inner @ icmp_octets t' c' k' ident' seq extra)) =
    (if ident' \<noteq> ident then Inr None
     else match_reply True q ttl first now t (IPv4 (outer ! 12) (outer ! 13) (outer ! 14) (outer ! 15)) seq)"
proof -
  obtain out_pkg where out: "parse_ip_package (outer @ icmp_octets t c k a b (inner @ icmp_octets t' c' k' ident' seq extra)) = Inr out_pkg"
      "pk_data out_pkg = icmp_octets t c k a b (inner @ icmp_octets t' c' k' ident' seq extra)"
      "ih_source out_pkg = IPv4 (outer ! 12) (outer ! 13) (outer ! 14) (outer ! 15)"
    using parse_ip_package_append [OF assms(1)] by blast
  obtain in_pkg where inn: "parse_ip_package (inner @ icmp_octets t' c' k' ident' seq extra) = Inr in_pkg"
      "pk_data in_pkg = icmp_octets t' c' k' ident' seq extra"
    using parse_ip_package_append [OF assms(2)] by blast
  show ?thesis by (simp add: read_trace_def out inn parse_icmp_octets)
qed

text \<open>Probe \<open>i\<close> of the hop: its number, and the hop that this number belongs to.\<close>

lemma probe_number:
  assumes "0 < q" and "first \<le> ttl" and "int i < q" and "(ttl - first) * q + int i < 65536"
  shows "uint (probe_id q ttl first i) = (ttl - first) * q + int i \<and>
    tdiv (uint (probe_id q ttl first i)) q = ttl - first"
proof -
  have n: "0 \<le> (ttl - first) * q + int i" using assms by simp
  then have u: "uint (probe_id q ttl first i) = (ttl - first) * q + int i"
    unfolding probe_id_def using assms(4) by (rule uint_u16_of_int)
  have "((ttl - first) * q + int i) div q = ttl - first"
    using assms(1,3) by (simp add: div_pos_pos_trivial)
  then show ?thesis using u n assms(1) by (simp add: tdiv_nonneg)
qed

text \<open>In UDP mode an ICMP error finds its probe: a time-exceeded or unreachable message that quotes
  the IP header and the UDP header of probe \<open>i\<close> of a hop, from whatever router and with whatever other
  fields, is delivered by the reader of that hop with the probe's number, the state of its type and the
  router's address; the reader of every other hop drops it.\<close>

lemma udp_error_matched:
  assumes "length outer = 20" and "length inner = 20" and "t = 3 \<or> t = 11"
    and "0 < q" and "first \<le> ttl" and "int i < q" and "33434 + (ttl - first) * q + int i < 65536"
    and "packet = outer @ icmp_octets t c k a b
      (inner @ udp_octets sport (word_of_int (33434 + (ttl - first) * q + int i)) len chk extra)"
  shows "read_trace False ident q ttl first now packet =
      Inr (Some \<lparr> State = (if t = 3 then RECEIVED else RECEIVED_NOT_ARRIVE),
        ID = probe_id q ttl first i, SendTime = 0, ReceiveTime = now,
        IP = IPv4 (outer ! 12) (outer ! 13) (outer ! 14) (outer ! 15) \<rparr>) \<and>
    (ttl' \<noteq> ttl \<longrightarrow> read_trace False ident q ttl' first now packet = Inr None)"
proof -
  let ?n = "(ttl - first) * q + int i" and ?dport = "word_of_int (33434 + (ttl - first) * q + int i) :: u16"
  have n: "0 \<le> ?n" using assms(4-6) by simp
  have "uint ?dport = 33434 + (ttl - first) * q + int i"
    using n assms(7) by (intro uint_u16_of_int) simp_all
  then have port: "33434 \<le> ?dport" using n by (simp add: word_le_def)
  have "?dport - 33434 = probe_id q ttl first i" by (simp add: probe_id_def algebra_simps)
  then have read: "read_trace False ident q ttl' first now packet = match_reply False q ttl' first now t
      (IPv4 (outer ! 12) (outer ! 13) (outer ! 14) (outer ! 15)) (probe_id q ttl first i)" for ttl'
    unfolding assms(8) by (simp only: read_trace_udp [OF assms(1,2) port])
  have "tdiv (uint (probe_id q ttl first i)) q = ttl - first"
    using assms(4-7) by (intro conjunct2 [OF probe_number]) simp_all
  then show ?thesis using assms(3,4)
    by (auto simp: read match_reply_def reply_state_def zero_TraceData_def)
qed

definition demo_header :: "byte list" where
  "demo_header = [69, 0, 0, 56, 0, 0, 0, 0, 64, 1, 0, 0, 10, 0, 0, 1, 10, 0, 0, 2]"

lemma length_demo_header [simp]: "length demo_header = 20"
  by (simp add: demo_header_def)

lemma udp_error_matched_witness:
  "\<exists>r. read_trace False 7 3 2 1 99 (demo_header @ icmp_octets 11 0 0 0 0
     (demo_header @ udp_octets 5000 33438 18 0 [])) = Inr (Some r) \<and> State r = RECEIVED_NOT_ARRIVE"
  using udp_error_matched [of demo_header demo_header 11 3 1 2 1, OF _ _ _ _ _ _ _ refl] by fastforce

text \<open>In ICMP mode a router's time-exceeded message finds its probe in the same way, by the
  identifier of the process and the sequence number of the quoted echo request; a message that quotes
  another identifier is dropped.\<close>

lemma icmp_time_exceeded_matched:
  assumes "length outer = 20" and "length inner = 20"
    and "0 < q" and "first \<le> ttl" and "int i < q" and "(ttl - first) * q + int i < 65536"
    and "packet = outer @ icmp_octets 11 c k a b
      (inner @ build_icmp_packet ident (probe_id q ttl first i) data)"
  shows "read_trace True ident q ttl first now packet =
      Inr (Some \<lparr> State = RECEIVED_NOT_ARRIVE, ID = probe_id q ttl first i, SendTime = 0,
        ReceiveTime = now, IP = IPv4 (outer ! 12) (outer ! 13) (outer ! 14) (outer ! 15) \<rparr>) \<and>
    (ttl' \<noteq> ttl \<longrightarrow> read_trace True ident q ttl' first now packet = Inr None) \<and>
    (ident' \<noteq> ident \<longrightarrow> read_trace True ident' q ttl first now packet = Inr None)"
  using probe_number [of q first ttl i] assms(3-6)
  by (auto simp: assms(7) build_icmp_packet_octets read_trace_icmp [OF assms(1,2)] match_reply_def
      reply_state_def zero_TraceData_def)

lemma icmp_time_exceeded_matched_witness:
  "\<exists>r. read_trace True 7 3 2 1 99 (demo_header @ icmp_octets 11 0 0 0 0
     (demo_header @ build_icmp_packet 7 (probe_id 3 2 1 1) [])) = Inr (Some r) \<and> ID r = probe_id 3 2 1 1"
  using icmp_time_exceeded_matched [of demo_header demo_header 3 1 2 1, OF _ _ _ _ _ _ refl] by fastforce

text \<open>C36: in ICMP mode the destination is not recognised by its answer: an echo reply is read as if it
  quoted a packet, so whether it is accepted, and for which probe, depends on bytes 24 to 27 of the
  random payload and not on the identifier and sequence number of the reply; a shorter payload or other
  bytes there drop the genuine reply.\<close>

theorem echo_reply_by_payload:
  assumes "length outer = 20" and "q \<noteq> 0"
  shows "read_trace True ident q ttl first now (outer @ icmp_octets 0 c k reply_ident reply_seq data) =
    Inr (if 28 \<le> length data \<and> be16 (data ! 24) (data ! 25) = ident \<and>
            tdiv (uint (be16 (data ! 26) (data ! 27))) q = ttl - first
         then Some (zero_TraceData\<lparr> State := RECEIVED, ID := be16 (data ! 26) (data ! 27), ReceiveTime := now,
           IP := IPv4 (outer ! 12) (outer ! 13) (outer ! 14) (outer ! 15) \<rparr>)
         else None)"
proof -
  obtain pkg where out: "parse_ip_package (outer @ icmp_octets 0 c k reply_ident reply_seq data) = Inr pkg"
      "pk_data pkg = icmp_octets 0 c k reply_ident reply_seq data"
      "ih_source pkg = IPv4 (outer ! 12) (outer ! 13) (outer ! 14) (outer ! 15)"
    using parse_ip_package_append [OF assms(1)] by blast
  consider "length data < 20" | "20 \<le> length data" "length data < 28" | "28 \<le> length data" by linarith
  then show ?thesis
  proof cases
    case 1
    then have "parse_ip_package data = Inl PacketTooShort" by (simp add: parse_ip_package_def)
    then show ?thesis using 1 by (simp add: read_trace_def out parse_icmp_octets)
  next
    case 2
    then obtain pkg' where "parse_ip_package data = Inr pkg'" "pk_data pkg' = drop 20 data"
      using parse_ip_package_append [of "take 20 data" "drop 20 data"] by auto
    moreover have "parse_icmp_packet (drop 20 data) = Inl PacketTooShort"
      using 2 by (simp add: parse_icmp_packet_def)
    ultimately show ?thesis using 2 by (simp add: read_trace_def out parse_icmp_octets)
  next
    case 3
    then obtain pkg' where p: "parse_ip_package data = Inr pkg'" "pk_data pkg' = drop 20 data"
      using parse_ip_package_append [of "take 20 data" "drop 20 data"] by auto
    have "\<not> length (drop 20 data) < 8" using 3 by simp
    then have "\<exists>ic. parse_icmp_packet (drop 20 data) = Inr ic \<and>
        icmp_identifier ic = be16 (data ! 24) (data ! 25) \<and> icmp_seq ic = be16 (data ! 26) (data ! 27)"
      using 3 by (simp add: parse_icmp_packet_def del: length_drop)
    then obtain ic where ic: "parse_icmp_packet (drop 20 data) = Inr ic"
        "icmp_identifier ic = be16 (data ! 24) (data ! 25)" "icmp_seq ic = be16 (data ! 26) (data ! 27)"
      by blast
    show ?thesis using assms(2) 3
      by (simp add: read_trace_def out parse_icmp_octets p ic match_reply_def reply_state_def)
  qed
qed

theorem echo_reply_by_payload_witness:
  "read_trace True 7 3 1 1 99 (demo_header @ icmp_octets 0 0 0 7 0 (replicate 60 1)) = Inr None"
  using echo_reply_by_payload [of demo_header 3 7 1 1 99 0 0 7 0 "replicate 60 1"]
  by (simp add: be16_def)

section \<open>The collection of a hop\<close>

definition waiting_entries :: "TraceData list \<Rightarrow> nat" where
  "waiting_entries rs = length (filter (\<lambda>r. State r = WAITING) rs)"

definition timed_out :: "TraceData list \<Rightarrow> nat" where
  "timed_out rs = length (filter (\<lambda>r. State r = TIMEOUT) rs)"

definition all_samples :: "(string \<times> sample list) list \<Rightarrow> sample list" where
  "all_samples m = concat (map snd m)"

lemma all_samples_add:
  "length (filter P (all_samples (add_sample k v m))) = length (filter P (all_samples m)) + (if P v then 1 else 0)"
  by (induction m) (auto simp: all_samples_def)

lemma length_all_samples_add [simp]:
  "length (all_samples (add_sample k v m)) = Suc (length (all_samples m))"
  using all_samples_add [of "\<lambda>_. True" k v m] by simp

definition hop_inv :: "int \<Rightarrow> hop \<Rightarrow> bool" where
  "hop_inv q h \<longleftrightarrow> 0 \<le> q \<and> length (results h) = nat q \<and> waiting h = int (waiting_entries (results h)) \<and>
     int (length (all_samples (receivedIPs h))) + waiting h = q \<and>
     timed_out (results h) = length (filter ((=) MinusOne) (all_samples (receivedIPs h)))"

lemma send_loop_results:
  "length (fst (send_loop q ttl first sent clock is rt)) = length (fst rt) \<and>
    ((\<forall>r \<in> set (fst rt). State r = WAITING) \<longrightarrow>
      (\<forall>r \<in> set (fst (send_loop q ttl first sent clock is rt)). State r = WAITING))"
  by (induction q ttl first sent clock "is" rt rule: send_loop.induct)
    (auto simp: zero_TraceData_def dest!: in_set_update)

lemma start_hop_waiting:
  "length (results (start_hop q ttl first sent clock)) = nat q \<and>
    (\<forall>r \<in> set (results (start_hop q ttl first sent clock)). State r = WAITING)"
  using send_loop_results [of q ttl first sent clock "[0..<nat q]" "(replicate (nat q) zero_TraceData, [])"]
  by (simp add: start_hop_def zero_TraceData_def)

lemma start_hop_inv: "0 \<le> q \<Longrightarrow> hop_inv q (start_hop q ttl first sent clock)"
proof -
  assume q: "0 \<le> q"
  note s = start_hop_waiting [of q ttl first sent clock]
  let ?rs = "results (start_hop q ttl first sent clock)"
  have "filter (\<lambda>r. State r = WAITING) ?rs = ?rs" using s by (simp add: filter_id_conv)
  moreover have "filter (\<lambda>r. State r = TIMEOUT) ?rs = []" using s by (auto simp: filter_empty_conv)
  ultimately show ?thesis using q s
    by (simp add: hop_inv_def waiting_entries_def timed_out_def)
      (simp add: start_hop_def all_samples_def)
qed

text \<open>What a result does to a hop: nothing, or it resolves the entry it is for.\<close>

lemma on_trace_cases:
  assumes "on_trace q h res = Inr h'"
  obtains (ignored) "h' = h"
  | (resolved) i r k v where "i = unat (ID res mod word_of_int q)" "i < length (results h)"
      "State (results h ! i) = WAITING" "State r = State res" "State res \<noteq> WAITING"
      "results h' = (results h)[i := r]" "waiting h' = waiting h - 1"
      "reached h' \<longleftrightarrow> reached h \<or> State res = RECEIVED"
      "receivedIPs h' = add_sample k v (receivedIPs h)" "v = MinusOne \<longleftrightarrow> State res = TIMEOUT"
proof (cases "h' = h")
  case False
  let ?i = "unat (ID res mod word_of_int q)"
  have "?i < length (results h)" "State (results h ! ?i) = WAITING" "State res \<noteq> WAITING"
    using assms False by (auto simp: on_trace_def Let_def split: if_splits)
  then show ?thesis using assms False
    by (intro resolved [of ?i "results h' ! ?i" "if State res = TIMEOUT then ''*'' else ip_string (IP res)"
        "if State res = TIMEOUT then MinusOne else Elapsed (ReceiveTime res - SendTime (results h ! ?i))"])
      (auto simp: on_trace_def Let_def split: if_splits)
qed

lemma on_trace_inv:
  assumes "hop_inv q h" and "on_trace q h res = Inr h'"
  shows "hop_inv q h'"
  using assms(2)
proof (cases rule: on_trace_cases)
  case (resolved i r k v)
  then have "waiting_entries (results h') + 1 = waiting_entries (results h)"
    "timed_out (results h') = timed_out (results h) + (if State res = TIMEOUT then 1 else 0)"
    using length_filter_update [OF resolved(2), of "\<lambda>r. State r = WAITING" r]
      length_filter_update [OF resolved(2), of "\<lambda>r. State r = TIMEOUT" r]
    by (simp_all add: waiting_entries_def timed_out_def)
  then show ?thesis
    using assms(1) resolved(6,7,10) by (simp add: hop_inv_def resolved(9) all_samples_add eq_commute [of MinusOne])
qed (use assms(1) in simp)

fun end_hop :: "hop_end \<Rightarrow> hop" where
  "end_hop (Blocked h) = h" | "end_hop (Complete h) = h" | "end_hop (Abandoned h) = h"

lemma collect_inv:
  "hop_inv q h \<Longrightarrow> collect q h es = Inr e \<Longrightarrow> hop_inv q (end_hop e) \<and>
    (case e of Blocked h' \<Rightarrow> True | Complete h' \<Rightarrow> waiting h' = 0
     | Abandoned h' \<Rightarrow> waiting h' \<noteq> 0 \<and> reached h')"
proof (induction es arbitrary: h)
  case (Cons res es)
  then obtain h' where h': "on_trace q h res = Inr h'" by (auto split: sum.splits)
  then have "hop_inv q h'" using Cons.prems(1) by (rule on_trace_inv [rotated])
  then show ?case using Cons h' by (auto split: if_splits)
qed auto

text \<open>C15: the bookkeeping of a hop: in whatever order results, duplicates and time-outs arrive, the
  counter of waiting probes is the number of entries in that state, every other probe has exactly one
  sample, and the samples that print as a star are the probes that timed out; a hop is printed only when
  none waits, and it is left unprinted only when the destination answered while some wait.\<close>

theorem hop_accounting:
  assumes "run_hop q ttl first sent clock es = Inr e" and "h = end_hop e"
  shows "waiting h = int (waiting_entries (results h)) \<and>
    int (length (all_samples (receivedIPs h))) + waiting h = q \<and>
    timed_out (results h) = length (filter ((=) MinusOne) (all_samples (receivedIPs h))) \<and>
    (case e of Blocked _ \<Rightarrow> True | Complete _ \<Rightarrow> waiting h = 0 | Abandoned _ \<Rightarrow> waiting h \<noteq> 0 \<and> reached h)"
proof -
  have "0 \<le> q" "collect q (start_hop q ttl first sent clock) es = Inr e"
    using assms(1) by (auto simp: run_hop_def split: if_splits)
  from collect_inv [OF start_hop_inv [OF this(1)] this(2)] show ?thesis
    by (cases e) (auto simp: hop_inv_def assms(2))
qed

definition demo_result :: "trace_state \<Rightarrow> u16 \<Rightarrow> TraceData" where
  "demo_result st n = zero_TraceData\<lparr> State := st, ID := n, IP := IPv4 10 0 0 1 \<rparr>"

theorem hop_accounting_witness:
  "\<exists>h. run_hop 2 1 1 (\<lambda>i. True) (\<lambda>i. 0)
       [demo_result RECEIVED_NOT_ARRIVE 0, demo_result RECEIVED_NOT_ARRIVE 0, demo_result TIMEOUT 1] =
     Inr (Complete h) \<and> length (all_samples (receivedIPs h)) = 2"
proof -
  have "\<exists>h. run_hop 2 1 1 (\<lambda>i. True) (\<lambda>i. 0)
       [demo_result RECEIVED_NOT_ARRIVE 0, demo_result RECEIVED_NOT_ARRIVE 0, demo_result TIMEOUT 1] =
     Inr (Complete h)"
    by (simp add: run_hop_def start_hop_def on_trace_def demo_result_def zero_TraceData_def
        probe_id_def eval_nat_numeral upt_rec)
  then show ?thesis using hop_accounting [OF _ refl] by fastforce
qed

section \<open>Completion of a hop\<close>

lemma on_trace_total:
  assumes "hop_inv q h" and "0 < q" and "q < 65536"
  shows "\<exists>h'. on_trace q h res = Inr h'"
proof -
  have "word_of_int q \<noteq> (0 :: u16)" using assms(2,3) uint_u16_of_int [of q] by auto
  moreover have "unat (ID res mod word_of_int q) < length (results h)"
    using assms by (simp add: unat_mod_u16 hop_inv_def)
  ultimately show ?thesis by (simp add: on_trace_def Let_def)
qed

lemma on_trace_entry:
  assumes "on_trace q h res = Inr h'" and "0 < q" and "q < 65536" and "i < length (results h)"
  shows "State (results h' ! i) = WAITING \<longleftrightarrow>
    State (results h ! i) = WAITING \<and> (State res \<noteq> WAITING \<longrightarrow> unat (ID res) mod nat q \<noteq> i)"
proof -
  have index: "unat (ID res mod word_of_int q) = unat (ID res) mod nat q"
    using assms(2,3) by (rule unat_mod_u16)
  show ?thesis
    using assms(1) assms(4)
    by (auto simp: on_trace_def Let_def index nth_list_update split: if_splits)
qed

lemma waiting_entries_pos:
  "0 < waiting_entries rs \<longleftrightarrow> (\<exists>i < length rs. State (rs ! i) = WAITING)"
  by (simp add: waiting_entries_def filter_empty_conv) (metis in_set_conv_nth)

lemma collect_completes:
  assumes "0 < q" and "q < 65536"
  shows "hop_inv q h \<Longrightarrow> 0 < waiting h \<Longrightarrow>
    \<forall>i < nat q. State (results h ! i) = WAITING \<longrightarrow>
      (\<exists>res \<in> set es. State res \<noteq> WAITING \<and> unat (ID res) mod nat q = i) \<Longrightarrow>
    \<exists>h'. collect q h es \<in> {Inr (Complete h'), Inr (Abandoned h')}"
proof (induction es arbitrary: h)
  case Nil
  then show ?case using waiting_entries_pos [of "results h"] by (auto simp: hop_inv_def)
next
  case (Cons res es)
  obtain h' where h': "on_trace q h res = Inr h'" using on_trace_total Cons.prems(1) assms by blast
  have inv: "hop_inv q h'" using Cons.prems(1) h' by (rule on_trace_inv)
  show ?case
  proof (cases "waiting h' = 0 \<or> reached h'")
    case False
    have "\<exists>res' \<in> set es. State res' \<noteq> WAITING \<and> unat (ID res') mod nat q = i"
      if "i < nat q" "State (results h' ! i) = WAITING" for i
      using on_trace_entry [OF h' assms, of i] that Cons.prems(1,3) by (auto simp: hop_inv_def)
    moreover have "0 < waiting h'" using False inv by (simp add: hop_inv_def)
    ultimately show ?thesis using Cons.IH [OF inv] False by (simp add: h')
  qed (use h' in auto)
qed

lemma send_loop_timers:
  "snd (send_loop q ttl first sent clock is rt) = snd rt @ map (probe_id q ttl first) (filter sent is)"
  by (induction q ttl first sent clock "is" rt rule: send_loop.induct) simp_all

text \<open>The timers that the sending loop of a hop arms.\<close>

definition armed :: "int \<Rightarrow> int \<Rightarrow> int \<Rightarrow> (nat \<Rightarrow> bool) \<Rightarrow> (nat \<Rightarrow> int) \<Rightarrow> u16 list" where
  "armed q ttl first sent clock = snd (send_loop q ttl first sent clock [0..<nat q]
     (replicate (nat q) zero_TraceData, []))"

lemma probe_index:
  assumes "first \<le> ttl" and "i < nat q" and "(ttl - first) * q + q \<le> 65536"
  shows "unat (probe_id q ttl first i) mod nat q = i"
proof -
  have q: "0 < q" "int i < q" using assms(2) by auto
  have "uint (probe_id q ttl first i) = (ttl - first) * q + int i"
    using assms q by (intro conjunct1 [OF probe_number]) linarith+
  then have "int (unat (probe_id q ttl first i)) mod q = int i"
    using q by (simp add: uint_nat [symmetric])
  then show ?thesis using q by (metis nat_int nat_mod_distrib of_nat_0_le_iff less_imp_le)
qed

lemma hop_ends:
  assumes "0 < q" and "q < 65536" and "first \<le> ttl" and "(ttl - first) * q + q \<le> 65536"
    and "\<forall>i < nat q. sent i"
    and "\<forall>n \<in> set (armed q ttl first sent clock). \<exists>res \<in> set es. ID res = n \<and> State res \<noteq> WAITING"
  shows "\<exists>h. run_hop q ttl first sent clock es \<in> {Inr (Complete h), Inr (Abandoned h)}"
proof -
  let ?h = "start_hop q ttl first sent clock"
  have "\<exists>res \<in> set es. State res \<noteq> WAITING \<and> unat (ID res) mod nat q = i" if "i < nat q" for i
  proof -
    have "probe_id q ttl first i \<in> set (armed q ttl first sent clock)"
      using that assms(5) by (simp add: armed_def send_loop_timers)
    then obtain res where "res \<in> set es" "ID res = probe_id q ttl first i" "State res \<noteq> WAITING"
      using assms(6) by blast
    then show ?thesis using probe_index [OF assms(3) that assms(4)] by auto
  qed
  moreover have "hop_inv q ?h" using assms(1) by (simp add: start_hop_inv)
  moreover have "0 < waiting ?h" using assms(1) by (simp add: start_hop_def)
  ultimately show ?thesis
    using collect_completes [OF assms(1,2), of ?h es] assms(1) by (simp add: run_hop_def)
qed

text \<open>A failed send hangs the program: the array entry of a probe that could not be sent has the
  zero state \<^verbatim>\<open>WAITING\<close> and no timer, so unless the destination answers another probe of the hop,
  the collection loop is still blocked after any number of results for the other probes.\<close>

lemma failed_send_hangs:
  assumes "0 < q" and "q < 65536" and "first \<le> ttl" and "(ttl - first) * q + q \<le> 65536"
    and "i < nat q" and "\<not> sent i"
    and "\<forall>res \<in> set es. State res \<noteq> RECEIVED \<and> ID res \<in> set (armed q ttl first sent clock)"
  shows "\<exists>h. run_hop q ttl first sent clock es = Inr (Blocked h)"
proof -
  have others: "\<forall>res \<in> set es. State res \<noteq> RECEIVED \<and> unat (ID res) mod nat q \<noteq> i"
  proof
    fix res
    assume "res \<in> set es"
    then obtain j where "j < nat q" "sent j" "ID res = probe_id q ttl first j" "State res \<noteq> RECEIVED"
      using assms(7) by (auto simp: armed_def send_loop_timers)
    then show "State res \<noteq> RECEIVED \<and> unat (ID res) mod nat q \<noteq> i"
      using probe_index [OF assms(3) _ assms(4)] assms(6) by auto
  qed
  have "\<exists>h'. collect q h es = Inr (Blocked h')"
    if "hop_inv q h" "State (results h ! i) = WAITING" "\<not> reached h" for h
    using others that
  proof (induction es arbitrary: h)
    case (Cons res es)
    obtain h' where h': "on_trace q h res = Inr h'" using on_trace_total Cons.prems(2) assms(1,2) by blast
    have len: "i < length (results h)" using Cons.prems(2) assms(5) by (simp add: hop_inv_def)
    have inv: "hop_inv q h'" using Cons.prems(2) h' by (rule on_trace_inv)
    have w: "State (results h' ! i) = WAITING"
      using on_trace_entry [OF h' assms(1,2) len] Cons.prems(1,3) by simp
    have "length (results h') = nat q" using inv by (simp add: hop_inv_def)
    then have "0 < waiting_entries (results h')" using w assms(5) by (auto simp: waiting_entries_pos)
    then have "waiting h' \<noteq> 0" using inv by (simp add: hop_inv_def)
    moreover have "\<not> reached h'"
      using h' Cons.prems(1,4) by (cases rule: on_trace_cases) auto
    ultimately show ?case using Cons.IH [OF _ inv w] Cons.prems(1) by (simp add: h')
  qed simp
  moreover have "State (results (start_hop q ttl first sent clock) ! i) = WAITING"
    using start_hop_waiting [of q ttl first sent clock] assms(5) by simp
  ultimately show ?thesis
    using start_hop_inv [of q ttl first sent clock] assms(1) by (simp add: run_hop_def)
      (simp add: start_hop_def)
qed

lemma failed_send_hangs_witness:
  "\<exists>h. run_hop 2 1 1 (\<lambda>i. i = 0) (\<lambda>i. 0) [demo_result TIMEOUT 0] = Inr (Blocked h)"
  using failed_send_hangs [of 2 1 1 1 "\<lambda>i. i = 0" "[demo_result TIMEOUT 0]" "\<lambda>i. 0"]
  by (simp add: armed_def send_loop_timers probe_id_def eval_nat_numeral demo_result_def)

lemma trace_covers:
  "\<forall>t \<in> {ttl..max_hops}. \<exists>h. run t \<in> {Inr (Complete h), Inr (Abandoned h)} \<Longrightarrow>
    \<exists>ends. trace run max_hops ttl = Inr ends \<and> map fst ends = [ttl..max_hops]"
proof (induction run max_hops ttl rule: trace.induct)
  case (1 run max_hops ttl)
  show ?case
  proof (cases "max_hops < ttl")
    case False
    then obtain h where h: "run ttl = Inr (Complete h) \<or> run ttl = Inr (Abandoned h)"
      using "1.prems" by (meson atLeastAtMost_iff insertE linorder_not_less order_refl singletonD)
    have rest: "\<forall>t \<in> {ttl + 1..max_hops}. \<exists>h. run t \<in> {Inr (Complete h), Inr (Abandoned h)}"
      using "1.prems" by simp
    from h obtain ends where "trace run max_hops (ttl + 1) = Inr ends" "map fst ends = [ttl + 1..max_hops]"
      using "1.IH"(1) [OF False _ _ rest] "1.IH"(2) [OF False _ _ rest] by blast
    then show ?thesis using h False
      by (auto simp: trace.simps [of run max_hops ttl] upto.simps [of ttl])
  qed (simp add: trace.simps [of run max_hops ttl])
qed

text \<open>The payload of an echo probe does not carry the time: the random bytes are written from index
  0 over the clock value, so the payload is the random bytes followed by four zeros.\<close>

lemma random_data_drops_time:
  assumes "8 \<le> n"
  shows "random_data nanos rnd n = Inr (map rnd [0..<n - 4] @ [0, 0, 0, 0])"
proof -
  obtain m where n: "n = 8 + m" using assms le_Suc_ex by blast
  have "replicate (m + 4) (0 :: byte) = replicate m 0 @ [0, 0, 0, 0]"
    by (simp only: replicate_add) (simp add: eval_nat_numeral)
  moreover have "length (put_be32 nanos @ replicate m 0) = m + 4" by (simp add: put_be32_def)
  ultimately show ?thesis
    by (simp add: random_data_def foldl_update n add.commute [of 4])
qed

lemma random_data_drops_time_witness:
  "random_data 123456789 (\<lambda>i. 7) 8 = Inr [7, 7, 7, 7, 0, 0, 0, 0]"
  using random_data_drops_time [of 8 123456789 "\<lambda>i. 7"] by (simp add: upt_rec)

end
