(* ===== verification/TraceReaders.thy ===== *)
theory TraceReaders
  imports Traceroute
begin

text \<open>
  The goroutines of \<^verbatim>\<open>code/traceroute/main.go\<close> together: each hop starts a reader of the one raw
  socket, which the hop's end stops only when the hop was printed; a packet goes to any reader that is
  still running, and a reader knows the probes of its own hop only. Also what a printed hop looks like. The channel
  of a hop is a list here: its capacity and the stop handshake are in TraceHop.thy.
\<close>

section \<open>The results of a hop\<close>

text \<open>
  What happens during a hop, in order: the reader that the hop \<open>reader\<close> started reads a packet at a time, or
  the timer of a probe fires.
\<close>

datatype hop_input = PacketRead int int "byte list" | TimerFired u16

text \<open>
  What arrives on the channel of hop \<open>ttl\<close>. A result that another hop's reader sends goes to that hop's
  channel, which nothing reads any more.
\<close>

fun hop_results :: "bool \<Rightarrow> u16 \<Rightarrow> int \<Rightarrow> int \<Rightarrow> int \<Rightarrow> hop_input list \<Rightarrow> go_panic + TraceData list" where
  "hop_results icmp_mode ident nqueries first_ttl ttl [] = Inr []"
| "hop_results icmp_mode ident nqueries first_ttl ttl (TimerFired n # es) =
     (case hop_results icmp_mode ident nqueries first_ttl ttl es of
        Inl p \<Rightarrow> Inl p
      | Inr rs \<Rightarrow> Inr (zero_TraceData\<lparr> State := TIMEOUT, ID := n \<rparr> # rs))"
| "hop_results icmp_mode ident nqueries first_ttl ttl (PacketRead reader now packet # es) =
     (case read_trace icmp_mode ident nqueries reader first_ttl now packet of
        Inl p \<Rightarrow> Inl p
      | Inr r \<Rightarrow>
          (case hop_results icmp_mode ident nqueries first_ttl ttl es of
             Inl p \<Rightarrow> Inl p
           | Inr rs \<Rightarrow> Inr (if reader = ttl then (case r of Some x \<Rightarrow> x # rs | None \<Rightarrow> rs) else rs)))"

definition run_hop_inputs ::
    "bool \<Rightarrow> u16 \<Rightarrow> int \<Rightarrow> int \<Rightarrow> (int \<Rightarrow> nat \<Rightarrow> bool) \<Rightarrow> (int \<Rightarrow> nat \<Rightarrow> int) \<Rightarrow> (int \<Rightarrow> hop_input list) \<Rightarrow> int \<Rightarrow>
      go_panic + hop_end" where
  "run_hop_inputs icmp_mode ident nqueries first_ttl sent clock inputs ttl =
     (case hop_results icmp_mode ident nqueries first_ttl ttl (inputs ttl) of
        Inl p \<Rightarrow> Inl p
      | Inr es \<Rightarrow> run_hop nqueries ttl first_ttl (sent ttl) (clock ttl) es)"

section \<open>The running readers\<close>

text \<open>A printed hop hands its reader the stop signal, an abandoned one does not.\<close>

fun readers_after :: "int \<Rightarrow> int list \<Rightarrow> hop_end \<Rightarrow> int list" where
  "readers_after ttl live (Complete h) = filter (\<lambda>t. t \<noteq> ttl) live"
| "readers_after ttl live _ = live"

text \<open>
  The loop over the hops with the readers that run during each: a hop, its readers, its end. What happens in a hop
  may depend on them.
\<close>

function trace_live ::
    "(int \<Rightarrow> int list \<Rightarrow> go_panic + hop_end) \<Rightarrow> int \<Rightarrow> int \<Rightarrow> int list \<Rightarrow> go_panic + (int \<times> int list \<times> hop_end) list" where
  "trace_live run max_hops ttl live =
     (if max_hops < ttl then Inr []
      else (case run ttl (live @ [ttl]) of
          Inl p \<Rightarrow> Inl p
        | Inr (Blocked h) \<Rightarrow> Inr [(ttl, live @ [ttl], Blocked h)]
        | Inr e \<Rightarrow>
            (case trace_live run max_hops (ttl + 1) (readers_after ttl (live @ [ttl]) e) of
               Inl p \<Rightarrow> Inl p
             | Inr ends \<Rightarrow> Inr ((ttl, live @ [ttl], e) # ends))))"
  by pat_completeness auto
termination
  by (relation "measure (\<lambda>(run, max_hops, ttl, live). nat (max_hops + 1 - ttl))") auto

declare trace_live.simps [simp del]

section \<open>main\<close>

record trace_flags =
  tf_max_hops :: int
  tf_nqueries :: int
  tf_icmp_mode :: bool
  tf_first_ttl :: int
  tf_host :: string

datatype trace_outcome = CannotResolve | CannotListen | Traced "go_panic + (int \<times> int list \<times> hop_end) list"

text \<open>A packet is read by a reader that runs.\<close>

fun may_happen :: "int list \<Rightarrow> hop_input \<Rightarrow> bool" where
  "may_happen live (PacketRead reader now packet) \<longleftrightarrow> reader \<in> set live"
| "may_happen live (TimerFired n) \<longleftrightarrow> True"

definition run_hop_live ::
    "bool \<Rightarrow> u16 \<Rightarrow> int \<Rightarrow> int \<Rightarrow> (int \<Rightarrow> nat \<Rightarrow> bool) \<Rightarrow> (int \<Rightarrow> nat \<Rightarrow> int) \<Rightarrow> (int \<Rightarrow> hop_input list) \<Rightarrow> int \<Rightarrow>
      int list \<Rightarrow> go_panic + hop_end" where
  "run_hop_live icmp_mode ident nqueries first_ttl sent clock inputs ttl live =
     run_hop_inputs icmp_mode ident nqueries first_ttl sent clock (\<lambda>t. filter (may_happen live) (inputs t)) ttl"

text \<open>
  \<open>ident\<close>: the low 16 bits of the process's number; \<open>resolves\<close> and \<open>listens\<close>: whether the host's address was found and
  the raw socket opened.
\<close>

definition trace_main ::
    "(string \<Rightarrow> bool) \<Rightarrow> bool \<Rightarrow> u16 \<Rightarrow> (int \<Rightarrow> nat \<Rightarrow> bool) \<Rightarrow> (int \<Rightarrow> nat \<Rightarrow> int) \<Rightarrow> (int \<Rightarrow> hop_input list) \<Rightarrow> trace_flags \<Rightarrow>
      trace_outcome" where
  "trace_main resolves listens ident sent clock inputs f =
     (if \<not> resolves (tf_host f) then CannotResolve
      else if \<not> listens then CannotListen
      else Traced (trace_live (run_hop_live (tf_icmp_mode f) ident (tf_nqueries f) (tf_first_ttl f) sent clock inputs)
        (tf_max_hops f) (tf_first_ttl f) []))"

section \<open>A printed hop\<close>

text \<open>
  \<^verbatim>\<open>%.3f ms  \<close> of a duration: the milliseconds rounded to three decimals. The program's value is a float; the two
  can differ only for a duration that lies half-way between two microseconds.
\<close>

definition ms_text :: "int \<Rightarrow> string" where
  "ms_text d =
     (let us = (\<bar>d\<bar> + 500) div 1000; k = nat (us mod 1000) in
      (if d < 0 then ''-'' else []) @ dec_string (nat (us div 1000)) @ ''.'' @
        [digit_char (k div 100), digit_char (k div 10 mod 10), digit_char (k mod 10)] @ '' ms  '')"

fun sample_text :: "sample \<Rightarrow> string" where
  "sample_text (Elapsed d) = ms_text d"
| "sample_text MinusOne = ''-1.000 ms  ''"

text \<open>
  \<open>ms\<close> prints a sample as milliseconds with three decimals. The list stands for the map's unspecified order
  of iteration.
\<close>

definition render_hop :: "(sample \<Rightarrow> string) \<Rightarrow> (string \<times> sample list) list \<Rightarrow> string" where
  "render_hop ms ips = concat (map (\<lambda>(ip, times).
     (if ip = ''*'' then concat (replicate (length times) ''*  '')
      else ip @ ''  '' @ concat (map ms times)) @ [CHR 0x0A]) ips)"

text \<open>
  What is printed of a hop, apart from messages about failed sends in ICMP mode: its number, \<^verbatim>\<open>%2d  \<close>, and when no
  probe waits any more its results.
\<close>

definition ttl_text :: "int \<Rightarrow> string" where
  "ttl_text ttl =
     (let s = (if ttl < 0 then ''-'' else []) @ dec_string (nat \<bar>ttl\<bar>) in
      replicate (2 - length s) (CHR '' '') @ s @ ''  '')"

fun hop_line :: "int \<Rightarrow> hop_end \<Rightarrow> string" where
  "hop_line ttl (Complete h) = ttl_text ttl @ render_hop sample_text (receivedIPs h)"
| "hop_line ttl _ = ttl_text ttl"

lemmas [go_eval] = run_hop_inputs_def run_hop_live_def render_hop_def trace_live.simps ms_text_def ttl_text_def

section \<open>Properties\<close>

text \<open>The readers do not change which hops are probed and how they end.\<close>

lemma trace_live_trace:
  "map_sum id (map (\<lambda>(t, live, e). (t, e))) (trace_live (\<lambda>t live. run t) max_hops ttl live) = trace run max_hops ttl"
proof (induction run max_hops ttl arbitrary: live rule: trace.induct)
  case (1 run max_hops ttl)
  show ?case
  proof (cases "max_hops < ttl")
    case False
    show ?thesis
    proof (cases "run ttl")
      case (Inr e)
      let ?rest = "trace_live (\<lambda>t live. run t) max_hops (ttl + 1) (readers_after ttl (live @ [ttl]) e)"
      have "trace run max_hops (ttl + 1) = map_sum id (map (\<lambda>(t, live, e). (t, e))) ?rest" if "e = Complete h \<or> e = Abandoned h" for h
        using that "1.IH"(1) [OF False Inr, symmetric] "1.IH"(2) [OF False Inr, symmetric] by blast
      then show ?thesis using Inr False
        by (cases e; cases ?rest) (simp_all add: trace_live.simps [of _ max_hops ttl] trace.simps [of run max_hops ttl])
    qed (simp add: trace_live.simps [of _ max_hops ttl] trace.simps [of run max_hops ttl])
  qed (simp add: trace_live.simps [of _ max_hops ttl] trace.simps [of run max_hops ttl])
qed

fun abandoned :: "hop_end \<Rightarrow> bool" where
  "abandoned (Abandoned h) \<longleftrightarrow> True"
| "abandoned _ \<longleftrightarrow> False"

lemma trace_live_readers:
  "trace_live run max_hops ttl live = Inr ends \<Longrightarrow> \<forall>t \<in> set live. t < ttl \<Longrightarrow> ends = xs @ (t, l, e) # ys \<Longrightarrow>
    l = live @ map fst (filter (\<lambda>(t, l, e). abandoned e) xs) @ [t]"
proof (induction run max_hops ttl live arbitrary: ends xs rule: trace_live.induct)
  case (1 run max_hops ttl live)
  have "\<not> max_hops < ttl" using "1.prems" by (auto simp: trace_live.simps [of run max_hops ttl])
  then obtain e' where e': "run ttl (live @ [ttl]) = Inr e'"
    using "1.prems"(1) by (auto simp: trace_live.simps [of run max_hops ttl] split: sum.splits)
  show ?case
  proof (cases xs)
    case Nil
    then show ?thesis using "1.prems" e' \<open>\<not> max_hops < ttl\<close>
      by (cases e') (auto simp: trace_live.simps [of run max_hops ttl] split: sum.splits)
  next
    case (Cons x xs')
    have rest: "e' = Complete h \<or> e' = Abandoned h \<Longrightarrow> x = (ttl, live @ [ttl], e') \<and>
        trace_live run max_hops (ttl + 1) (readers_after ttl (live @ [ttl]) e') = Inr (xs' @ (t, l, e) # ys)" for h
      using "1.prems" e' \<open>\<not> max_hops < ttl\<close> Cons
      by (auto simp: trace_live.simps [of run max_hops ttl] split: sum.splits)
    have keep: "filter (\<lambda>t. t \<noteq> ttl) live = live" using "1.prems"(2) by (auto simp: filter_id_conv)
    show ?thesis
    proof (cases e')
      case (Blocked h)
      then show ?thesis using "1.prems" e' \<open>\<not> max_hops < ttl\<close> Cons
        by (auto simp: trace_live.simps [of run max_hops ttl])
    next
      case (Complete h)
      then have "l = live @ map fst (filter (\<lambda>(t, l, e). abandoned e) xs') @ [t]"
        using "1.IH"(1) [OF \<open>\<not> max_hops < ttl\<close> e' Complete, of "xs' @ (t, l, e) # ys" xs'] rest [of h] "1.prems"(2)
        by (simp add: keep less_imp_le)
      then show ?thesis using rest [of h] Complete Cons by simp
    next
      case (Abandoned h)
      then have "l = (live @ [ttl]) @ map fst (filter (\<lambda>(t, l, e). abandoned e) xs') @ [t]"
        using "1.IH"(2) [OF \<open>\<not> max_hops < ttl\<close> e' Abandoned, of "xs' @ (t, l, e) # ys" xs'] rest [of h] "1.prems"(2)
        by fastforce
      then show ?thesis using rest [of h] Abandoned Cons by simp
    qed
  qed
qed

text \<open>Which readers run: the hops are probed one after the other, and during a hop its own reader runs and,
  besides it, exactly those of the earlier hops that were abandoned because the destination had answered; as
  long as the destination has not, a packet can only be read by the reader of the hop it arrives in.\<close>

lemma running_readers:
  assumes "trace_live run max_hops first [] = Inr (xs @ (t, live, e) # ys)"
  shows "live = map fst (filter (\<lambda>(t, l, e). abandoned e) xs) @ [t]"
  using trace_live_readers [OF assms, of xs t live e ys] by simp

lemma running_readers_witness:
  "\<exists>e. trace_live (\<lambda>ttl live. if ttl = 1 then Inr (Complete (start_hop 1 ttl 1 (\<lambda>i. True) (\<lambda>i. 0)))
        else Inr (Abandoned (start_hop 1 ttl 1 (\<lambda>i. True) (\<lambda>i. 0)))) 3 1 [] = Inr e \<and>
     fst (snd (e ! 2)) = [2, 3]"
proof -
  let ?run = "\<lambda>ttl (live :: int list). if ttl = 1 then Inr (Complete (start_hop 1 ttl 1 (\<lambda>i. True) (\<lambda>i. 0)))
        else Inr (Abandoned (start_hop 1 ttl 1 (\<lambda>i. True) (\<lambda>i. 0)))"
  obtain xs live e where run: "trace_live ?run 3 1 [] = Inr (xs @ (3, live, e) # [])" "map fst (filter (\<lambda>(t, l, e). abandoned e) xs) = [2]"
    "length xs = 2"
    by (simp add: trace_live.simps)
  from running_readers [OF run(1)] run show ?thesis by (simp add: nth_append)
qed

section \<open>Replies that a hop does not see\<close>

fun unseen :: "int \<Rightarrow> hop_input \<Rightarrow> bool" where
  "unseen ttl (TimerFired n) \<longleftrightarrow> True"
| "unseen ttl (PacketRead reader now packet) \<longleftrightarrow> reader \<noteq> ttl"

lemma hop_results_unseen:
  assumes "0 < q" and "\<forall>e \<in> set es. unseen ttl e"
  shows "\<exists>rs. hop_results m ident q first ttl es = Inr rs \<and> (\<forall>r \<in> set rs. State r = TIMEOUT) \<and>
      (\<forall>n. TimerFired n \<in> set es \<longrightarrow> (\<exists>r \<in> set rs. ID r = n))"
  using assms(2)
proof (induction es)
  case (Cons e es)
  then obtain rs where rs: "hop_results m ident q first ttl es = Inr rs" "\<forall>r \<in> set rs. State r = TIMEOUT"
    "\<forall>n. TimerFired n \<in> set es \<longrightarrow> (\<exists>r \<in> set rs. ID r = n)" by auto
  show ?case
  proof (cases e)
    case (PacketRead reader now packet)
    then obtain r where "read_trace m ident q reader first now packet = Inr r"
      using read_trace_total assms(1) by (metis less_irrefl)
    then show ?thesis using rs PacketRead Cons.prems by simp
  qed (use rs in auto)
qed simp

definition stars :: "nat \<Rightarrow> (string \<times> sample list) list" where
  "stars k = (if k = 0 then [] else [(''*'', replicate k MinusOne)])"

lemma add_star: "add_sample ''*'' MinusOne (stars k) = stars (Suc k)"
  by (simp add: stars_def replicate_append_same)

lemma on_trace_timeout:
  assumes "on_trace q h res = Inr h'" and "State res = TIMEOUT" and "hop_inv q h"
    and "receivedIPs h = stars (nat (q - waiting h))" and "\<not> reached h"
  shows "receivedIPs h' = stars (nat (q - waiting h')) \<and> \<not> reached h'"
proof -
  have "0 \<le> q - waiting h" using assms(3) by (simp add: hop_inv_def)
  then have "nat (q - (waiting h - 1)) = Suc (nat (q - waiting h))" by linarith
  then show ?thesis using assms
    by (auto simp: on_trace_def Let_def add_star split: if_splits)
qed

lemma collect_timeouts:
  "hop_inv q h \<Longrightarrow> receivedIPs h = stars (nat (q - waiting h)) \<Longrightarrow> \<not> reached h \<Longrightarrow> \<forall>res \<in> set es. State res = TIMEOUT \<Longrightarrow>
    collect q h es = Inr e \<Longrightarrow> receivedIPs (end_hop e) = stars (nat (q - waiting (end_hop e))) \<and> \<not> reached (end_hop e)"
proof (induction es arbitrary: h)
  case (Cons res es)
  then obtain h' where h': "on_trace q h res = Inr h'" by (auto split: sum.splits)
  have "hop_inv q h'" using Cons.prems(1) h' by (rule on_trace_inv)
  moreover have "receivedIPs h' = stars (nat (q - waiting h')) \<and> \<not> reached h'"
    using on_trace_timeout [OF h'] Cons.prems by simp
  ultimately show ?case using Cons h' by (auto split: if_splits)
qed auto

text \<open>C27: a reader left running steals replies: during a hop whose packets are all read by readers of earlier hops,
  nothing that arrives counts, whatever it is; even if every probe was answered, the hop ends with its timers,
  every probe counts as timed out, and the line printed is stars.\<close>

theorem stolen_replies_time_out:
  assumes "0 < q" and "q < 65536" and "first \<le> ttl" and "(ttl - first) * q + q \<le> 65536"
    and "\<forall>i < nat q. sent ttl i" and "\<forall>e \<in> set (inputs ttl). unseen ttl e"
    and "\<forall>n \<in> set (armed q ttl first (sent ttl) (clock ttl)). TimerFired n \<in> set (inputs ttl)"
  shows "\<exists>h. run_hop_inputs m ident q first sent clock inputs ttl = Inr (Complete h) \<and>
    timed_out (results h) = nat q \<and>
    render_hop ms (receivedIPs h) = concat (replicate (nat q) ''*  '') @ [CHR 0x0A]"
proof -
  obtain rs where rs: "hop_results m ident q first ttl (inputs ttl) = Inr rs" "\<forall>r \<in> set rs. State r = TIMEOUT"
    "\<forall>n. TimerFired n \<in> set (inputs ttl) \<longrightarrow> (\<exists>r \<in> set rs. ID r = n)"
    using hop_results_unseen [OF assms(1,6)] by blast
  have "\<forall>n \<in> set (armed q ttl first (sent ttl) (clock ttl)). \<exists>res \<in> set rs. ID res = n \<and> State res \<noteq> WAITING"
    using assms(7) rs(2,3) by fastforce
  from hop_ends [OF assms(1-5) this] obtain h where
    h: "run_hop q ttl first (sent ttl) (clock ttl) rs \<in> {Inr (Complete h), Inr (Abandoned h)}" by blast
  let ?h0 = "start_hop q ttl first (sent ttl) (clock ttl)"
  obtain e where e: "collect q ?h0 rs = Inr e" "e = Complete h \<or> e = Abandoned h"
    using h assms(1) by (auto simp: run_hop_def)
  have start: "hop_inv q ?h0" using assms(1) by (simp add: start_hop_inv)
  have "receivedIPs ?h0 = stars (nat (q - waiting ?h0))" "\<not> reached ?h0"
    by (simp_all add: start_hop_def stars_def)
  from collect_timeouts [OF start this rs(2) e(1)] e(2)
  have stars: "receivedIPs h = stars (nat (q - waiting h))" "\<not> reached h" by auto
  note inv = collect_inv [OF start e(1)]
  then have complete: "e = Complete h" "hop_inv q h" "waiting h = 0" using e(2) stars(2) by auto
  then have ips: "receivedIPs h = [(''*'', replicate (nat q) MinusOne)]"
    using stars(1) assms(1) by (simp add: stars_def)
  then have "timed_out (results h) = nat q" using complete(2) by (simp add: hop_inv_def all_samples_def)
  then show ?thesis using e(1) complete(1) rs(1) assms(1) ips
    by (intro exI [of _ h]) (simp add: run_hop_inputs_def run_hop_def render_hop_def)
qed

theorem stolen_replies_time_out_witness:
  "\<exists>h. run_hop_inputs False 7 1 1 (\<lambda>ttl i. True) (\<lambda>ttl i. 0)
      (\<lambda>ttl. [PacketRead 2 5 (demo_header @ icmp_octets 11 0 0 0 0 (demo_header @ udp_octets 5000 33436 18 0 [])),
              TimerFired 2]) 3 = Inr (Complete h) \<and> timed_out (results h) = 1"
  using stolen_replies_time_out [of 1 1 3 "\<lambda>ttl i. True" "\<lambda>ttl. [PacketRead 2 5 (demo_header @ icmp_octets 11 0 0 0 0
      (demo_header @ udp_octets 5000 33436 18 0 [])), TimerFired 2]" "\<lambda>ttl i. 0" False 7]
  by (auto simp: armed_def send_loop_timers probe_id_def)

section \<open>A hop that its router answers\<close>

lemma send_loop_other:
  "i \<notin> set is \<Longrightarrow> fst (send_loop q ttl first sent clock is rt) ! i = fst rt ! i"
  by (induction q ttl first sent clock "is" rt rule: send_loop.induct) auto

lemma send_loop_entry:
  "i \<in> set is \<Longrightarrow> distinct is \<Longrightarrow> sent i \<Longrightarrow> i < length (fst rt) \<Longrightarrow>
    SendTime (fst (send_loop q ttl first sent clock is rt) ! i) = clock i"
proof (induction q ttl first sent clock "is" rt rule: send_loop.induct)
  case (2 q ttl first sent clock i' "is" rs ts)
  then show ?case using send_loop_other [of i "is" q ttl first sent clock] by (cases "i = i'") auto
qed simp

definition source_of :: "byte list \<Rightarrow> ip" where
  "source_of outer = IPv4 (outer ! 12) (outer ! 13) (outer ! 14) (outer ! 15)"

text \<open>
  What the reader's hop is told of probe \<open>i\<close> at the time \<open>now\<close> by the router with the address \<open>ip\<close>.
\<close>

definition router_reply :: "ip \<Rightarrow> int \<Rightarrow> int \<Rightarrow> int \<Rightarrow> nat \<times> int \<Rightarrow> TraceData" where
  "router_reply ip q ttl first = (\<lambda>(i, now). \<lparr> State = RECEIVED_NOT_ARRIVE, ID = probe_id q ttl first i,
     SendTime = 0, ReceiveTime = now, IP = ip \<rparr>)"

text \<open>
  A time-exceeded message for probe \<open>i\<close> of a hop in UDP mode: an IP header with the router's address, an ICMP header
  of type 11, and the quoted probe, an IP header and a UDP header to the probe's port. Every other field,
  the probe's source port, length and checksum among them, and what follows, is arbitrary.
\<close>

definition exceeded :: "int \<Rightarrow> int \<Rightarrow> int \<Rightarrow> ip \<Rightarrow> nat \<Rightarrow> byte list \<Rightarrow> bool" where
  "exceeded q ttl first ip i packet \<longleftrightarrow>
     (\<exists>outer code chk b0 b1 inner sport len sum extra. length outer = 20 \<and> source_of outer = ip \<and> length inner = 20 \<and>
        packet = outer @ icmp_octets 11 code chk b0 b1
          (inner @ udp_octets sport (word_of_int (33434 + (ttl - first) * q + int i)) len sum extra))"

lemma read_exceeded:
  assumes "exceeded q ttl first ip i packet" and "0 < q" and "first \<le> ttl" and "int i < q"
    and "33434 + (ttl - first) * q + int i < 65536"
  shows "read_trace False ident q ttl first now packet = Inr (Some (router_reply ip q ttl first (i, now)))"
proof -
  let ?dport = "word_of_int (33434 + (ttl - first) * q + int i) :: u16"
  obtain outer code chk b0 b1 inner sport len sum extra where p: "length outer = 20" "source_of outer = ip" "length inner = 20"
    "packet = outer @ icmp_octets 11 code chk b0 b1 (inner @ udp_octets sport ?dport len sum extra)"
    using assms(1) unfolding exceeded_def by blast
  have n: "0 \<le> (ttl - first) * q + int i" using assms(2-4) by simp
  then have "uint ?dport = 33434 + (ttl - first) * q + int i" using assms(5) by (intro uint_u16_of_int) simp_all
  then have port: "33434 \<le> ?dport" using n by (simp add: word_le_def)
  have id: "?dport - 33434 = probe_id q ttl first i" by (simp add: probe_id_def algebra_simps)
  have "tdiv (uint (probe_id q ttl first i)) q = ttl - first"
    using assms(2-5) by (intro conjunct2 [OF probe_number]) simp_all
  then show ?thesis using assms(2) p(2)
    unfolding p(4) read_trace_udp [OF p(1,3) port] id
    by (simp add: match_reply_def reply_state_def zero_TraceData_def router_reply_def source_of_def)
qed

text \<open>An input that brings the hop nothing: another hop's reader takes it, or the hop's own does not want it.\<close>

fun ignored :: "bool \<Rightarrow> u16 \<Rightarrow> int \<Rightarrow> int \<Rightarrow> int \<Rightarrow> hop_input \<Rightarrow> bool" where
  "ignored m ident q first ttl (TimerFired n) \<longleftrightarrow> False"
| "ignored m ident q first ttl (PacketRead reader now packet) \<longleftrightarrow>
     reader \<noteq> ttl \<or> read_trace m ident q reader first now packet = Inr None"

lemma hop_results_total: "q \<noteq> 0 \<Longrightarrow> \<exists>rs. hop_results m ident q first ttl es = Inr rs"
proof (induction es)
  case (Cons e es)
  then show ?case
  proof (cases e)
    case (PacketRead reader now packet)
    then show ?thesis using Cons read_trace_total [of q m ident reader first now packet] by auto
  qed auto
qed simp

lemma hop_results_append:
  "hop_results m ident q first ttl es = Inr rs \<Longrightarrow> hop_results m ident q first ttl es' = Inr rs' \<Longrightarrow>
    hop_results m ident q first ttl (es @ es') = Inr (rs @ rs')"
proof (induction es arbitrary: rs)
  case (Cons e es)
  then show ?case by (cases e) (auto split: sum.splits option.splits if_splits)
qed simp

lemma hop_results_filter:
  "q \<noteq> 0 \<Longrightarrow> hop_results m ident q first ttl (filter (\<lambda>e. \<not> ignored m ident q first ttl e) es) =
    hop_results m ident q first ttl es"
proof (induction es)
  case (Cons e es)
  then show ?case
  proof (cases e)
    case (PacketRead reader now packet)
    then show ?thesis using Cons read_trace_total [of q m ident reader first now packet] by (auto split: sum.splits)
  qed auto
qed simp

lemma collect_complete_append: "collect q h xs = Inr (Complete h') \<Longrightarrow> collect q h (xs @ ys) = Inr (Complete h')"
  by (induction xs arbitrary: h) (auto split: sum.splits if_splits)

text \<open>Replies to distinct probes that wait complete the hop, with one sample each for the router.\<close>

lemma collect_router:
  assumes "first \<le> ttl" and "0 < q" and "q < 65536" and "(ttl - first) * q + q \<le> 65536"
  shows "ps \<noteq> [] \<Longrightarrow> distinct (map fst ps) \<Longrightarrow> \<forall>(i, now) \<in> set ps. i < nat q \<and> State (results h ! i) = WAITING \<and>
      SendTime (results h ! i) = clock i \<Longrightarrow> length (results h) = nat q \<Longrightarrow> waiting h = int (length ps) \<Longrightarrow> \<not> reached h \<Longrightarrow>
    receivedIPs h = (if vs = [] then [] else [(ip_string ip, vs)]) \<Longrightarrow>
    \<exists>h'. collect q h (map (router_reply ip q ttl first) ps) = Inr (Complete h') \<and>
      receivedIPs h' = [(ip_string ip, vs @ map (\<lambda>(i, now). Elapsed (now - clock i)) ps)]"
proof (induction ps arbitrary: h vs)
  case (Cons p ps)
  obtain i now where p: "p = (i, now)" by (cases p)
  have i: "i < nat q" "State (results h ! i) = WAITING" "SendTime (results h ! i) = clock i"
    using Cons.prems(3) p by auto
  have index: "unat (probe_id q ttl first i mod word_of_int q) = i"
    using probe_index [OF assms(1) i(1) assms(4)] assms(2,3) by (simp add: unat_mod_u16)
  have q: "word_of_int q \<noteq> (0 :: u16)" using assms(2,3) uint_u16_of_int [of q] by auto
  let ?h = "h\<lparr> waiting := waiting h - 1,
      results := (results h)[i := (results h ! i)\<lparr> State := RECEIVED_NOT_ARRIVE, ReceiveTime := now \<rparr>],
      receivedIPs := [(ip_string ip, vs @ [Elapsed (now - clock i)])] \<rparr>"
  have step: "on_trace q h (router_reply ip q ttl first p) = Inr ?h"
    using i q index Cons.prems(4,6,7) by (simp add: on_trace_def router_reply_def p)
  show ?case
  proof (cases "ps = []")
    case True
    then show ?thesis using step Cons.prems(5) p by simp
  next
    case False
    have "i \<noteq> fst x" if "x \<in> set ps" for x using that Cons.prems(2) p by force
    then have "\<forall>x \<in> set ps. results ?h ! fst x = results h ! fst x" by simp
    moreover have "\<forall>(j, now) \<in> set ps. j < nat q \<and> State (results h ! j) = WAITING \<and> SendTime (results h ! j) = clock j"
      using Cons.prems(3) by simp
    ultimately have waiting: "\<forall>(j, now) \<in> set ps. j < nat q \<and> State (results ?h ! j) = WAITING \<and> SendTime (results ?h ! j) = clock j"
      by (simp add: case_prod_beta)
    have "\<exists>h'. collect q ?h (map (router_reply ip q ttl first) ps) = Inr (Complete h') \<and>
        receivedIPs h' = [(ip_string ip, (vs @ [Elapsed (now - clock i)]) @ map (\<lambda>(i, now). Elapsed (now - clock i)) ps)]"
      using Cons.prems(2,4-6) by (intro Cons.IH False waiting) simp_all
    then show ?thesis using step Cons.prems(5,6) False p by simp
  qed
qed simp

lemma star_is_no_address: "ip_string (source_of outer) \<noteq> ''*''"
proof -
  have "IPv4 a b c d \<noteq> []" for a b c d by (simp add: IPv4_def)
  then have "\<exists>a b c d. ip_string (source_of outer) = dotted [a, b, c, d]"
    by (auto simp: source_of_def ip_string_def)
  then have "length (ip_string (source_of outer)) \<noteq> 1" by (auto simp: dotted_def)
  then show ?thesis by auto
qed

text \<open>C8: what a hop prints when its router answers: in UDP mode, when every probe was sent and the hop's own reader
  gets a time-exceeded message from the router for each of them, in any order, among whatever packets it does not
  want or other hops' readers take, and before a timer fires, then the collection completes, whatever comes later, and
  the line that the hop prints, when its reader has taken the stop signal, is its number, the router's address once, and
  in the order of arrival each probe's time in milliseconds from its sending to its answer. Nothing is assumed of
  the quoted source ports, lengths and checksums. That the reader does take the signal is hop_completes of TraceHop.\<close>

theorem hop_reports_router:
  assumes "0 < q" and "first \<le> ttl" and "33434 + (ttl - first) * q + q \<le> 65536"
    and "\<forall>i < nat q. sent ttl i" and "\<forall>i < nat q. exceeded q ttl first ip i (packet i)"
    and "distinct (map fst ps)" and "set (map fst ps) = {..<nat q}"
    and "inputs ttl = early @ late"
    and "filter (\<lambda>e. \<not> ignored False ident q first ttl e) early = map (\<lambda>(i, now). PacketRead ttl now (packet i)) ps"
  shows "\<exists>h. run_hop_inputs False ident q first sent clock inputs ttl = Inr (Complete h) \<and>
    receivedIPs h = [(ip_string ip, map (\<lambda>(i, now). Elapsed (now - clock ttl i)) ps)] \<and>
    hop_line ttl (Complete h) = ttl_text ttl @ ip_string ip @ ''  '' @
      concat (map (\<lambda>(i, now). ms_text (now - clock ttl i)) ps) @ [CHR 0x0A]"
proof -
  have q: "q < 65536" "(ttl - first) * q + q \<le> 65536" "q \<noteq> 0"
    using assms(1-3) mult_nonneg_nonneg [of "ttl - first" q] by linarith+
  have range: "i < nat q" if "(i, now) \<in> set ps" for i now
    using that assms(7) by (metis fst_conv image_eqI lessThan_iff list.set_map)
  have "hop_results False ident q first ttl (map (\<lambda>(i, now). PacketRead ttl now (packet i)) xs) =
      Inr (map (router_reply ip q ttl first) xs)" if "set xs \<subseteq> set ps" for xs
    using that
  proof (induction xs)
    case (Cons x xs)
    obtain i now where x: "x = (i, now)" by (cases x)
    then have i: "i < nat q" using Cons.prems range [of i now] by simp
    then have "read_trace False ident q ttl first now (packet i) = Inr (Some (router_reply ip q ttl first (i, now)))"
      using assms(1-3,5) by (intro read_exceeded) auto
    then show ?case using Cons x by simp
  qed simp
  then have "hop_results False ident q first ttl early = Inr (map (router_reply ip q ttl first) ps)"
    using hop_results_filter [OF q(3), of False ident first ttl early] assms(9) by simp
  moreover obtain rs where "hop_results False ident q first ttl late = Inr rs" using hop_results_total [OF q(3)] by blast
  ultimately have results: "hop_results False ident q first ttl (inputs ttl) = Inr (map (router_reply ip q ttl first) ps @ rs)"
    unfolding assms(8) by (rule hop_results_append)
  let ?h = "start_hop q ttl first (sent ttl) (clock ttl)"
  have entries: "\<forall>(i, now) \<in> set ps. i < nat q \<and> State (results ?h ! i) = WAITING \<and> SendTime (results ?h ! i) = clock ttl i"
    using start_hop_waiting [of q ttl first "sent ttl" "clock ttl"] range assms(4)
    by (auto simp: start_hop_def send_loop_entry)
  have "length ps = nat q" using assms(6,7) distinct_card [OF assms(6)] by simp
  then have n: "waiting ?h = int (length ps)" "ps \<noteq> []" using assms(1) by (auto simp: start_hop_def)
  from collect_router [OF assms(2,1) q(1,2) n(2) assms(6) entries _ n(1), of "[]" ip] obtain h where
    h: "collect q ?h (map (router_reply ip q ttl first) ps) = Inr (Complete h)"
    "receivedIPs h = [(ip_string ip, map (\<lambda>(i, now). Elapsed (now - clock ttl i)) ps)]"
    using start_hop_waiting [of q ttl first "sent ttl" "clock ttl"] by (auto simp: start_hop_def)
  have "ip_string ip \<noteq> ''*''" 
  proof -
    have "exceeded q ttl first ip 0 (packet 0)" using assms(1,5) by simp
    then show ?thesis using star_is_no_address unfolding exceeded_def by blast
  qed
  then have "hop_line ttl (Complete h) = ttl_text ttl @ ip_string ip @ ''  '' @
      concat (map (\<lambda>(i, now). ms_text (now - clock ttl i)) ps) @ [CHR 0x0A]"
    by (simp add: h(2) render_hop_def comp_def case_prod_unfold)
  then show ?thesis using assms(1) results h collect_complete_append [OF h(1)]
    by (simp add: run_hop_inputs_def run_hop_def)
qed

definition demo_exceeded :: "u16 \<Rightarrow> u16 \<Rightarrow> byte list" where
  "demo_exceeded sport dport = demo_header @ icmp_octets 11 0 27 0 0 (demo_header @ udp_octets sport dport 18 99 [116])"

lemma exceeded_demo:
  "dport = word_of_int (33434 + (ttl - first) * q + int i) \<Longrightarrow>
    exceeded q ttl first (IPv4 10 0 0 1) i (demo_exceeded sport dport)"
  unfolding exceeded_def demo_exceeded_def
  by (intro exI [of _ demo_header] exI conjI) (simp_all add: source_of_def demo_header_def)

theorem hop_reports_router_witness:
  "\<exists>h. run_hop_inputs False 7 2 1 (\<lambda>ttl i. True) (\<lambda>ttl i. 1000000 * int i)
      (\<lambda>ttl. [PacketRead 3 13045600 (demo_exceeded 40001 33439), PacketRead 2 14000000 [], PacketRead 3 14567890 (demo_exceeded 51234 33438),
        TimerFired 4]) 3 = Inr (Complete h) \<and>
     hop_line 3 (Complete h) = '' 3  10.0.0.1  12.046 ms  14.568 ms  '' @ [CHR 0x0A]"
proof -
  have printed: "ip_string [10, 0, 0, 1] = ''10.0.0.1''" "ttl_text 3 = '' 3  ''"
    "ms_text 12045600 = ''12.046 ms  ''" "ms_text 14567890 = ''14.568 ms  ''" by code_simp+
  have ex: "exceeded 2 3 1 (IPv4 10 0 0 1) 0 (demo_exceeded 51234 33438)"
    "exceeded 2 3 1 (IPv4 10 0 0 1) 1 (demo_exceeded 40001 33439)" by (simp_all add: exceeded_demo)
  have wanted: "read_trace False 7 2 3 1 now (demo_exceeded 51234 33438) \<noteq> Inr None"
    "read_trace False 7 2 3 1 now (demo_exceeded 40001 33439) \<noteq> Inr None" for now
    using read_exceeded [OF ex(1), of 7 now] read_exceeded [OF ex(2), of 7 now] by simp_all
  have two: "i < 2 \<longleftrightarrow> i = 0 \<or> i = Suc 0" for i :: nat by auto
  have "\<exists>h. run_hop_inputs False 7 2 1 (\<lambda>ttl i. True) (\<lambda>ttl i. 1000000 * int i)
      (\<lambda>ttl. [PacketRead 3 13045600 (demo_exceeded 40001 33439), PacketRead 2 14000000 [], PacketRead 3 14567890 (demo_exceeded 51234 33438),
        TimerFired 4]) 3 = Inr (Complete h) \<and>
    receivedIPs h = [(ip_string (IPv4 10 0 0 1), map (\<lambda>(i, now). Elapsed (now - 1000000 * int i)) [(1, 13045600), (0, 14567890)])] \<and>
    hop_line 3 (Complete h) = ttl_text 3 @ ip_string (IPv4 10 0 0 1) @ ''  '' @
      concat (map (\<lambda>(i, now). ms_text (now - 1000000 * int i)) [(1, 13045600), (0, 14567890)]) @ [CHR 0x0A]"
    by (rule hop_reports_router [where packet = "\<lambda>i. if i = 0 then demo_exceeded 51234 33438 else demo_exceeded 40001 33439"
          and early = "[PacketRead 3 13045600 (demo_exceeded 40001 33439), PacketRead 2 14000000 [], PacketRead 3 14567890 (demo_exceeded 51234 33438)]"
          and late = "[TimerFired 4]"])
      (auto simp: lessThan_nat_numeral lessThan_Suc ex ex [unfolded One_nat_def] wanted two)
  then show ?thesis by (auto simp: printed)
qed

end
