(* ===== verification/TraceHop.thy ===== *)
theory TraceHop
  imports Traceroute
begin

text \<open>
  A hop of \<^verbatim>\<open>code/traceroute/main.go\<close> as its goroutines run: the reader, the timers of the probes and the
  collecting loop, the channel \<^verbatim>\<open>resultChan\<close> between them, which holds \<^verbatim>\<open>nqueries*2\<close> results, and the
  unbuffered channel \<^verbatim>\<open>stop\<close> on which the collecting loop waits for the reader. When a hop ends, and
  when it never does. The start is the moment when all probes are sent: until then the main goroutine
  leaves the channel alone, and what the others do before can be done after it as well.
\<close>

section \<open>The goroutines\<close>

text \<open>
  Where the reader is: at its \<^verbatim>\<open>select\<close>, in \<^verbatim>\<open>conn.Read\<close>, at the send of a result, or returned. Where the
  main goroutine is: at \<^verbatim>\<open><-resultChan\<close>, at the send on \<^verbatim>\<open>stop\<close>, after the printing of the hop, out of the
  loop because the destination was reached, or in a panic.
\<close>

datatype reader_at = Selecting | Reading | Sending TraceData | Stopped

datatype main_at = Collecting | Stopping | Printed | Left | Crashed go_panic

text \<open>
  \<open>timers\<close>: the probes whose time-out was not yet put into the channel; \<open>replies\<close> and \<open>taken\<close>, not part of the
  program: how many results the reader made, and the results that the main goroutine took.
\<close>

record hop_sys =
  resultChan :: "TraceData list"
  reader :: reader_at
  timers :: "u16 list"
  main :: main_at
  hop_of :: hop
  replies :: nat
  taken :: "TraceData list"

definition time_out :: "u16 \<Rightarrow> TraceData" where
  "time_out n = zero_TraceData\<lparr> State := TIMEOUT, ID := n \<rparr>"

definition start_sys :: "int \<Rightarrow> int \<Rightarrow> int \<Rightarrow> (nat \<Rightarrow> bool) \<Rightarrow> (nat \<Rightarrow> int) \<Rightarrow> hop_sys" where
  "start_sys nqueries ttl first_ttl sent clock = \<lparr> resultChan = [], reader = Selecting,
     timers = armed nqueries ttl first_ttl sent clock, main = Collecting,
     hop_of = start_hop nqueries ttl first_ttl sent clock, replies = 0, taken = [] \<rparr>"

text \<open>Where the main goroutine is after a result: the tests after the \<^verbatim>\<open>switch\<close>.\<close>

definition after_result :: "hop \<Rightarrow> main_at" where
  "after_result h = (if waiting h = 0 then Stopping else if reached h then Left else Collecting)"

text \<open>
  \<open>Poll\<close>: the reader goes round its loop without a result; the \<^verbatim>\<open>select\<close> takes its default only when nobody
  waits at \<^verbatim>\<open>stop\<close>. \<open>Arrival\<close>: the network delivers a packet that the reader accepts. \<open>Work\<close>: any other step.
\<close>

datatype step_kind = Poll | Arrival | Work

inductive hop_step :: "bool \<Rightarrow> u16 \<Rightarrow> int \<Rightarrow> int \<Rightarrow> int \<Rightarrow> step_kind \<Rightarrow> hop_sys \<Rightarrow> hop_sys \<Rightarrow> bool"
  for icmp_mode :: bool and ident :: u16 and nqueries :: int and ttl :: int and first_ttl :: int where
  enter_read: "\<lbrakk> reader y = Selecting; main y \<noteq> Stopping \<rbrakk> \<Longrightarrow>
    hop_step icmp_mode ident nqueries ttl first_ttl Poll y (y\<lparr> reader := Reading \<rparr>)"
| read_nothing: "reader y = Reading \<Longrightarrow>
    hop_step icmp_mode ident nqueries ttl first_ttl Poll y (y\<lparr> reader := Selecting \<rparr>)"
| read_reply: "\<lbrakk> reader y = Reading; read_trace icmp_mode ident nqueries ttl first_ttl now packet = Inr (Some r) \<rbrakk> \<Longrightarrow>
    hop_step icmp_mode ident nqueries ttl first_ttl Arrival y (y\<lparr> reader := Sending r, replies := Suc (replies y) \<rparr>)"
| read_panics: "\<lbrakk> reader y = Reading; read_trace icmp_mode ident nqueries ttl first_ttl now packet = Inl p \<rbrakk> \<Longrightarrow>
    hop_step icmp_mode ident nqueries ttl first_ttl Arrival y (y\<lparr> main := Crashed p \<rparr>)"
| send_reply: "\<lbrakk> reader y = Sending r; int (length (resultChan y)) < nqueries * 2 \<rbrakk> \<Longrightarrow>
    hop_step icmp_mode ident nqueries ttl first_ttl Work y
      (y\<lparr> resultChan := resultChan y @ [r], reader := Selecting \<rparr>)"
| timer_fires: "\<lbrakk> n \<in> set (timers y); int (length (resultChan y)) < nqueries * 2 \<rbrakk> \<Longrightarrow>
    hop_step icmp_mode ident nqueries ttl first_ttl Work y
      (y\<lparr> resultChan := resultChan y @ [time_out n], timers := remove1 n (timers y) \<rparr>)"
| take: "\<lbrakk> main y = Collecting; resultChan y = res # rest; on_trace nqueries (hop_of y) res = Inr h \<rbrakk> \<Longrightarrow>
    hop_step icmp_mode ident nqueries ttl first_ttl Work y
      (y\<lparr> resultChan := rest, main := after_result h, hop_of := h, taken := taken y @ [res] \<rparr>)"
| take_panics: "\<lbrakk> main y = Collecting; resultChan y = res # rest; on_trace nqueries (hop_of y) res = Inl p \<rbrakk> \<Longrightarrow>
    hop_step icmp_mode ident nqueries ttl first_ttl Work y (y\<lparr> resultChan := rest, main := Crashed p \<rparr>)"
| stop: "\<lbrakk> main y = Stopping; reader y = Selecting \<rbrakk> \<Longrightarrow>
    hop_step icmp_mode ident nqueries ttl first_ttl Work y (y\<lparr> reader := Stopped, main := Printed \<rparr>)"

text \<open>The states that a hop can come to, with the number of its working steps.\<close>

inductive hop_run :: "bool \<Rightarrow> u16 \<Rightarrow> int \<Rightarrow> int \<Rightarrow> int \<Rightarrow> (nat \<Rightarrow> bool) \<Rightarrow> (nat \<Rightarrow> int) \<Rightarrow> nat \<Rightarrow> hop_sys \<Rightarrow> bool"
  for icmp_mode :: bool and ident :: u16 and nqueries :: int and ttl :: int and first_ttl :: int
    and sent :: "nat \<Rightarrow> bool" and clock :: "nat \<Rightarrow> int" where
  start: "hop_run icmp_mode ident nqueries ttl first_ttl sent clock 0 (start_sys nqueries ttl first_ttl sent clock)"
| step: "\<lbrakk> hop_run icmp_mode ident nqueries ttl first_ttl sent clock n y;
      hop_step icmp_mode ident nqueries ttl first_ttl k y z \<rbrakk> \<Longrightarrow>
    hop_run icmp_mode ident nqueries ttl first_ttl sent clock (if k = Work then Suc n else n) z"

definition ended :: "hop_sys \<Rightarrow> bool" where
  "ended y \<longleftrightarrow> main y = Printed \<or> main y = Left"

text \<open>Without a packet from the network, a working step is possible at once or after one poll.\<close>

definition can_work :: "bool \<Rightarrow> u16 \<Rightarrow> int \<Rightarrow> int \<Rightarrow> int \<Rightarrow> hop_sys \<Rightarrow> bool" where
  "can_work icmp_mode ident nqueries ttl first_ttl y \<longleftrightarrow>
     (\<exists>z. hop_step icmp_mode ident nqueries ttl first_ttl Work y z) \<or>
     (\<exists>z u. hop_step icmp_mode ident nqueries ttl first_ttl Poll y z \<and>
        hop_step icmp_mode ident nqueries ttl first_ttl Work z u)"

text \<open>What the loop over the hops makes of it.\<close>

definition hop_outcome :: "hop_sys \<Rightarrow> go_panic + hop_end" where
  "hop_outcome y = (case main y of
       Printed \<Rightarrow> Inr (Complete (hop_of y))
     | Left \<Rightarrow> Inr (Abandoned (hop_of y))
     | Crashed p \<Rightarrow> Inl p
     | _ \<Rightarrow> Inr (Blocked (hop_of y)))"

section \<open>The collecting loop\<close>

lemma collect_append: "collect q h xs = Inr (Blocked h') \<Longrightarrow> collect q h (xs @ ys) = collect q h' ys"
  by (induction xs arbitrary: h) (auto split: sum.splits if_splits)

text \<open>Every run takes results the way \<open>collect\<close> does, whatever the other goroutines do.\<close>

lemma hop_run_collect:
  assumes "hop_run m ident q ttl first sent clock n y"
  shows "case main y of
      Collecting \<Rightarrow> collect q (start_hop q ttl first sent clock) (taken y) = Inr (Blocked (hop_of y))
    | Stopping \<Rightarrow> collect q (start_hop q ttl first sent clock) (taken y) = Inr (Complete (hop_of y))
    | Printed \<Rightarrow> collect q (start_hop q ttl first sent clock) (taken y) = Inr (Complete (hop_of y))
    | Left \<Rightarrow> collect q (start_hop q ttl first sent clock) (taken y) = Inr (Abandoned (hop_of y))
    | Crashed p \<Rightarrow> True"
  using assms
proof (induction rule: hop_run.induct)
  case (step n y k z)
  from step.hyps(2) step.IH show ?case
    by (induction rule: hop_step.induct)
      (auto simp: after_result_def collect_append split: main_at.splits)
qed (simp add: start_sys_def)

section \<open>Progress\<close>

definition pending :: "reader_at \<Rightarrow> nat" where
  "pending a = (case a of Sending _ \<Rightarrow> 1 | _ \<Rightarrow> 0)"

text \<open>The one state in which a hop stands still: the main goroutine waits at \<^verbatim>\<open>stop\<close> for the reader, which
  waits for room in the channel that only the main goroutine empties.\<close>

definition stuck :: "int \<Rightarrow> hop_sys \<Rightarrow> bool" where
  "stuck nqueries y \<longleftrightarrow> main y = Stopping \<and> nqueries * 2 \<le> int (length (resultChan y)) \<and> pending (reader y) = 1"

text \<open>Every probe that waits has a time-out coming.\<close>

definition timed :: "int \<Rightarrow> int \<Rightarrow> int \<Rightarrow> hop_sys \<Rightarrow> bool" where
  "timed q ttl first y \<longleftrightarrow> (\<forall>i < nat q. State (results (hop_of y) ! i) = WAITING \<longrightarrow>
     probe_id q ttl first i \<in> set (timers y) \<or> time_out (probe_id q ttl first i) \<in> set (resultChan y))"

definition hop_good :: "int \<Rightarrow> int \<Rightarrow> int \<Rightarrow> nat \<Rightarrow> hop_sys \<Rightarrow> bool" where
  "hop_good q ttl first n y \<longleftrightarrow> hop_inv q (hop_of y) \<and> timed q ttl first y \<and>
     (case main y of Collecting \<Rightarrow> 0 < waiting (hop_of y) | Crashed p \<Rightarrow> False | Left \<Rightarrow> True
      | _ \<Rightarrow> waiting (hop_of y) = 0) \<and>
     (reader y = Stopped \<longleftrightarrow> main y = Printed) \<and>
     length (resultChan y) + length (timers y) + pending (reader y) + length (taken y) = replies y + nat q \<and>
     q \<le> waiting (hop_of y) + int (length (taken y)) \<and>
     n + 2 * pending (reader y) + length (resultChan y) + 2 * length (timers y) + (if ended y then 0 else 1)
       \<le> 2 * replies y + 2 * nat q + 1"

lemma on_trace_waiting:
  assumes "on_trace q h res = Inr h'" shows "waiting h \<le> waiting h' + 1"
  using assms by (cases rule: on_trace_cases) auto

lemma timed_take:
  assumes "timed q ttl first y" and "on_trace q (hop_of y) res = Inr h" and "resultChan y = res # rest"
    and "0 < q" and "q < 65536" and "first \<le> ttl" and "(ttl - first) * q + q \<le> 65536" and "hop_inv q (hop_of y)"
  shows "timed q ttl first (y\<lparr> resultChan := rest, main := m, hop_of := h, taken := ts \<rparr>)"
proof (unfold timed_def, intro allI impI)
  fix i
  assume i: "i < nat q"
    and w: "State (results (hop_of (y\<lparr> resultChan := rest, main := m, hop_of := h, taken := ts \<rparr>)) ! i) = WAITING"
  have len: "i < length (results (hop_of y))" using assms(8) i by (simp add: hop_inv_def)
  have w': "State (results (hop_of y) ! i) = WAITING" "State res \<noteq> WAITING \<longrightarrow> unat (ID res) mod nat q \<noteq> i"
    using on_trace_entry [OF assms(2,4,5) len] w by simp_all
  have "res \<noteq> time_out (probe_id q ttl first i)"
    using w'(2) probe_index [OF assms(6) i assms(7)] by (auto simp: time_out_def)
  then show "probe_id q ttl first i \<in> set (timers (y\<lparr> resultChan := rest, main := m, hop_of := h, taken := ts \<rparr>)) \<or>
      time_out (probe_id q ttl first i) \<in> set (resultChan (y\<lparr> resultChan := rest, main := m, hop_of := h, taken := ts \<rparr>))"
    using assms(1,3) i w'(1) by (auto simp: timed_def)
qed

lemma timed_fires:
  "timed q ttl first y \<Longrightarrow> timed q ttl first (y\<lparr> resultChan := resultChan y @ [time_out n], timers := remove1 n (timers y) \<rparr>)"
  by (auto simp: timed_def) (metis in_set_remove1)

lemma hop_good_start:
  assumes "0 < q" and "\<forall>i < nat q. sent i"
  shows "hop_good q ttl first 0 (start_sys q ttl first sent clock)"
proof -
  have "armed q ttl first sent clock = map (probe_id q ttl first) [0..<nat q]"
    using assms(2) by (simp add: armed_def send_loop_timers filter_id_conv)
  moreover have "waiting (start_hop q ttl first sent clock) = q" by (simp add: start_hop_def)
  ultimately show ?thesis
    using assms(1) start_hop_inv [of q ttl first sent clock]
    by (simp add: hop_good_def start_sys_def timed_def pending_def ended_def)
qed

lemma hop_good_step:
  assumes "hop_step m ident q ttl first k y z" and "hop_good q ttl first n y"
    and "0 < q" and "q < 65536" and "first \<le> ttl" and "(ttl - first) * q + q \<le> 65536"
  shows "hop_good q ttl first (if k = Work then Suc n else n) z"
  using assms(1)
proof cases
  case enter_read
  then show ?thesis using assms(2) by (auto simp: hop_good_def timed_def pending_def ended_def split: main_at.splits)
next
  case read_nothing
  then show ?thesis using assms(2) by (auto simp: hop_good_def timed_def pending_def ended_def split: main_at.splits)
next
  case (read_reply now packet r)
  then show ?thesis using assms(2) by (auto simp: hop_good_def timed_def pending_def ended_def split: main_at.splits)
next
  case (read_panics now packet p)
  then show ?thesis using read_trace_total [of q m ident ttl first now packet] assms(3) by auto
next
  case (send_reply r)
  then show ?thesis using assms(2) by (auto simp: hop_good_def timed_def pending_def ended_def split: main_at.splits)
next
  case (timer_fires t)
  then have "length (timers y) = Suc (length (remove1 t (timers y)))"
    by (simp add: length_remove1) (metis Suc_pred length_pos_if_in_set)
  then show ?thesis using timer_fires assms(2) timed_fires [of q ttl first y t]
    by (simp add: hop_good_def ended_def split: main_at.splits)
next
  case (take res rest h)
  have good: "hop_inv q (hop_of y)" "timed q ttl first y" using assms(2) by (simp_all add: hop_good_def)
  have inv: "hop_inv q h" using good(1) take(5) by (rule on_trace_inv)
  then have "0 \<le> waiting h" by (simp add: hop_inv_def)
  then show ?thesis
    using take assms(2) inv on_trace_waiting [OF take(5)] timed_take [OF good(2) take(5,4) assms(3-6) good(1)]
    by (auto simp: hop_good_def after_result_def ended_def)
next
  case (take_panics res rest p)
  then show ?thesis using on_trace_total [of q "hop_of y" res] assms(2-4) by (auto simp: hop_good_def)
next
  case stop
  then show ?thesis using assms(2) by (auto simp: hop_good_def timed_def pending_def ended_def split: main_at.splits)
qed

lemma hop_run_good:
  assumes "hop_run m ident q ttl first sent clock n y"
    and "0 < q" and "q < 65536" and "first \<le> ttl" and "(ttl - first) * q + q \<le> 65536" and "\<forall>i < nat q. sent i"
  shows "hop_good q ttl first n y"
  using assms(1)
proof (induction rule: hop_run.induct)
  case (step n y k z)
  then show ?case using hop_good_step assms(2-5) by blast
qed (use hop_good_start assms(2,6) in blast)

lemma hop_good_can_work:
  assumes "hop_good q ttl first n y" and "0 < q" and "q < 65536" and "\<not> ended y" and "\<not> stuck q y"
  shows "can_work m ident q ttl first y"
proof (cases "main y")
  case Collecting
  then have w: "0 < waiting (hop_of y)" "hop_inv q (hop_of y)" using assms(1) by (simp_all add: hop_good_def)
  show ?thesis
  proof (cases "resultChan y")
    case Nil
    obtain i where "i < nat q" "State (results (hop_of y) ! i) = WAITING"
      using w waiting_entries_pos [of "results (hop_of y)"] by (auto simp: hop_inv_def)
    then have "probe_id q ttl first i \<in> set (timers y)"
      using assms(1) Nil by (auto simp: hop_good_def timed_def)
    then show ?thesis using hop_step.timer_fires [of _ y q] Nil assms(2) unfolding can_work_def by force
  next
    case (Cons res rest)
    then show ?thesis
      using hop_step.take [OF Collecting Cons] on_trace_total [OF w(2) assms(2,3), of res] unfolding can_work_def by metis
  qed
next
  case Stopping
  show ?thesis
  proof (cases "reader y")
    case Selecting
    then show ?thesis using hop_step.stop [OF Stopping] unfolding can_work_def by blast
  next
    case Reading
    have "hop_step m ident q ttl first Poll y (y\<lparr> reader := Selecting \<rparr>)"
      using Reading by (rule hop_step.read_nothing)
    moreover have "hop_step m ident q ttl first Work (y\<lparr> reader := Selecting \<rparr>)
        (y\<lparr> reader := Selecting, reader := Stopped, main := Printed \<rparr>)"
      by (rule hop_step.stop) (simp_all add: Stopping)
    ultimately show ?thesis unfolding can_work_def by blast
  next
    case (Sending r)
    then have "int (length (resultChan y)) < q * 2"
      using assms(5) Stopping by (simp add: stuck_def pending_def)
    then show ?thesis using hop_step.send_reply [OF Sending] unfolding can_work_def by blast
  next
    case Stopped
    then show ?thesis using assms(1) Stopping by (simp add: hop_good_def)
  qed
qed (use assms(1,4) in \<open>auto simp: hop_good_def ended_def\<close>)

lemma stuck_stays: "stuck q y \<Longrightarrow> \<not> ended y \<and> \<not> can_work m ident q ttl first y"
  by (auto simp: stuck_def ended_def can_work_def pending_def elim!: hop_step.cases split: reader_at.splits)

lemma stuck_needs_replies:
  "hop_good q ttl first n y \<Longrightarrow> 0 < q \<Longrightarrow> stuck q y \<Longrightarrow> 2 * q < int (replies y)"
  by (auto simp: hop_good_def stuck_def)

section \<open>Properties\<close>

text \<open>C21: how a hop ends: when every probe of the hop was sent, whatever packets, duplicates included, its reader
  accepts and however the goroutines interleave, the working steps that have happened are at most twice the replies
  plus twice the probes plus one, none of them panics, and the hop has ended, or one more is possible without any
  packet, at once or after one poll, or the hop is stuck at the stop handshake; it gets stuck, which is final, only
  when more replies than the channel holds have arrived.\<close>

theorem hop_completes:
  assumes "0 < q" and "q < 65536" and "first \<le> ttl" and "(ttl - first) * q + q \<le> 65536"
    and "\<forall>i < nat q. sent i"
    and "hop_run m ident q ttl first sent clock n y"
  shows "n \<le> 2 * replies y + 2 * nat q + 1 \<and> (\<forall>p. main y \<noteq> Crashed p) \<and>
    (ended y \<or> can_work m ident q ttl first y \<or> stuck q y) \<and>
    (stuck q y \<longrightarrow> \<not> ended y \<and> \<not> can_work m ident q ttl first y \<and> 2 * q < int (replies y))"
proof -
  have good: "hop_good q ttl first n y" using hop_run_good [OF assms(6,1-5)] .
  have "\<forall>p. main y \<noteq> Crashed p" using good by (auto simp: hop_good_def)
  moreover have "n \<le> 2 * replies y + 2 * nat q + 1" using good by (simp add: hop_good_def)
  ultimately show ?thesis
    using hop_good_can_work [OF good assms(1,2)] stuck_stays stuck_needs_replies [OF good assms(1)] by blast
qed

lemma start_runs: "hop_run m ident q ttl first sent clock 0 (start_sys q ttl first sent clock)"
  by (rule hop_run.start)

theorem hop_completes_witness:
  "can_work False 7 2 3 1 (start_sys 2 3 1 (\<lambda>i. True) (\<lambda>i. 0))"
  using hop_completes [of 2 1 3 "\<lambda>i. True" False 7 "\<lambda>i. 0" 0, OF _ _ _ _ _ start_runs]
  by (auto simp: start_sys_def ended_def stuck_def)

text \<open>C37: the hops together: if in each hop every probe is sent and its reader accepts no more replies than the
  channel holds, then once each hop has come to where it ends or can do nothing more, each of them has ended, and
  the loop has probed all hops from the first to the last and has returned: reaching the destination stops a hop
  early but not the trace.\<close>

theorem trace_runs_to_max_hops:
  assumes "0 < q" and "q < 65536" and "(max_hops - first) * q + q \<le> 65536"
    and "\<forall>ttl \<in> {first..max_hops}. (\<forall>i < nat q. sent ttl i) \<and>
      (\<exists>n. hop_run m ident q ttl first (sent ttl) (clock ttl) n (final ttl)) \<and>
      int (replies (final ttl)) \<le> 2 * q \<and> (ended (final ttl) \<or> \<not> can_work m ident q ttl first (final ttl))"
  shows "\<exists>ends. trace (\<lambda>ttl. hop_outcome (final ttl)) max_hops first = Inr ends \<and>
    map fst ends = [first..max_hops]"
proof (rule trace_covers, intro ballI)
  fix ttl
  assume t: "ttl \<in> {first..max_hops}"
  then have "(ttl - first) * q \<le> (max_hops - first) * q" using assms(1) by (intro mult_right_mono) simp_all
  then have range: "(ttl - first) * q + q \<le> 65536" using assms(3) by linarith
  obtain n where "hop_run m ident q ttl first (sent ttl) (clock ttl) n (final ttl)" using assms(4) t by blast
  then have good: "hop_good q ttl first n (final ttl)"
    using assms(1,2,4) t range by (intro hop_run_good) auto
  have "\<not> stuck q (final ttl)" using stuck_needs_replies [OF good assms(1)] assms(4) t by fastforce
  then have "ended (final ttl)" using hop_good_can_work [OF good assms(1,2)] assms(4) t by blast
  then show "\<exists>h. hop_outcome (final ttl) \<in> {Inr (Complete h), Inr (Abandoned h)}"
    by (auto simp: ended_def hop_outcome_def)
qed

lemma run_poll: "\<lbrakk> hop_run m ident q ttl first sent clock n y; hop_step m ident q ttl first Poll y z \<rbrakk> \<Longrightarrow>
    hop_run m ident q ttl first sent clock n z"
  using hop_run.step by fastforce

lemma run_arrival: "\<lbrakk> hop_run m ident q ttl first sent clock n y; hop_step m ident q ttl first Arrival y z \<rbrakk> \<Longrightarrow>
    hop_run m ident q ttl first sent clock n z"
  using hop_run.step by fastforce

lemma run_work: "\<lbrakk> hop_run m ident q ttl first sent clock n y; hop_step m ident q ttl first Work y z \<rbrakk> \<Longrightarrow>
    hop_run m ident q ttl first sent clock (Suc n) z"
  using hop_run.step by fastforce

text \<open>An accepted packet reaches the channel.\<close>

lemma run_reply:
  assumes "hop_run m ident q ttl first sent clock n y" and "reader y = Selecting" and "main y \<noteq> Stopping"
    and "read_trace m ident q ttl first now packet = Inr (Some r)" and "int (length (resultChan y)) < q * 2"
  shows "hop_run m ident q ttl first sent clock (Suc n)
    (y\<lparr> resultChan := resultChan y @ [r], replies := Suc (replies y) \<rparr>)"
proof -
  have "hop_run m ident q ttl first sent clock n (y\<lparr> reader := Reading \<rparr>)"
    by (rule run_poll [OF assms(1) enter_read]) (use assms in simp_all)
  then have "hop_run m ident q ttl first sent clock n (y\<lparr> reader := Sending r, replies := Suc (replies y) \<rparr>)"
    using run_arrival [OF _ read_reply [OF _ assms(4)]] by fastforce
  then have "hop_run m ident q ttl first sent clock (Suc n)
      (y\<lparr> reader := Sending r, replies := Suc (replies y), resultChan := resultChan y @ [r], reader := Selecting \<rparr>)"
    using run_work [OF _ send_reply [of _ r]] assms(5) by fastforce
  then show ?thesis using assms(2) by (cases y) simp
qed

lemma read_trace_state:
  assumes "read_trace m ident q ttl first now packet = Inr (Some r)"
  shows "State r = RECEIVED \<or> State r = RECEIVED_NOT_ARRIVE"
  using assms by (auto simp: read_trace_def match_reply_def reply_state_def Let_def split: sum.splits if_splits)

text \<open>With one probe, its first result completes the hop.\<close>

lemma one_probe:
  assumes "State res \<noteq> WAITING"
  shows "\<exists>h. on_trace 1 (start_hop 1 ttl first sent clock) res = Inr h \<and> after_result h = Stopping"
proof -
  have "length (results (start_hop 1 ttl first sent clock)) = 1"
    "State (results (start_hop 1 ttl first sent clock) ! 0) = WAITING"
    using start_hop_waiting [of 1 ttl first sent clock] by simp_all
  then show ?thesis using assms
    by (auto simp: on_trace_def Let_def after_result_def) (simp_all add: start_hop_def)
qed

text \<open>One reply more than the bound of \<open>hop_completes\<close> is enough for the deadlock: with one probe per hop, a packet
  that arrives three times stops the program for good, if the time-out of the probe comes before the third copy
  found room.\<close>

lemma hop_deadlocks:
  assumes "read_trace m ident 1 ttl first now packet = Inr (Some r)" and "sent 0"
  shows "\<exists>n y. hop_run m ident 1 ttl first sent clock n y \<and> replies y = 3 \<and> stuck 1 y"
proof -
  let ?y0 = "start_sys 1 ttl first sent clock" and ?t = "probe_id 1 ttl first 0"
  have timers: "timers ?y0 = [?t]" using assms(2) by (simp add: start_sys_def armed_def send_loop_timers)
  let ?y2 = "?y0\<lparr> resultChan := [r, r], replies := 2 \<rparr>"
  have "hop_run m ident 1 ttl first sent clock 1 (?y0\<lparr> resultChan := [r], replies := 1 \<rparr>)"
    using run_reply [OF hop_run.start _ _ assms(1)] by (simp add: start_sys_def)
  then have "hop_run m ident 1 ttl first sent clock 2 ?y2"
    using run_reply [OF _ _ _ assms(1)] by (fastforce simp: start_sys_def numeral_2_eq_2)
  then have "hop_run m ident 1 ttl first sent clock 2 (?y2\<lparr> reader := Reading \<rparr>)"
    by (rule run_poll) (rule enter_read; simp add: start_sys_def)
  then have "hop_run m ident 1 ttl first sent clock 2 (?y2\<lparr> reader := Sending r, replies := 3 \<rparr>)"
    using run_arrival [OF _ read_reply [OF _ assms(1)]] by (fastforce simp: start_sys_def)
  moreover obtain h where h: "on_trace 1 (hop_of ?y0) r = Inr h" "after_result h = Stopping"
    using one_probe [of r ttl first sent clock] read_trace_state [OF assms(1)] by (auto simp: start_sys_def)
  ultimately have "hop_run m ident 1 ttl first sent clock 3
      (?y2\<lparr> reader := Sending r, replies := 3, resultChan := [r], main := Stopping, hop_of := h, taken := [r] \<rparr>)"
    using run_work [OF _ take [of _ r "[r]" 1 h]] by (fastforce simp: start_sys_def)
  then have "hop_run m ident 1 ttl first sent clock 4 (?y2\<lparr> reader := Sending r, replies := 3,
      resultChan := [r, time_out ?t], main := Stopping, hop_of := h, taken := [r], timers := [] \<rparr>)"
    using run_work [OF _ timer_fires [of ?t]] timers by (fastforce simp: start_sys_def)
  moreover have "stuck 1 (?y2\<lparr> reader := Sending r, replies := 3,
      resultChan := [r, time_out ?t], main := Stopping, hop_of := h, taken := [r], timers := [] \<rparr>)"
    by (simp add: stuck_def pending_def)
  ultimately show ?thesis by fastforce
qed

text \<open>A hop of one probe that nobody answers ends.\<close>

lemma silent_hop:
  assumes "sent 0"
  shows "\<exists>n y. hop_run m ident 1 ttl first sent clock n y \<and> replies y = 0 \<and> ended y"
proof -
  let ?y0 = "start_sys 1 ttl first sent clock" and ?t = "probe_id 1 ttl first 0"
  have timers: "timers ?y0 = [?t]" using assms by (simp add: start_sys_def armed_def send_loop_timers)
  have "hop_run m ident 1 ttl first sent clock 1 (?y0\<lparr> resultChan := [time_out ?t], timers := [] \<rparr>)"
    using run_work [OF hop_run.start [of m ident 1 ttl first sent clock] timer_fires [of ?t]] timers
    by (simp add: start_sys_def)
  moreover obtain h where h: "on_trace 1 (hop_of ?y0) (time_out ?t) = Inr h" "after_result h = Stopping"
    using one_probe [of "time_out ?t" ttl first sent clock] by (auto simp: start_sys_def time_out_def)
  ultimately have "hop_run m ident 1 ttl first sent clock 2
      (?y0\<lparr> timers := [], main := Stopping, hop_of := h, taken := [time_out ?t] \<rparr>)"
    using run_work [OF _ take [of _ "time_out ?t" "[]" 1 h]] by (fastforce simp: start_sys_def numeral_2_eq_2)
  then have "hop_run m ident 1 ttl first sent clock 3
      (?y0\<lparr> timers := [], hop_of := h, taken := [time_out ?t], reader := Stopped, main := Printed \<rparr>)"
    using run_work [OF _ stop] by (fastforce simp: start_sys_def numeral_3_eq_3 numeral_2_eq_2)
  then show ?thesis by (fastforce simp: start_sys_def ended_def)
qed

theorem trace_runs_to_max_hops_witness:
  "\<exists>final ends. trace (\<lambda>ttl. hop_outcome (final ttl)) 2 1 = Inr ends \<and> map fst ends = [1..2]"
proof -
  let ?P = "\<lambda>ttl y. (\<exists>n. hop_run False 7 1 ttl 1 (\<lambda>i. True) (\<lambda>i. 0) n y) \<and> replies y = 0 \<and> ended y"
  have "\<exists>n y. hop_run False 7 1 ttl 1 (\<lambda>i. True) (\<lambda>i. 0) n y \<and> replies y = 0 \<and> ended y" for ttl
    by (rule silent_hop) (rule TrueI)
  then have "\<forall>ttl. \<exists>y. ?P ttl y" by blast
  then have "\<exists>final. \<forall>ttl. ?P ttl (final ttl)" by (rule choice)
  then obtain final where f: "\<And>ttl. \<exists>n. hop_run False 7 1 ttl 1 (\<lambda>i. True) (\<lambda>i. 0) n (final ttl)"
    "\<And>ttl. replies (final ttl) = 0" "\<And>ttl. ended (final ttl)" by blast
  have "\<exists>ends. trace (\<lambda>ttl. hop_outcome (final ttl)) 2 1 = Inr ends \<and> map fst ends = [1..2]"
    by (rule trace_runs_to_max_hops [where q = 1 and m = False and ident = 7 and
          sent = "\<lambda>ttl i. True" and clock = "\<lambda>ttl i. 0"], simp, simp, simp)
      (intro ballI conjI allI impI TrueI disjI1 f; simp add: f(2))
  then show ?thesis by blast
qed

end
