(* ===== verification/Socks5.thy ===== *)
theory Socks5
  imports NetAddr
begin

text \<open>
  The SOCKS5 server \<^verbatim>\<open>code/socks5/socks5.go\<close> up to the relaying of the data: the method
  negotiation, the request, the replies and the target that is dialled, on the byte stream of the
  client. The kernel's part (the outcome of a dial, of a listen, of a write) is the parameter \<open>env\<close>.
  The bytes that the server writes first collect in the buffer of \<^verbatim>\<open>bufio.NewWriter\<close> and reach the
  client with \<^verbatim>\<open>Flush\<close>; no reply comes near the buffer's 4096 bytes. Closing the connection does not
  flush.
\<close>

section \<open>State\<close>

text \<open>
  \<open>rd\<close>: what the client sends until it closes its side and the server has not read; \<open>wbuf\<close> and \<open>wire\<close>:
  the replies not flushed and flushed; \<open>dialled\<close>: the addresses given to \<^verbatim>\<open>net.Dial\<close>.
\<close>

record sconn =
  rd :: "byte list"
  wbuf :: "byte list"
  wire :: "byte list"
  dialled :: "string list"

type_synonym udp_addr = "ip \<times> nat"

text \<open>
  \<open>FlushFails w = Some k\<close>: a flush after the bytes \<open>w\<close> are on the wire fails after \<open>k\<close> bytes.
  \<open>Dial\<close> and \<open>ListenUDP\<close> return the local address.
\<close>

record socks_env =
  FlushFails :: "byte list \<Rightarrow> nat option"
  Dial :: "string \<Rightarrow> udp_addr option"
  ResolveUDPAddr :: "string \<Rightarrow> udp_addr option"
  ListenUDP :: "udp_addr \<Rightarrow> udp_addr option"

definition new_sconn :: "byte list \<Rightarrow> sconn" where
  "new_sconn bs = \<lparr> rd = bs, wbuf = [], wire = [], dialled = [] \<rparr>"

section \<open>Reading\<close>

definition ReadByte :: "byte list \<Rightarrow> byte option \<times> byte list" where
  "ReadByte r = (case r of [] \<Rightarrow> (None, []) | b # r' \<Rightarrow> (Some b, r'))"

definition ReadFull :: "nat \<Rightarrow> byte list \<Rightarrow> byte list option \<times> byte list" where
  "ReadFull n r = (if length r < n then (None, []) else (Some (take n r), drop n r))"

definition read_port :: "byte list \<Rightarrow> u16 option \<times> byte list" where
  "read_port r = (case r of h # l # r' \<Rightarrow> (Some (be16 h l), r') | _ \<Rightarrow> (None, []))"

definition string_of_bytes :: "byte list \<Rightarrow> string" where
  "string_of_bytes bs = map (\<lambda>b. char_of (unat b)) bs"

datatype addr_error = AtypFailed | AddrFailed | DomainLenFailed | AtypUnsupported

definition readAddr :: "byte list \<Rightarrow> (addr_error + string) \<times> byte list" where
  "readAddr r = (case ReadByte r of
       (None, r) \<Rightarrow> (Inl AtypFailed, r)
     | (Some atyp, r) \<Rightarrow>
         if atyp = 1 then
           (case ReadFull 4 r of
              (None, r) \<Rightarrow> (Inl AddrFailed, r)
            | (Some a, r) \<Rightarrow> (Inr (ip_string a), r))
         else if atyp = 3 then
           (case ReadByte r of
              (None, r) \<Rightarrow> (Inl DomainLenFailed, r)
            | (Some domainLen, r) \<Rightarrow>
                (case ReadFull (unat domainLen) r of
                   (None, r) \<Rightarrow> (Inl AddrFailed, r)
                 | (Some a, r) \<Rightarrow>
                     (Inr (if string_of_bytes a = ''0'' then ''0.0.0.0'' else string_of_bytes a), r)))
         else if atyp = 4 then
           (case ReadFull 16 r of
              (None, r) \<Rightarrow> (Inl AddrFailed, r)
            | (Some a, r) \<Rightarrow> (Inr (ip_string a), r))
         else (Inl AtypUnsupported, r))"

section \<open>Writing\<close>

definition buffer :: "byte list \<Rightarrow> sconn \<Rightarrow> sconn" where
  "buffer bs c = c\<lparr> wbuf := wbuf c @ bs \<rparr>"

definition Flush :: "socks_env \<Rightarrow> sconn \<Rightarrow> bool \<times> sconn" where
  "Flush env c = (case FlushFails env (wire c) of
       None \<Rightarrow> (True, c\<lparr> wire := wire c @ wbuf c, wbuf := [] \<rparr>)
     | Some k \<Rightarrow> (False, c\<lparr> wire := wire c @ take k (wbuf c), wbuf := drop k (wbuf c) \<rparr>))"

text \<open>An address and a port as the replies and the datagram headers carry them.\<close>

definition addr_bytes :: "ip \<Rightarrow> byte list" where
  "addr_bytes a = (case To4 a of Some q \<Rightarrow> 1 # q | None \<Rightarrow> 4 # To16 a)"

definition port_bytes :: "nat \<Rightarrow> byte list" where
  "port_bytes p = put_be16 (word_of_nat p)"

definition bound_reply :: "udp_addr \<Rightarrow> sconn \<Rightarrow> sconn" where
  "bound_reply a c =
     (let c = buffer [5, 0, 0] c; c = buffer (addr_bytes (fst a)) c in buffer (port_bytes (snd a)) c)"

section \<open>The conversation\<close>

datatype close_reason =
    BadVersion | NMethodsFailed | MethodsFailed | NoAuthFlushFailed | NoMethod
  | BadAddr addr_error | PortFailed | InvalidPort | DialFailed | BindUnsupported
  | CommandUnsupported | ResolveFailed | ListenFailed | ReplyFlushFailed

datatype outcome = Closed close_reason | Connected string | Associated udp_addr

datatype method_result = Accepted | NotOffered | FlushFailed

fun method_loop :: "socks_env \<Rightarrow> byte list \<Rightarrow> sconn \<Rightarrow> method_result \<times> sconn" where
  "method_loop env [] c = (NotOffered, c)"
| "method_loop env (method # ms) c =
     (if method = 0 then
        (case Flush env (buffer [5, 0] c) of
           (True, c) \<Rightarrow> (Accepted, c)
         | (False, c) \<Rightarrow> (FlushFailed, c))
      else method_loop env ms c)"

definition negotiate :: "socks_env \<Rightarrow> sconn \<Rightarrow> close_reason option \<times> sconn" where
  "negotiate env c =
     (let (ver, r) = ReadByte (rd c); c = c\<lparr> rd := r \<rparr> in
      if ver \<noteq> Some 5 then (Some BadVersion, c)
      else
        (let (nMethods, r) = ReadByte (rd c); c = c\<lparr> rd := r \<rparr> in
         case nMethods of
           None \<Rightarrow> (Some NMethodsFailed, c)
         | Some n \<Rightarrow>
             (let (methods, r) = ReadFull (unat n) (rd c); c = c\<lparr> rd := r \<rparr> in
              case methods of
                None \<Rightarrow> (Some MethodsFailed, c)
              | Some ms \<Rightarrow>
                  (case method_loop env ms c of
                     (Accepted, c) \<Rightarrow> (None, c)
                   | (FlushFailed, c) \<Rightarrow> (Some NoAuthFlushFailed, c)
                   | (NotOffered, c) \<Rightarrow> (Some NoMethod, buffer [5, 255] c)))))"

definition handle_connect :: "socks_env \<Rightarrow> string \<Rightarrow> u16 \<Rightarrow> sconn \<Rightarrow> outcome \<times> sconn" where
  "handle_connect env dspAddr dspPort c =
     (if dspPort = 0 then (Closed InvalidPort, c)
      else
        (let addr = JoinHostPort dspAddr (unat dspPort);
             c = c\<lparr> dialled := dialled c @ [addr] \<rparr> in
         case Dial env addr of
           None \<Rightarrow> (Closed DialFailed, c)
         | Some localAddr \<Rightarrow>
             (case Flush env (bound_reply localAddr c) of
                (False, c) \<Rightarrow> (Closed ReplyFlushFailed, c)
              | (True, c) \<Rightarrow> (Connected addr, c))))"

definition handle_associate :: "socks_env \<Rightarrow> sconn \<Rightarrow> outcome \<times> sconn" where
  "handle_associate env c =
     (case ResolveUDPAddr env ''0.0.0.0:0'' of
        None \<Rightarrow> (Closed ResolveFailed, c)
      | Some udpAddr \<Rightarrow>
          (case ListenUDP env udpAddr of
             None \<Rightarrow> (Closed ListenFailed, c)
           | Some localAddr \<Rightarrow>
               (case Flush env (bound_reply localAddr c) of
                  (False, c) \<Rightarrow> (Closed ReplyFlushFailed, c)
                | (True, c) \<Rightarrow> (Associated localAddr, c))))"

text \<open>A read that fails leaves 0 in the command byte; its error is not looked at.\<close>

definition handle_request :: "socks_env \<Rightarrow> sconn \<Rightarrow> outcome \<times> sconn" where
  "handle_request env c =
     (let (ver, r) = ReadByte (rd c);
          (cmd0, r) = ReadByte r;
          cmd = (case cmd0 of Some b \<Rightarrow> b | None \<Rightarrow> 0);
          (rsv, r) = ReadByte r;
          (a, r) = readAddr r in
      case a of
        Inl err \<Rightarrow> (Closed (BadAddr err), c\<lparr> rd := r \<rparr>)
      | Inr dspAddr \<Rightarrow>
          (let (p, r) = read_port r; c = c\<lparr> rd := r \<rparr> in
           case p of
             None \<Rightarrow> (Closed PortFailed, c)
           | Some dspPort \<Rightarrow>
               if cmd = 1 then handle_connect env dspAddr dspPort c
               else if cmd = 2 then (Closed BindUnsupported, c)
               else if cmd = 3 then handle_associate env c
               else (Closed CommandUnsupported, c)))"

definition process :: "socks_env \<Rightarrow> sconn \<Rightarrow> outcome \<times> sconn" where
  "process env c =
     (case negotiate env c of
        (Some err, c) \<Rightarrow> (Closed err, c)
      | (None, c) \<Rightarrow> handle_request env c)"

lemmas [go_eval] = new_sconn_def ReadByte_def ReadFull_def read_port_def string_of_bytes_def
  readAddr_def buffer_def Flush_def addr_bytes_def port_bytes_def bound_reply_def negotiate_def
  handle_connect_def handle_associate_def handle_request_def process_def

section \<open>Requests as the protocol writes them\<close>

datatype target = V4 "byte list" | Domain "byte list" | V6 "byte list"

fun target_ok :: "target \<Rightarrow> bool" where
  "target_ok (V4 a) \<longleftrightarrow> length a = 4"
| "target_ok (Domain d) \<longleftrightarrow> length d < 256"
| "target_ok (V6 a) \<longleftrightarrow> length a = 16"

fun target_bytes :: "target \<Rightarrow> byte list" where
  "target_bytes (V4 a) = 1 # a"
| "target_bytes (Domain d) = 3 # word_of_nat (length d) # d"
| "target_bytes (V6 a) = 4 # a"

text \<open>The host that the server makes of a target; the domain name \<open>0\<close> stands for any address.\<close>

fun target_host :: "target \<Rightarrow> string" where
  "target_host (V4 a) = ip_string a"
| "target_host (Domain d) = (if string_of_bytes d = ''0'' then ''0.0.0.0'' else string_of_bytes d)"
| "target_host (V6 a) = ip_string a"

lemma ReadFull_append [simp]: "length a = n \<Longrightarrow> ReadFull n (a @ r) = (Some a, r)"
  by (auto simp: ReadFull_def)

lemma ReadFull_Some: "ReadFull n r = (Some a, r') \<Longrightarrow> r = a @ r' \<and> length a = n"
  by (auto simp: ReadFull_def split: if_splits)

lemma ReadByte_Cons [simp]: "ReadByte (b # r) = (Some b, r)"
  by (simp add: ReadByte_def)

lemma ReadByte_Some: "ReadByte r = (Some b, r') \<Longrightarrow> r = b # r'"
  by (auto simp: ReadByte_def split: list.splits)

lemma read_port_append [simp]: "read_port (put_be16 p @ r) = (Some p, r)"
  by (simp add: read_port_def put_be16_def)

lemma read_port_Some: "read_port r = (Some p, r') \<Longrightarrow> r = put_be16 p @ r'"
  by (auto simp: read_port_def put_be16_def split: list.splits)

lemma unat_byte_of_nat: "n < 256 \<Longrightarrow> unat (word_of_nat n :: byte) = n"
  by (simp add: unsigned_of_nat take_bit_nat_eq_self_iff)

lemma readAddr_target:
  "target_ok t \<Longrightarrow> readAddr (target_bytes t @ r) = (Inr (target_host t), r)"
  by (cases t) (simp_all add: readAddr_def unat_byte_of_nat)

lemma readAddr_Inr:
  assumes "readAddr r = (Inr h, r')"
  shows "\<exists>t. target_ok t \<and> r = target_bytes t @ r' \<and> h = target_host t"
proof -
  obtain atyp r1 where r: "r = atyp # r1"
    using assms by (cases r) (auto simp: readAddr_def ReadByte_def)
  consider (v4) "atyp = 1" | (domain) "atyp = 3" | (v6) "atyp = 4" | (other) "atyp \<notin> {1, 3, 4}" by blast
  then show ?thesis
  proof cases
    case v4
    then obtain a where "ReadFull 4 r1 = (Some a, r')" "h = ip_string a"
      using assms by (auto simp: readAddr_def r split: prod.splits option.splits)
    then show ?thesis using v4 by (intro exI [of _ "V4 a"]) (simp add: r ReadFull_Some)
  next
    case domain
    then obtain n r2 where n: "ReadByte r1 = (Some n, r2)"
      using assms by (auto simp: readAddr_def r split: prod.splits option.splits)
    from assms obtain d where d: "ReadFull (unat n) r2 = (Some d, r')" "h = target_host (Domain d)"
      using domain by (auto simp: readAddr_def r n split: prod.splits option.splits)
    from ReadFull_Some [OF d(1)] have "length d < 256" "n = word_of_nat (length d)" "r2 = d @ r'"
      using unat_byte_less [of n] by (auto simp: word_unat_eq_iff unat_byte_of_nat)
    then show ?thesis using domain d(2) ReadByte_Some [OF n]
      by (intro exI [of _ "Domain d"]) (simp add: r)
  next
    case v6
    then obtain a where "ReadFull 16 r1 = (Some a, r')" "h = ip_string a"
      using assms by (auto simp: readAddr_def r split: prod.splits option.splits)
    then show ?thesis using v6 by (intro exI [of _ "V6 a"]) (simp add: r ReadFull_Some)
  next
    case other
    then show ?thesis using assms by (simp add: readAddr_def r)
  qed
qed

definition request_bytes :: "byte list \<Rightarrow> byte \<Rightarrow> byte \<Rightarrow> byte \<Rightarrow> target \<Rightarrow> u16 \<Rightarrow> byte list" where
  "request_bytes methods v cmd rsv t port =
     [5, word_of_nat (length methods)] @ methods @ [v, cmd, rsv] @ target_bytes t @ put_be16 port"

lemma handle_request_bytes:
  "target_ok t \<Longrightarrow> rd c = [v, cmd, rsv] @ target_bytes t @ put_be16 port @ rest \<Longrightarrow>
    handle_request env c =
      (if cmd = 1 then handle_connect env (target_host t) port (c\<lparr> rd := rest \<rparr>)
       else if cmd = 2 then (Closed BindUnsupported, c\<lparr> rd := rest \<rparr>)
       else if cmd = 3 then handle_associate env (c\<lparr> rd := rest \<rparr>)
       else (Closed CommandUnsupported, c\<lparr> rd := rest \<rparr>))"
  by (simp add: handle_request_def readAddr_target)

lemma method_loop_accepts:
  "0 \<in> set ms \<Longrightarrow> FlushFails env (wire c) = None \<Longrightarrow>
    method_loop env ms c = (Accepted, c\<lparr> wire := wire c @ wbuf c @ [5, 0], wbuf := [] \<rparr>)"
  by (induction ms) (auto simp: Flush_def buffer_def)

lemma negotiate_bytes:
  assumes "length ms < 256" and "0 \<in> set ms" and "FlushFails env [] = None"
  shows "negotiate env (new_sconn ([5, word_of_nat (length ms)] @ ms @ r)) =
    (None, \<lparr> rd = r, wbuf = [], wire = [5, 0], dialled = [] \<rparr>)"
  using assms by (simp add: negotiate_def new_sconn_def unat_byte_of_nat method_loop_accepts)

text \<open>A conversation up to the command, for a client that follows the protocol.\<close>

lemma process_request:
  assumes "length ms < 256" and "0 \<in> set ms" and "FlushFails env [] = None" and "target_ok t"
  shows "process env (new_sconn (request_bytes ms v cmd rsv t port @ rest)) =
    (let c = \<lparr> rd = rest, wbuf = [], wire = [5, 0], dialled = [] \<rparr> in
      if cmd = 1 then handle_connect env (target_host t) port c
      else if cmd = 2 then (Closed BindUnsupported, c)
      else if cmd = 3 then handle_associate env c
      else (Closed CommandUnsupported, c))"
proof -
  let ?r = "[v, cmd, rsv] @ target_bytes t @ put_be16 port @ rest"
  have "negotiate env (new_sconn (request_bytes ms v cmd rsv t port @ rest)) =
      (None, \<lparr> rd = ?r, wbuf = [], wire = [5, 0], dialled = [] \<rparr>)"
    using negotiate_bytes [OF assms(1-3), of ?r] by (simp add: request_bytes_def)
  then show ?thesis using assms(4) by (simp add: process_def handle_request_bytes)
qed

section \<open>Properties\<close>

text \<open>C9: a CONNECT conversation that follows the protocol succeeds: a client that offers no
  authentication among its methods and asks for an IPv4, IPv6 or domain target with a port other than
  0 gets the method reply and a success reply with the local address, exactly its target is dialled,
  and what it sent beyond the request is left to be relayed.\<close>

theorem connect_conversation:
  assumes "length methods < 256" and "0 \<in> set methods" and "target_ok t" and "port \<noteq> 0"
    and "\<forall>w. FlushFails env w = None"
    and "addr = JoinHostPort (target_host t) (unat port)" and "Dial env addr = Some (ip, p)"
  shows "process env (new_sconn (request_bytes methods v 1 rsv t port @ rest)) =
    (Connected addr, \<lparr> rd = rest, wbuf = [],
      wire = [5, 0] @ [5, 0, 0] @ addr_bytes ip @ put_be16 (word_of_nat p), dialled = [addr] \<rparr>)"
proof -
  have "FlushFails env [] = None" using assms(5) by simp
  note request = process_request [OF assms(1,2) this assms(3), of v 1 rsv port rest]
  then show ?thesis using assms(4-7) by (simp add: handle_connect_def bound_reply_def buffer_def port_bytes_def Flush_def Let_def)
qed

definition demo_socks_env :: socks_env where
  "demo_socks_env = \<lparr> FlushFails = (\<lambda>w. None), Dial = (\<lambda>a. Some ([10, 0, 0, 2], 40000)),
     ResolveUDPAddr = (\<lambda>a. if a = ''0.0.0.0:0'' then Some ([], 0) else Some ([9, 9, 9, 9], 53)),
     ListenUDP = (\<lambda>a. Some (IPv4 0 0 0 0, 5000)) \<rparr>"

theorem connect_conversation_witness:
  "fst (process demo_socks_env (new_sconn (request_bytes [2, 0] 5 1 0 (V4 [1, 2, 3, 4]) 80))) =
    Connected ''1.2.3.4:80''"
proof -
  have "JoinHostPort (target_host (V4 [1, 2, 3, 4])) (unat (80 :: u16)) = ''1.2.3.4:80''" by code_simp
  then show ?thesis
    using connect_conversation [of "[2, 0]" "V4 [1, 2, 3, 4]" 80 demo_socks_env "''1.2.3.4:80''"
        "[10, 0, 0, 2]" 40000 5 0 "[]"]
    by (simp add: demo_socks_env_def)
qed

lemma method_loop_outcome:
  assumes "method_loop env ms c = (res, c')"
  shows "rd c' = rd c \<and> dialled c' = dialled c \<and> (res \<noteq> NotOffered \<longleftrightarrow> 0 \<in> set ms) \<and>
    (res = Accepted \<longrightarrow> wire c' = wire c @ wbuf c @ [5, 0] \<and> wbuf c' = []) \<and>
    (res = NotOffered \<longrightarrow> wire c' = wire c)"
  using assms
  by (induction ms) (auto simp: Flush_def buffer_def split: if_splits prod.splits option.splits bool.splits)

text \<open>What the negotiation leaves, by its result.\<close>

lemma negotiate_outcome:
  assumes "negotiate env (new_sconn bs) = (err, c)"
  shows "dialled c = [] \<and>
    (case err of
       None \<Rightarrow> wire c = [5, 0] \<and> wbuf c = [] \<and>
         (\<exists>ms. length ms < 256 \<and> 0 \<in> set ms \<and> bs = [5, word_of_nat (length ms)] @ ms @ rd c)
     | Some e \<Rightarrow> e \<in> {BadVersion, NMethodsFailed, MethodsFailed, NoMethod, NoAuthFlushFailed} \<and>
         (e \<noteq> NoAuthFlushFailed \<longrightarrow> wire c = []))"
proof (cases "\<exists>n r1 ms r2. ReadByte bs = (Some 5, r1) \<and> ReadByte r1 = (Some n, r2) \<and> fst (ReadFull (unat n) r2) = Some ms")
  case False
  then show ?thesis using assms
    by (auto simp: negotiate_def new_sconn_def Let_def split: prod.splits option.splits if_splits)
next
  case True
  then obtain r1 n r2 ms r3 where r: "ReadByte bs = (Some 5, r1)" "ReadByte r1 = (Some n, r2)"
      "ReadFull (unat n) r2 = (Some ms, r3)"
    by (metis prod.collapse)
  have ms: "length ms < 256" "n = word_of_nat (length ms)" "bs = [5, n] @ ms @ r3"
    using ReadByte_Some [OF r(1)] ReadByte_Some [OF r(2)] ReadFull_Some [OF r(3)] unat_byte_less [of n]
    by (auto simp: word_unat_eq_iff unat_byte_of_nat)
  obtain res c1 where m: "method_loop env ms \<lparr> rd = r3, wbuf = [], wire = [], dialled = [] \<rparr> = (res, c1)"
    by fastforce
  from method_loop_outcome [OF m] show ?thesis
    using assms r ms m
    by (cases res) (auto simp: negotiate_def new_sconn_def buffer_def)
qed

text \<open>What the request adds: at most one dial, and a reply only on success or when the flush fails.\<close>

lemma handle_connect_outcome:
  assumes "handle_connect env h port c = (out, c')"
  shows "(dialled c' = dialled c \<or> port \<noteq> 0 \<and> dialled c' = dialled c @ [JoinHostPort h (unat port)]) \<and>
    (\<forall>why. out = Closed why \<longrightarrow> why \<noteq> ReplyFlushFailed \<longrightarrow> wire c' = wire c)"
  using assms
  by (auto simp: handle_connect_def Let_def bound_reply_def buffer_def Flush_def
      split: if_splits option.splits prod.splits bool.splits)

lemma handle_associate_outcome:
  assumes "handle_associate env c = (out, c')"
  shows "dialled c' = dialled c \<and>
    (\<forall>why. out = Closed why \<longrightarrow> why \<noteq> ReplyFlushFailed \<longrightarrow> wire c' = wire c)"
  using assms
  by (auto simp: handle_associate_def Let_def bound_reply_def buffer_def Flush_def
      split: if_splits option.splits prod.splits bool.splits)

lemma handle_request_outcome:
  assumes "handle_request env c = (out, c')"
  shows "(dialled c' = dialled c \<or>
      (\<exists>v rsv t port rest. rd c = [v, 1, rsv] @ target_bytes t @ put_be16 port @ rest \<and> target_ok t \<and>
        port \<noteq> 0 \<and> dialled c' = dialled c @ [JoinHostPort (target_host t) (unat port)])) \<and>
    (\<forall>why. out = Closed why \<longrightarrow> why \<noteq> ReplyFlushFailed \<longrightarrow> wire c' = wire c)"
proof (cases "\<exists>h r4 port r5. readAddr (drop 3 (rd c)) = (Inr h, r4) \<and> read_port r4 = (Some port, r5)")
  case False
  have "ReadByte r = (case r of [] \<Rightarrow> None | b # _ \<Rightarrow> Some b, drop 1 r)" for r
    by (simp add: ReadByte_def split: list.split)
  then show ?thesis using False assms
    by (auto simp: handle_request_def Let_def numeral_3_eq_3 split: prod.splits sum.splits option.splits)
next
  case True
  then obtain h r4 port r5 where a: "readAddr (drop 3 (rd c)) = (Inr h, r4)"
      "read_port r4 = (Some port, r5)" by blast
  from readAddr_Inr [OF a(1)] obtain t where
    t: "target_ok t" "drop 3 (rd c) = target_bytes t @ r4" "h = target_host t" by blast
  then have "3 < length (rd c)" by (cases t) (auto dest: arg_cong [of _ _ length])
  then obtain v cmd rsv where "rd c = [v, cmd, rsv] @ drop 3 (rd c)"
    by (metis append_take_drop_id length_take min.absorb4 length_3_cases)
  then have bytes: "rd c = [v, cmd, rsv] @ target_bytes t @ put_be16 port @ r5"
    using t(2) read_port_Some [OF a(2)] by simp
  show ?thesis
    using assms bytes t(1) handle_connect_outcome [of env h port "c\<lparr> rd := r5 \<rparr>" out c']
      handle_associate_outcome [of env "c\<lparr> rd := r5 \<rparr>" out c']
    by (auto simp: handle_request_bytes [OF t(1) bytes] t(3) split: if_splits)
qed

text \<open>C13: nothing is dialled without a request for it: whatever bytes a client sends and however the
  network behaves, the server dials at most once, and only when the bytes are a negotiation that
  offers no authentication followed by a CONNECT request with a well-formed target and a port other
  than 0; the address it dials is the one of the request.\<close>

theorem dial_only_on_request:
  assumes "process env (new_sconn bs) = (out, c)" and "dialled c \<noteq> []"
  shows "\<exists>methods v rsv t port rest. bs = request_bytes methods v 1 rsv t port @ rest \<and>
    length methods < 256 \<and> 0 \<in> set methods \<and> target_ok t \<and> port \<noteq> 0 \<and>
    dialled c = [JoinHostPort (target_host t) (unat port)]"
proof -
  obtain err c1 where n: "negotiate env (new_sconn bs) = (err, c1)" by fastforce
  note out = negotiate_outcome [OF n]
  show ?thesis
  proof (cases err)
    case None
    then have r: "handle_request env c1 = (out, c)" using assms(1) n by (simp add: process_def)
    from None out obtain ms where ms: "length ms < 256" "0 \<in> set ms"
      "bs = [5, word_of_nat (length ms)] @ ms @ rd c1" "dialled c1 = []" by auto
    from handle_request_outcome [OF r] assms(2) ms(4) obtain v rsv t port rest where
      "rd c1 = [v, 1, rsv] @ target_bytes t @ put_be16 port @ rest" "target_ok t" "port \<noteq> 0"
      "dialled c = [JoinHostPort (target_host t) (unat port)]" by auto
    then show ?thesis using ms
      by (intro exI [of _ ms] exI [of _ v] exI [of _ rsv] exI [of _ t] exI [of _ port] exI [of _ rest])
        (simp add: request_bytes_def)
  next
    case (Some e)
    then show ?thesis using assms n out by (simp add: process_def)
  qed
qed

theorem dial_only_on_request_witness:
  "\<exists>methods v rsv t port rest. [5, 1, 0, 5, 1, 0, 1, 1, 2, 3, 4, 0, 80] = request_bytes methods v 1 rsv t port @ rest"
proof -
  have "dialled (snd (process demo_socks_env (new_sconn [5, 1, 0, 5, 1, 0, 1, 1, 2, 3, 4, 0, 80]))) \<noteq> []"
    by (simp add: process_def negotiate_def handle_request_def handle_connect_def Let_def
        new_sconn_def Flush_def buffer_def bound_reply_def readAddr_def ReadFull_def read_port_def
        be16_def demo_socks_env_def)
  then show ?thesis
    using dial_only_on_request [of demo_socks_env "[5, 1, 0, 5, 1, 0, 1, 1, 2, 3, 4, 0, 80]"]
    by (metis prod.collapse)
qed

text \<open>C33: no refusal is ever answered: whenever the server gives up, for whatever reason but a failed
  write, the client has received the two bytes of the method reply or nothing at all. The reply
  \<^verbatim>\<open>05 FF\<close> to a client without a common method stays in the buffer that is thrown away, and
  no reply with an error code exists.\<close>

theorem refusals_are_silent:
  assumes "process env (new_sconn bs) = (Closed why, c)"
    and "why \<noteq> NoAuthFlushFailed" and "why \<noteq> ReplyFlushFailed"
  shows "wire c = (if why \<in> {BadVersion, NMethodsFailed, MethodsFailed, NoMethod} then [] else [5, 0])"
proof -
  obtain err c1 where n: "negotiate env (new_sconn bs) = (err, c1)" by fastforce
  note out = negotiate_outcome [OF n]
  show ?thesis
  proof (cases err)
    case None
    then have r: "handle_request env c1 = (Closed why, c)" using assms(1) n by (simp add: process_def)
    then have "why \<notin> {BadVersion, NMethodsFailed, MethodsFailed, NoMethod}"
      by (auto simp: handle_request_def handle_connect_def handle_associate_def Let_def
          split: prod.splits option.splits sum.splits if_splits bool.splits)
    then show ?thesis using handle_request_outcome [OF r] assms(3) out None by auto
  next
    case (Some e)
    then show ?thesis using assms n out by (auto simp: process_def)
  qed
qed

theorem refusals_are_silent_witness:
  "wire (snd (process demo_socks_env (new_sconn [5, 1, 2]))) = []"
proof -
  have "process demo_socks_env (new_sconn [5, 1, 2]) =
      (Closed NoMethod, \<lparr> rd = [], wbuf = [5, 255], wire = [], dialled = [] \<rparr>)"
    by (simp add: go_eval demo_socks_env_def)
  from refusals_are_silent [OF this] this show ?thesis by simp
qed

end
