(* ===== verification/Socks5Udp.thy ===== *)
theory Socks5Udp
  imports Socks5
begin

text \<open>
  The UDP association of \<^verbatim>\<open>code/socks5/socks5.go\<close>: one datagram of the relay goroutine, runs of
  datagrams, and the life of the association with its two goroutines and the channel \<^verbatim>\<open>done\<close>.
  The receive buffer is part of the state, since the check of the header reads bytes that a shorter
  datagram did not overwrite.
\<close>

section \<open>One datagram\<close>

record relay =
  firstPacket :: bool
  clientUDPAddr :: udp_addr
  buf :: "byte list"

definition buf_size :: nat where
  "buf_size = 65536"

definition new_relay :: relay where
  "new_relay = \<lparr> firstPacket = True, clientUDPAddr = ([], 0), buf = replicate buf_size 0 \<rparr>"

datatype relay_error = RelayAddrFailed addr_error | RelayPortFailed

datatype relay_result = Continue relay "(byte list \<times> udp_addr) list" | Return relay_error

definition same_endpoint :: "udp_addr \<Rightarrow> udp_addr \<Rightarrow> bool" where
  "same_endpoint a b \<longleftrightarrow> ip_equal (fst a) (fst b) \<and> snd a = snd b"

text \<open>\<^verbatim>\<open>ReadFromUDP\<close>: a datagram is cut to the buffer and leaves the bytes after it.\<close>

definition receive :: "byte list \<Rightarrow> byte list \<Rightarrow> nat \<times> byte list" where
  "receive data b = (let n = min (length data) (length b) in (n, take n data @ drop n b))"

definition wrap :: "udp_addr \<Rightarrow> byte list \<Rightarrow> byte list" where
  "wrap addr data = [0, 0, 0] @ addr_bytes (fst addr) @ port_bytes (snd addr) @ data"

text \<open>
  A datagram from the client: its header is read and its payload sent on. An address that does not
  resolve is a nil pointer, with which \<^verbatim>\<open>WriteToUDP\<close> sends nothing.
\<close>

definition from_client :: "socks_env \<Rightarrow> relay \<Rightarrow> nat \<Rightarrow> go_panic + relay_result" where
  "from_client env r n =
     (if buf r ! 0 \<noteq> 0 \<or> buf r ! 1 \<noteq> 0 \<or> buf r ! 2 \<noteq> 0 then Inr (Continue r [])
      else if n < 3 then Inl SliceBounds
      else
        (let (a, s) = readAddr (drop 3 (take n (buf r))) in
         case a of
           Inl err \<Rightarrow> Inr (Return (RelayAddrFailed err))
         | Inr dspAddr \<Rightarrow>
             (let (p, s) = read_port s in
              case p of
                None \<Rightarrow> Inr (Return RelayPortFailed)
              | Some dspPort \<Rightarrow>
                  (case ResolveUDPAddr env (JoinHostPort dspAddr (unat dspPort)) of
                     None \<Rightarrow> Inr (Continue r [])
                   | Some raddr \<Rightarrow> Inr (Continue r [(s, raddr)])))))"

definition relay_step :: "socks_env \<Rightarrow> relay \<Rightarrow> byte list \<times> udp_addr \<Rightarrow> go_panic + relay_result" where
  "relay_step env r d =
     (let (n, b) = receive (fst d) (buf r); addr = snd d;
          r = r\<lparr> buf := b \<rparr>;
          r = (if firstPacket r then r\<lparr> clientUDPAddr := addr, firstPacket := False \<rparr> else r)
      in if same_endpoint (clientUDPAddr r) addr then from_client env r n
         else Inr (Continue r [(wrap addr (take n (buf r)), clientUDPAddr r)]))"

text \<open>A run of the relay over datagrams, with the sends and the sender that caused each.\<close>

fun relay_run :: "socks_env \<Rightarrow> relay \<Rightarrow> (byte list \<times> udp_addr) list \<Rightarrow>
    go_panic + (relay \<times> (udp_addr \<times> byte list \<times> udp_addr) list \<times> relay_error option)" where
  "relay_run env r [] = Inr (r, [], None)"
| "relay_run env r (d # ds) = (case relay_step env r d of
       Inl p \<Rightarrow> Inl p
     | Inr (Return e) \<Rightarrow> Inr (r, [], Some e)
     | Inr (Continue r' out) \<Rightarrow>
         (case relay_run env r' ds of
            Inl p \<Rightarrow> Inl p
          | Inr (r'', outs, stop) \<Rightarrow> Inr (r'', map (Pair (snd d)) out @ outs, stop)))"

section \<open>Lemmas\<close>

definition relay_ok :: "relay \<Rightarrow> bool" where
  "relay_ok r \<longleftrightarrow> length (buf r) = buf_size"

lemma new_relay_ok: "relay_ok new_relay"
  by (simp add: relay_ok_def new_relay_def)

lemma receive_fits [simp]:
  "length data \<le> length b \<Longrightarrow> receive data b = (length data, data @ drop (length data) b)"
  by (simp add: receive_def min_absorb1 Let_def)

lemma length_receive [simp]: "length (snd (receive data b)) = length b"
  by (simp add: receive_def Let_def)

lemma from_client_Continue: "from_client env r n = Inr (Continue r' out) \<Longrightarrow> r' = r"
  by (auto simp: from_client_def Let_def split: if_splits prod.splits sum.splits option.splits)

lemma from_client_panic:
  "from_client env r n = Inl p \<longleftrightarrow>
    p = SliceBounds \<and> n < 3 \<and> buf r ! 0 = 0 \<and> buf r ! 1 = 0 \<and> buf r ! 2 = 0"
  by (auto simp: from_client_def Let_def split: prod.splits sum.splits option.splits)

text \<open>The client is fixed by the first datagram and no later one moves it.\<close>

definition client_after :: "relay \<Rightarrow> udp_addr \<Rightarrow> udp_addr" where
  "client_after r addr = (if firstPacket r then addr else clientUDPAddr r)"

lemma relay_step_Continue:
  assumes "relay_step env r d = Inr (Continue r' out)"
  shows "firstPacket r' = False \<and> clientUDPAddr r' = client_after r (snd d) \<and>
    length (buf r') = length (buf r) \<and>
    (\<forall>(p, dest) \<in> set out. same_endpoint (client_after r (snd d)) (snd d) \<or> dest = client_after r (snd d))"
  using assms
  by (auto simp: relay_step_def client_after_def Let_def split: prod.splits if_splits
      dest!: from_client_Continue) (auto simp: receive_def Let_def)

lemma relay_run_outs:
  assumes "relay_run env r ds = Inr (r', outs, stop)" and "\<not> firstPacket r"
  shows "clientUDPAddr r' = clientUDPAddr r \<and>
    (\<forall>(from, p, dest) \<in> set outs. same_endpoint (clientUDPAddr r) from \<or> dest = clientUDPAddr r)"
  using assms
proof (induction ds arbitrary: r outs)
  case (Cons d ds)
  show ?case
  proof (cases "\<exists>r1 out. relay_step env r d = Inr (Continue r1 out)")
    case True
    then obtain r1 out where step: "relay_step env r d = Inr (Continue r1 out)" by blast
    note s = relay_step_Continue [OF step]
    from Cons.prems(1) step obtain outs' where
      run: "relay_run env r1 ds = Inr (r', outs', stop)" "outs = map (Pair (snd d)) out @ outs'"
      by (auto split: sum.splits)
    from Cons.IH [OF run(1)] s Cons.prems(2) run(2) show ?thesis
      by (fastforce simp: client_after_def)
  next
    case False
    then show ?thesis using Cons.prems by (auto split: sum.splits relay_result.splits)
  qed
qed auto

lemma ip_string_To4:
  assumes "To4 a = Some q"
  shows "ip_string q = ip_string a"
proof -
  have "length a = 4 \<or> length a = 16" using assms by (auto simp: To4_def split: if_splits)
  then have "ip_string a = dotted q" using assms by (auto simp: ip_string_def)
  then show ?thesis using To4_length [OF assms] by (simp add: ip_string_4)
qed

text \<open>An address in a header is the SOCKS target of its four-byte or sixteen-byte form.\<close>

lemma addr_bytes_target:
  assumes "length a = 4 \<or> length a = 16"
  shows "\<exists>t. target_ok t \<and> addr_bytes a = target_bytes t \<and> target_host t = ip_string a"
proof (cases "To4 a")
  case None
  then have "length a = 16" using assms by (auto simp: To4_def)
  then show ?thesis using None by (intro exI [of _ "V6 a"]) (simp add: addr_bytes_def To16_def)
next
  case (Some q)
  then show ?thesis
    by (intro exI [of _ "V4 q"]) (simp add: addr_bytes_def To4_length ip_string_To4)
qed

lemma relay_step_fits:
  assumes "relay_ok r" and "length data \<le> buf_size"
  shows "relay_step env r (data, addr) =
    (let r' = r\<lparr> buf := data @ drop (length data) (buf r), clientUDPAddr := client_after r addr,
        firstPacket := False \<rparr>
     in if same_endpoint (client_after r addr) addr then from_client env r' (length data)
        else Inr (Continue r' [(wrap addr data, client_after r addr)]))"
  using assms by (cases r) (simp add: relay_step_def relay_ok_def client_after_def Let_def)

lemma same_endpoint_refl [simp]: "same_endpoint a a"
  by (simp add: same_endpoint_def)

section \<open>Properties\<close>

text \<open>A datagram of the client with a well-formed header is forwarded: its payload, unchanged and
  alone, goes to the address that its target and port resolve to.\<close>

lemma client_datagram_forwarded:
  assumes "relay_ok r" and "same_endpoint (client_after r addr) addr" and "target_ok t"
    and "data = [0, 0, 0] @ target_bytes t @ put_be16 port @ payload" and "length data \<le> buf_size"
    and "ResolveUDPAddr env (JoinHostPort (target_host t) (unat port)) = Some raddr"
  shows "\<exists>r'. relay_step env r (data, addr) = Inr (Continue r' [(payload, raddr)]) \<and> relay_ok r'"
proof -
  define r' where "r' = r\<lparr> buf := data @ drop (length data) (buf r),
    clientUDPAddr := client_after r addr, firstPacket := False \<rparr>"
  have r': "buf r' = data @ drop (length data) (buf r)" "relay_ok r'"
    using assms(1,5) by (simp_all add: r'_def relay_ok_def)
  have "relay_step env r (data, addr) = from_client env r' (length data)"
    using assms(2) by (simp add: relay_step_fits [OF assms(1,5)] r'_def)
  also have "\<dots> = Inr (Continue r' [(payload, raddr)])"
    using assms(3,6) by (simp add: from_client_def r'(1) assms(4) readAddr_target)
  finally show ?thesis using r'(2) by blast
qed

lemma client_datagram_forwarded_witness:
  "\<exists>r'. relay_step demo_socks_env new_relay ([0, 0, 0, 1, 8, 8, 8, 8, 0, 53, 42], ([10, 0, 0, 1], 7)) =
     Inr (Continue r' [([42], ([9, 9, 9, 9], 53))])"
proof -
  have "JoinHostPort (target_host (V4 [8, 8, 8, 8])) (unat (53 :: u16)) = ''8.8.8.8:53''" by code_simp
  then have "ResolveUDPAddr demo_socks_env (JoinHostPort (target_host (V4 [8, 8, 8, 8])) (unat (53 :: u16))) =
      Some ([9, 9, 9, 9], 53)"
    by (simp only: demo_socks_env_def) simp
  then show ?thesis
    using client_datagram_forwarded [OF new_relay_ok, of "([10, 0, 0, 1], 7)" "V4 [8, 8, 8, 8]" _ 53 "[42]"
        demo_socks_env "([9, 9, 9, 9], 53)", OF _ _ refl]
    by (auto simp: client_after_def new_relay_def buf_size_def put_be16_def hi8_def lo8_def)
qed

text \<open>C28: the answer of any other host reaches the client with a header from which the client reads
  back the host's address, its port and the exact data.\<close>

theorem reply_header_roundtrip:
  assumes "relay_ok r" and "\<not> firstPacket r" and "\<not> same_endpoint (clientUDPAddr r) addr"
    and "length data \<le> buf_size" and "length (fst addr) = 4 \<or> length (fst addr) = 16"
    and "snd addr < 65536"
  shows "\<exists>r' w s. relay_step env r (data, addr) = Inr (Continue r' [(w, clientUDPAddr r)]) \<and>
    take 3 w = [0, 0, 0] \<and> readAddr (drop 3 w) = (Inr (ip_string (fst addr)), s) \<and>
    read_port s = (Some (word_of_nat (snd addr)), data) \<and> unat (word_of_nat (snd addr) :: u16) = snd addr"
proof -
  obtain t where t: "target_ok t" "addr_bytes (fst addr) = target_bytes t" "target_host t = ip_string (fst addr)"
    using addr_bytes_target assms(5) by blast
  have "readAddr (drop 3 (wrap addr data)) = (Inr (ip_string (fst addr)), put_be16 (word_of_nat (snd addr)) @ data)"
    using readAddr_target [OF t(1)] t(2,3) by (simp add: wrap_def port_bytes_def)
  moreover have "unat (word_of_nat (snd addr) :: u16) = snd addr"
    using assms(6) by (simp add: unsigned_of_nat take_bit_nat_eq_self_iff)
  moreover have "take 3 (wrap addr data) = [0, 0, 0]" by (simp add: wrap_def)
  ultimately show ?thesis using assms(2,3)
    by (simp add: relay_step_fits [OF assms(1,4)] client_after_def)
qed

theorem reply_header_roundtrip_witness:
  "\<exists>r' w. relay_step demo_socks_env (new_relay\<lparr> firstPacket := False, clientUDPAddr := ([10, 0, 0, 1], 7) \<rparr>)
     ([1, 2, 3], ([8, 8, 8, 8], 53)) = Inr (Continue r' [(w, ([10, 0, 0, 1], 7))])"
  using reply_header_roundtrip [of "new_relay\<lparr> firstPacket := False, clientUDPAddr := ([10, 0, 0, 1], 7) \<rparr>"
      "([8, 8, 8, 8], 53)" "[1, 2, 3]" demo_socks_env] new_relay_ok
  by (auto simp: relay_ok_def same_endpoint_def ip_equal_def buf_size_def)

text \<open>C19: the client of an association is the sender of its first datagram, and no later datagram can
  change that: in a run, every datagram sent goes to that client or was caused by a datagram of that
  client, so other hosts reach only the client.\<close>

theorem relay_serves_first_sender:
  assumes "relay_run env new_relay ((data, addr) # ds) = Inr (r, outs, stop)"
  shows "(stop = None \<longrightarrow> clientUDPAddr r = addr) \<and>
    (\<forall>(from, p, dest) \<in> set outs. same_endpoint addr from \<or> dest = addr)"
proof (cases "\<exists>r1 out. relay_step env new_relay (data, addr) = Inr (Continue r1 out)")
  case True
  then obtain r1 out where step: "relay_step env new_relay (data, addr) = Inr (Continue r1 out)" by blast
  have "client_after new_relay addr = addr" by (simp add: client_after_def new_relay_def)
  note s = relay_step_Continue [OF step, simplified this snd_conv]
  from assms step obtain outs' where
    run: "relay_run env r1 ds = Inr (r, outs', stop)" "outs = map (Pair addr) out @ outs'"
    by (auto split: sum.splits)
  from relay_run_outs [OF run(1)] s run(2) show ?thesis by fastforce
next
  case False
  then show ?thesis using assms by (auto split: sum.splits relay_result.splits)
qed

theorem relay_serves_first_sender_witness:
  "\<exists>r outs. relay_run demo_socks_env new_relay [([1, 0, 0], ([10, 0, 0, 1], 7)), ([3], ([8, 8, 8, 8], 53))] =
      Inr (r, outs, None) \<and> clientUDPAddr r = ([10, 0, 0, 1], 7)"
proof -
  have "\<exists>r outs. relay_run demo_socks_env new_relay [([1, 0, 0], ([10, 0, 0, 1], 7)), ([3], ([8, 8, 8, 8], 53))] =
      Inr (r, outs, None)"
    by (simp add: relay_step_def new_relay_def buf_size_def receive_def from_client_def Let_def
        same_endpoint_def ip_equal_def)
  then show ?thesis using relay_serves_first_sender by blast
qed

text \<open>C34: a short datagram kills the server: the relay panics exactly when a datagram of fewer than three
  bytes comes from the client's address (on a new association: from anywhere) and the first three bytes
  of the buffer, old ones included, are zero; the panic is in a goroutine, so it ends the process.\<close>

theorem short_datagram_panics:
  assumes "relay_ok r"
  shows "relay_step env r (data, addr) = Inl p \<longleftrightarrow>
    p = SliceBounds \<and> length data < 3 \<and> same_endpoint (client_after r addr) addr \<and>
    take 3 (data @ drop (length data) (buf r)) = [0, 0, 0]"
proof (cases "length data \<le> buf_size")
  case True
  have "3 \<le> length (data @ drop (length data) (buf r))"
    using assms by (simp add: relay_ok_def buf_size_def)
  then obtain a b c rest where bytes: "data @ drop (length data) (buf r) = a # b # c # rest"
    by (rule length_ge_3_cases)
  show ?thesis
    by (auto simp: relay_step_fits [OF assms True] from_client_panic bytes Let_def nth_Cons')
next
  case False
  then have "fst (receive data (buf r)) = buf_size"
    using assms by (simp add: receive_def relay_ok_def Let_def)
  then show ?thesis using False
    by (auto simp: relay_step_def from_client_panic buf_size_def Let_def split: prod.splits)
qed

theorem short_datagram_panics_witness:
  "relay_step demo_socks_env new_relay ([], ([8, 8, 8, 8], 53)) = Inl SliceBounds"
  using short_datagram_panics [OF new_relay_ok, of demo_socks_env "[]" "([8, 8, 8, 8], 53)" SliceBounds]
  by (simp add: new_relay_def client_after_def buf_size_def numeral_3_eq_3)

section \<open>The life of an association\<close>

text \<open>
  Two goroutines share the socket and the channel \<^verbatim>\<open>done\<close>: the relay loops on \<^verbatim>\<open>len(done) == 0\<close>
  and blocks in \<^verbatim>\<open>ReadFromUDP\<close>; the other reads the client's TCP connection until it fails, then
  sends on \<^verbatim>\<open>done\<close> and closes the socket. No goroutine ever receives from \<^verbatim>\<open>done\<close>, so a send on it
  completes only while its buffer has room. A panic of the relay ends the process.
\<close>

datatype relay_status = Looping | Receiving | Returned

datatype tcp_status = TcpReading | TcpSignalling | TcpFinished

record assoc =
  relay_status :: relay_status
  relay_state :: relay
  tcp_status :: tcp_status
  done_cap :: nat
  done_len :: nat
  socket_open :: bool
  crashed :: bool

definition new_assoc :: assoc where
  "new_assoc = \<lparr> relay_status = Looping, relay_state = new_relay, tcp_status = TcpReading,
     done_cap = 0, done_len = 0, socket_open = True, crashed = False \<rparr>"

inductive assoc_step :: "socks_env \<Rightarrow> assoc \<Rightarrow> assoc \<Rightarrow> bool" for env where
  loop_check: "\<not> crashed s \<Longrightarrow> relay_status s = Looping \<Longrightarrow>
    assoc_step env s (s\<lparr> relay_status := (if done_len s = 0 then Receiving else Returned) \<rparr>)"
| datagram: "\<not> crashed s \<Longrightarrow> relay_status s = Receiving \<Longrightarrow> socket_open s \<Longrightarrow>
    relay_step env (relay_state s) d = Inr (Continue r out) \<Longrightarrow>
    assoc_step env s (s\<lparr> relay_status := Looping, relay_state := r \<rparr>)"
| relay_return: "\<not> crashed s \<Longrightarrow> relay_status s = Receiving \<Longrightarrow> socket_open s \<Longrightarrow>
    relay_step env (relay_state s) d = Inr (Return e) \<Longrightarrow>
    assoc_step env s (s\<lparr> relay_status := Returned \<rparr>)"
| relay_panic: "\<not> crashed s \<Longrightarrow> relay_status s = Receiving \<Longrightarrow> socket_open s \<Longrightarrow>
    relay_step env (relay_state s) d = Inl p \<Longrightarrow>
    assoc_step env s (s\<lparr> crashed := True \<rparr>)"
| read_error: "\<not> crashed s \<Longrightarrow> relay_status s = Receiving \<Longrightarrow>
    assoc_step env s (s\<lparr> relay_status := Returned \<rparr>)"
| tcp_data: "\<not> crashed s \<Longrightarrow> tcp_status s = TcpReading \<Longrightarrow> assoc_step env s s"
| tcp_end: "\<not> crashed s \<Longrightarrow> tcp_status s = TcpReading \<Longrightarrow>
    assoc_step env s (s\<lparr> tcp_status := TcpSignalling \<rparr>)"
| signal: "\<not> crashed s \<Longrightarrow> tcp_status s = TcpSignalling \<Longrightarrow> done_len s < done_cap s \<Longrightarrow>
    assoc_step env s (s\<lparr> tcp_status := TcpFinished, done_len := Suc (done_len s), socket_open := False \<rparr>)"

inductive assoc_reachable :: "socks_env \<Rightarrow> assoc \<Rightarrow> bool" for env where
  start: "assoc_reachable env new_assoc"
| step: "assoc_reachable env s \<Longrightarrow> assoc_step env s s' \<Longrightarrow> assoc_reachable env s'"

inductive_cases assoc_step_E: "assoc_step env s s'"

definition assoc_inv :: "assoc \<Rightarrow> bool" where
  "assoc_inv s \<longleftrightarrow> done_cap s = 0 \<and> done_len s = 0 \<and> socket_open s \<and> tcp_status s \<noteq> TcpFinished \<and>
     relay_ok (relay_state s)"

lemma relay_step_ok:
  "relay_ok r \<Longrightarrow> relay_step env r d = Inr (Continue r' out) \<Longrightarrow> relay_ok r'"
  using relay_step_Continue by (fastforce simp: relay_ok_def)

lemma assoc_inv_step: "assoc_inv s \<Longrightarrow> assoc_step env s s' \<Longrightarrow> assoc_inv s'"
  by (erule assoc_step_E) (auto simp: assoc_inv_def relay_step_ok)

lemma assoc_inv_reachable: "assoc_reachable env s \<Longrightarrow> assoc_inv s"
proof (induction rule: assoc_reachable.induct)
  case start
  then show ?case by (simp add: assoc_inv_def new_assoc_def new_relay_ok)
next
  case (step s s')
  then show ?case by (simp add: assoc_inv_step)
qed

text \<open>C35: an association is never torn down: the channel is unbuffered and nobody receives from it, so
  the send that precedes the close of the socket blocks for good. In every reachable state the socket
  is open and the goroutine of the TCP connection has not finished; once the client is gone that
  goroutine can do nothing, and the relay goes on unless a datagram makes it return or panic.\<close>

theorem association_never_closed:
  assumes "assoc_reachable env s"
  shows "socket_open s \<and> tcp_status s \<noteq> TcpFinished \<and>
    (\<forall>s'. assoc_step env s s' \<longrightarrow> tcp_status s = TcpSignalling \<longrightarrow> tcp_status s' = TcpSignalling) \<and>
    (relay_status s = Looping \<and> \<not> crashed s \<longrightarrow> assoc_step env s (s\<lparr> relay_status := Receiving \<rparr>))"
proof -
  have inv: "assoc_inv s" using assms by (rule assoc_inv_reachable)
  have "tcp_status s' = TcpSignalling" if "assoc_step env s s'" "tcp_status s = TcpSignalling" for s'
    using that inv by (auto simp: assoc_inv_def elim: assoc_step_E)
  moreover have "assoc_step env s (s\<lparr> relay_status := Receiving \<rparr>)"
    if "relay_status s = Looping" "\<not> crashed s"
    using assoc_step.loop_check [OF that(2,1), of env] inv by (simp add: assoc_inv_def)
  ultimately show ?thesis using inv by (simp add: assoc_inv_def)
qed

theorem association_never_closed_witness:
  "socket_open (new_assoc\<lparr> tcp_status := TcpSignalling \<rparr>) \<and>
    assoc_step demo_socks_env (new_assoc\<lparr> tcp_status := TcpSignalling \<rparr>)
      (new_assoc\<lparr> tcp_status := TcpSignalling, relay_status := Receiving \<rparr>)"
proof -
  have "assoc_reachable demo_socks_env (new_assoc\<lparr> tcp_status := TcpSignalling \<rparr>)"
    by (rule assoc_reachable.step [OF assoc_reachable.start assoc_step.tcp_end])
      (simp_all add: new_assoc_def)
  from association_never_closed [OF this] show ?thesis by (simp add: new_assoc_def)
qed

end
