(* ===== verification/Pipe.thy ===== *)
theory Pipe
  imports Prelude
begin

text \<open>
  Copying between connections, as the two proxies do it: a connection that is written to, the copy
  loop of \<^verbatim>\<open>io.Copy\<close> between two TCP connections, and \<^verbatim>\<open>bufio.Writer\<close> with its method \<^verbatim>\<open>ReadFrom\<close>,
  which is what \<^verbatim>\<open>io.Copy\<close> calls when the destination is a buffered writer. The locale \<open>byte_pipe\<close> is
  their common contract: what arrives at the destination is the source's stream, in order, without gaps
  and without duplicates, up to a part that is still held back. Elements are bytes in one proxy and
  characters in the other, hence the type variable.
\<close>

section \<open>The contract\<close>

locale byte_pipe =
  fixes feed :: "'s \<Rightarrow> 'b list \<Rightarrow> 's"
    and sent :: "'s \<Rightarrow> 'b list"
    and held :: "'s \<Rightarrow> 'b list"
    and dead :: "'s \<Rightarrow> bool"
  assumes feed_live: "\<not> dead (feed s c) \<Longrightarrow> sent (feed s c) @ held (feed s c) = sent s @ held s @ c"
    and feed_upto: "\<exists>d. sent s @ held s @ c = sent (feed s c) @ d"
    and feed_dead: "dead s \<Longrightarrow> feed s c = s"
    and feed_grows: "\<exists>d. sent (feed s c) = sent s @ d"
begin

lemma run_dead: "dead s \<Longrightarrow> foldl feed s cs = s"
  by (induction cs) (simp_all add: feed_dead)

lemma run_live:
  "\<not> dead (foldl feed s cs) \<Longrightarrow> sent (foldl feed s cs) @ held (foldl feed s cs) = sent s @ held s @ concat cs"
proof (induction cs arbitrary: s)
  case (Cons c cs)
  show ?case
  proof (cases "dead (feed s c)")
    case True
    then show ?thesis using Cons.prems by (simp add: run_dead)
  next
    case False
    then show ?thesis using Cons.IH [of "feed s c"] Cons.prems feed_live [of s c] by simp
  qed
qed simp

lemma run_upto: "\<exists>d. sent s @ held s @ concat cs = sent (foldl feed s cs) @ d"
proof (induction cs arbitrary: s)
  case (Cons c cs)
  show ?case
  proof (cases "dead (feed s c)")
    case True
    obtain d where "sent s @ held s @ c = sent (feed s c) @ d" using feed_upto by blast
    then have "sent s @ held s @ concat (c # cs) = sent (feed s c) @ d @ concat cs" by (simp flip: append_assoc)
    then have "\<exists>d. sent s @ held s @ concat (c # cs) = sent (feed s c) @ d" by (rule exI)
    then show ?thesis using True by (simp only: foldl.simps run_dead)
  next
    case False
    obtain d where "sent (feed s c) @ held (feed s c) @ concat cs = sent (foldl feed (feed s c) cs) @ d"
      using Cons.IH by blast
    moreover have "sent s @ held s @ concat (c # cs) = sent (feed s c) @ held (feed s c) @ concat cs"
      using feed_live [OF False] by simp
    ultimately show ?thesis by auto
  qed
qed simp

lemma run_grows: "\<exists>d. sent (foldl feed s cs) = sent s @ d"
proof (induction cs arbitrary: s)
  case (Cons c cs)
  obtain d where "sent (feed s c) = sent s @ d" using feed_grows by blast
  moreover obtain e where "sent (foldl feed (feed s c) cs) = sent (feed s c) @ e" using Cons.IH by blast
  ultimately show ?case by simp
qed simp

end

section \<open>A connection that is written to\<close>

text \<open>
  \<open>out\<close>: what the peer will receive; \<open>broken\<close>: a write failed, after which every write fails.
  \<open>fails w = Some k\<close>: the write that starts when \<open>w\<close> has been sent fails after \<open>k\<close> elements.
\<close>

record 'b wconn =
  out :: "'b list"
  broken :: bool

definition new_wconn :: "'b wconn" where
  "new_wconn = \<lparr> out = [], broken = False \<rparr>"

definition conn_write :: "('b list \<Rightarrow> nat option) \<Rightarrow> 'b list \<Rightarrow> 'b wconn \<Rightarrow> 'b wconn" where
  "conn_write fails bs w =
     (if broken w then w
      else case fails (out w) of
        None \<Rightarrow> w\<lparr> out := out w @ bs \<rparr>
      | Some k \<Rightarrow> w\<lparr> out := out w @ take k bs, broken := True \<rparr>)"

text \<open>\<^verbatim>\<open>io.Copy\<close> between TCP connections writes each chunk as it is read, and stops on a failed write.\<close>

definition copy_feed :: "('b list \<Rightarrow> nat option) \<Rightarrow> 'b wconn \<Rightarrow> 'b list \<Rightarrow> 'b wconn" where
  "copy_feed fails w c = (if broken w then w else conn_write fails c w)"

lemma conn_write_cases:
  obtains (failed) d where "broken (conn_write fails bs w)" "bs = d @ drop (length d) bs"
      "out (conn_write fails bs w) = out w @ d"
  | (written) "\<not> broken (conn_write fails bs w)" "out (conn_write fails bs w) = out w @ bs" "\<not> broken w"
proof (cases "broken w")
  case True
  then show ?thesis by (intro failed [of "[]"]) (simp_all add: conn_write_def)
next
  case unbroken: False
  show ?thesis
  proof (cases "fails (out w)")
    case None
    then show ?thesis using unbroken by (intro written) (simp_all add: conn_write_def)
  next
    case (Some k)
    have "bs = take k bs @ drop (length (take k bs)) bs"
      by (cases "k \<le> length bs") simp_all
    then show ?thesis using unbroken Some by (intro failed [of "take k bs"]) (simp_all add: conn_write_def)
  qed
qed

lemma conn_write_ok [simp]: "fails (out w) = None \<Longrightarrow> \<not> broken w \<Longrightarrow> conn_write fails bs w = w\<lparr> out := out w @ bs \<rparr>"
  by (simp add: conn_write_def)

lemma copy_feed_ok [simp]: "\<forall>x. fails x = None \<Longrightarrow> \<not> broken w \<Longrightarrow> copy_feed fails w c = w\<lparr> out := out w @ c \<rparr>"
  by (simp add: copy_feed_def)

interpretation copying: byte_pipe "copy_feed fails" out "\<lambda>w. []" broken for fails
proof (unfold_locales, goal_cases)
  case (1 s c)
  then show ?case by (cases rule: conn_write_cases [of fails c s]) (auto simp: copy_feed_def)
next
  case (2 s c)
  show ?case
  proof (cases rule: conn_write_cases [of fails c s])
    case (failed d)
    then show ?thesis by (cases "broken s") (auto simp: copy_feed_def)
  next
    case written
    then show ?thesis by (simp add: copy_feed_def)
  qed
next
  case (3 s c)
  then show ?case by (simp add: copy_feed_def)
next
  case (4 s c)
  show ?case by (cases rule: conn_write_cases [of fails c s]) (auto simp: copy_feed_def)
qed

section \<open>A buffered writer\<close>

text \<open>\<^verbatim>\<open>bufio.NewWriter\<close>: \<open>pend\<close> is its buffer of 4096 elements in front of the connection.\<close>

record 'b bufw =
  bw_conn :: "'b wconn"
  pend :: "'b list"

definition buf_cap :: nat where
  "buf_cap = 4096"

definition new_bufw :: "'b wconn \<Rightarrow> 'b bufw" where
  "new_bufw w = \<lparr> bw_conn = w, pend = [] \<rparr>"

definition bw_broken :: "'b bufw \<Rightarrow> bool" where
  "bw_broken w = broken (bw_conn w)"

definition bw_out :: "'b bufw \<Rightarrow> 'b list" where
  "bw_out w = out (bw_conn w)"

text \<open>A flush that fails keeps what was not written.\<close>

definition bw_flush :: "('b list \<Rightarrow> nat option) \<Rightarrow> 'b bufw \<Rightarrow> 'b bufw" where
  "bw_flush fails w =
     (let n = length (out (bw_conn w)); v = conn_write fails (pend w) (bw_conn w)
      in w\<lparr> bw_conn := v, pend := drop (length (out v) - n) (pend w) \<rparr>)"

text \<open>
  \<^verbatim>\<open>ReadFrom\<close> on one chunk that the source delivers: with an empty buffer the chunk goes straight
  to the connection; otherwise the buffer is filled, flushed when it is full, and what is left of the
  chunk goes straight to the connection. At the end of the stream nothing is flushed.
\<close>

definition bw_flush_full :: "('b list \<Rightarrow> nat option) \<Rightarrow> 'b bufw \<Rightarrow> 'b bufw" where
  "bw_flush_full fails w = (if buf_cap \<le> length (pend w) then bw_flush fails w else w)"

definition bw_direct :: "('b list \<Rightarrow> nat option) \<Rightarrow> 'b list \<Rightarrow> 'b bufw \<Rightarrow> 'b bufw" where
  "bw_direct fails c w = (if c = [] then w else w\<lparr> bw_conn := conn_write fails c (bw_conn w) \<rparr>)"

definition bw_feed :: "('b list \<Rightarrow> nat option) \<Rightarrow> 'b bufw \<Rightarrow> 'b list \<Rightarrow> 'b bufw" where
  "bw_feed fails w c =
     (if bw_broken w then w
      else if pend w = [] then bw_direct fails c w
      else
        (let room = buf_cap - length (pend w);
             w = bw_flush_full fails (w\<lparr> pend := pend w @ take room c \<rparr>)
         in if bw_broken w \<or> pend w \<noteq> [] then w else bw_direct fails (drop room c) w))"

lemmas [go_eval] = new_wconn_def conn_write_def copy_feed_def buf_cap_def new_bufw_def bw_broken_def
  bw_out_def bw_flush_def bw_flush_full_def bw_direct_def bw_feed_def

text \<open>A flush moves elements and loses none; a direct write appends what it could write.\<close>

lemma conn_write_prefix:
  "\<exists>d e. bs = d @ e \<and> out (conn_write fails bs w) = out w @ d \<and>
    (\<not> broken (conn_write fails bs w) \<longrightarrow> e = [])"
  by (cases rule: conn_write_cases [of fails bs w]) auto

lemma bw_flush_spec:
  "bw_out (bw_flush fails w) @ pend (bw_flush fails w) = bw_out w @ pend w \<and>
    (\<exists>d. bw_out (bw_flush fails w) = bw_out w @ d) \<and>
    (\<not> bw_broken (bw_flush fails w) \<longrightarrow> pend (bw_flush fails w) = [])"
proof -
  obtain d e where d: "pend w = d @ e"
      "out (conn_write fails (pend w) (bw_conn w)) = out (bw_conn w) @ d"
      "\<not> broken (conn_write fails (pend w) (bw_conn w)) \<longrightarrow> e = []"
    using conn_write_prefix by blast
  have "drop (length d) (pend w) = e" by (simp add: d(1))
  then have "pend (bw_flush fails w) = e" "bw_out (bw_flush fails w) = bw_out w @ d"
      "bw_broken (bw_flush fails w) = broken (conn_write fails (pend w) (bw_conn w))"
    using d(2) by (simp_all add: bw_flush_def bw_broken_def bw_out_def Let_def)
  then show ?thesis using d(1,3) by simp
qed

lemma bw_flush_full_spec:
  "bw_out (bw_flush_full fails w) @ pend (bw_flush_full fails w) = bw_out w @ pend w \<and>
    (\<exists>d. bw_out (bw_flush_full fails w) = bw_out w @ d) \<and>
    (\<not> bw_broken (bw_flush_full fails w) \<longrightarrow>
      pend (bw_flush_full fails w) = [] \<or> length (pend w) < buf_cap)"
  using bw_flush_spec [of fails w] by (auto simp: bw_flush_full_def)

lemma bw_direct_spec:
  "\<exists>d e. c = d @ e \<and> bw_out (bw_direct fails c w) = bw_out w @ d \<and>
    pend (bw_direct fails c w) = pend w \<and> (\<not> bw_broken (bw_direct fails c w) \<longrightarrow> e = [])"
  using conn_write_prefix [of c fails "bw_conn w"] by (auto simp: bw_direct_def bw_broken_def bw_out_def)

text \<open>What \<open>w'\<close> may be after \<open>w\<close> was given \<open>c\<close>.\<close>

definition fed :: "'b bufw \<Rightarrow> 'b list \<Rightarrow> 'b bufw \<Rightarrow> bool" where
  "fed w c w' \<longleftrightarrow> (\<not> bw_broken w' \<longrightarrow> bw_out w' @ pend w' = bw_out w @ pend w @ c) \<and>
    (\<exists>e. bw_out w @ pend w @ c = bw_out w' @ e) \<and> (\<exists>d. bw_out w' = bw_out w @ d)"

lemma fed_direct:
  assumes "pend w = []"
  shows "fed w c (bw_direct fails c w)"
proof -
  obtain d e where "c = d @ e" "bw_out (bw_direct fails c w) = bw_out w @ d"
    "pend (bw_direct fails c w) = pend w" "\<not> bw_broken (bw_direct fails c w) \<longrightarrow> e = []"
    using bw_direct_spec by blast
  then show ?thesis using assms by (simp add: fed_def)
qed

lemma fed_trans:
  assumes "fed w c v" and "fed v c' u" and "\<not> bw_broken v"
  shows "fed w (c @ c') u"
proof -
  have v: "bw_out v @ pend v = bw_out w @ pend w @ c" using assms(1,3) by (simp add: fed_def)
  have all: "bw_out w @ pend w @ c @ c' = bw_out v @ pend v @ c'"
    using arg_cong [OF v, of "\<lambda>x. x @ c'"] by simp
  obtain d where "bw_out v = bw_out w @ d" using assms(1) by (auto simp: fed_def)
  moreover obtain d' where "bw_out u = bw_out v @ d'" using assms(2) by (auto simp: fed_def)
  ultimately have "\<exists>x. bw_out u = bw_out w @ x" by simp
  then show ?thesis using assms(2) unfolding fed_def all by blast
qed

lemma fed_flush_full: "fed w c (bw_flush_full fails (w\<lparr> pend := pend w @ c \<rparr>))"
proof -
  let ?v = "w\<lparr> pend := pend w @ c \<rparr>"
  let ?u = "bw_flush_full fails ?v"
  have v: "bw_out ?v = bw_out w" "pend ?v = pend w @ c" by (simp_all add: bw_out_def)
  note u = bw_flush_full_spec [of fails ?v, unfolded v]
  from conjunct1 [OF u] have "bw_out w @ pend w @ c = bw_out ?u @ pend ?u" by (rule sym)
  then have "\<exists>e. bw_out w @ pend w @ c = bw_out ?u @ e" by (rule exI)
  then show ?thesis using u unfolding fed_def by blast
qed

lemma bw_feed_fed: "fed w c (bw_feed fails w c)"
proof -
  let ?room = "buf_cap - length (pend w)"
  let ?v = "w\<lparr> pend := pend w @ take ?room c \<rparr>"
  let ?u = "bw_flush_full fails ?v"
  consider "bw_broken w" | "\<not> bw_broken w" "pend w = []" | "\<not> bw_broken w" "pend w \<noteq> []" by blast
  then show ?thesis
  proof cases
    case 1
    then show ?thesis by (simp add: bw_feed_def fed_def)
  next
    case 2
    then show ?thesis by (simp add: bw_feed_def fed_direct)
  next
    case 3
    then have f: "bw_feed fails w c = (if bw_broken ?u \<or> pend ?u \<noteq> [] then ?u else bw_direct fails (drop ?room c) ?u)"
      by (simp add: bw_feed_def Let_def)
    have u: "fed w (take ?room c) ?u" by (rule fed_flush_full)
    show ?thesis
    proof (cases "bw_broken ?u")
      case True
      obtain e where "bw_out w @ pend w @ take ?room c = bw_out ?u @ e" using u by (auto simp: fed_def)
      from arg_cong [OF this, of "\<lambda>x. x @ drop ?room c"]
      have "bw_out w @ pend w @ c = bw_out ?u @ (e @ drop ?room c)" by simp
      then have "\<exists>e. bw_out w @ pend w @ c = bw_out ?u @ e" by (rule exI)
      then have "fed w c ?u" using u True unfolding fed_def by blast
      then show ?thesis using f True by simp
    next
      case unbroken: False
      show ?thesis
      proof (cases "pend ?u = []")
        case True
        have "fed w (take ?room c @ drop ?room c) (bw_direct fails (drop ?room c) ?u)"
          using u fed_direct [OF True] unbroken by (rule fed_trans)
        then show ?thesis using f True unbroken by simp
      next
        case False
        then have "length (pend ?v) < buf_cap" using bw_flush_full_spec [of fails ?v] unbroken by blast
        then have "take ?room c = c" by auto
        then show ?thesis using u f False by simp
      qed
    qed
  qed
qed

interpretation buffered: byte_pipe "bw_feed fails" bw_out pend bw_broken for fails
proof (unfold_locales, goal_cases)
  case (3 s c)
  then show ?case by (simp add: bw_feed_def)
qed (use bw_feed_fed in \<open>unfold fed_def, blast\<close>)+

end
