(* ===== verification/Socks5Relay.thy ===== *)
theory Socks5Relay
  imports Socks5 Pipe "HOL-Library.Multiset"
begin

text \<open>
  The relaying of a CONNECT in \<^verbatim>\<open>code/socks5/socks5.go\<close>: \<^verbatim>\<open>forward\<close>, its two goroutines, the channel
  \<^verbatim>\<open>done\<close> that holds two results and the loop of \<^verbatim>\<open>process\<close> that waits for them. Both destinations
  are buffered writers and both sources buffered readers, so \<^verbatim>\<open>io.Copy\<close> first writes what the reader
  has buffered and then lets the writer read from the connection (Pipe.thy).
\<close>

section \<open>forward\<close>

text \<open>\<open>fw_end\<close>: \<open>Some err\<close> once \<^verbatim>\<open>io.Copy\<close> returned, with \<open>err\<close> whether it returned an error.\<close>

record forwarder =
  fw :: "byte bufw"
  fw_end :: "bool option"

text \<open>What a read from the source can give.\<close>

datatype fw_event = Data "byte list" | Eof | ReadError

definition check_broken :: "byte bufw \<Rightarrow> forwarder" where
  "check_broken w = \<lparr> fw = w, fw_end = (if bw_broken w then Some True else None) \<rparr>"

text \<open>
  The start: \<open>early\<close>, what the reader holds in its buffer (at most the writer's capacity), is written to
  the empty buffered writer, which flushes only when it is full.
\<close>

definition start_forward :: "(byte list \<Rightarrow> nat option) \<Rightarrow> byte list \<Rightarrow> byte bufw \<Rightarrow> forwarder" where
  "start_forward fails early w = check_broken (bw_flush_full fails (w\<lparr> pend := pend w @ early \<rparr>))"

definition forward_step :: "(byte list \<Rightarrow> nat option) \<Rightarrow> forwarder \<Rightarrow> fw_event \<Rightarrow> forwarder" where
  "forward_step fails f ev =
     (if fw_end f \<noteq> None then f
      else case ev of
        Data c \<Rightarrow> check_broken (bw_feed fails (fw f) c)
      | Eof \<Rightarrow> f\<lparr> fw_end := Some False \<rparr>
      | ReadError \<Rightarrow> f\<lparr> fw_end := Some True \<rparr>)"

section \<open>The two directions\<close>

record relaying =
  up :: forwarder
  down :: forwarder
  done_q :: "bool list"
  collected :: nat
  returned :: bool

text \<open>A goroutine sends on \<^verbatim>\<open>done\<close> when its copy returns; the channel has room for both.\<close>

definition signal_end :: "forwarder \<Rightarrow> forwarder \<Rightarrow> bool list" where
  "signal_end f f' = (case (fw_end f, fw_end f') of (None, Some e) \<Rightarrow> [e] | _ \<Rightarrow> [])"

text \<open>
  The relay of a connection that the conversation left as \<open>c\<close>, with \<open>early\<close> in the reader's buffer.
  The client's writer is empty after its flush.
\<close>

definition start_relay :: "(byte list \<Rightarrow> nat option) \<Rightarrow> byte list \<Rightarrow> sconn \<Rightarrow> relaying" where
  "start_relay fup early c =
     (let u = start_forward fup early (new_bufw new_wconn);
          d = \<lparr> fw = \<lparr> bw_conn = \<lparr> out = wire c, broken = False \<rparr>, pend = wbuf c \<rparr>, fw_end = None \<rparr>
      in \<lparr> up = u, down = d, done_q = (case fw_end u of Some e \<Rightarrow> [e] | None \<Rightarrow> []), collected = 0,
           returned = False \<rparr>)"

datatype relay_act = Up fw_event | Down fw_event | Collect

text \<open>\<^verbatim>\<open>Collect\<close>: one turn of the loop that receives from \<^verbatim>\<open>done\<close>; it returns on the first error.\<close>

fun relay_do :: "(byte list \<Rightarrow> nat option) \<Rightarrow> (byte list \<Rightarrow> nat option) \<Rightarrow> relaying \<Rightarrow> relay_act \<Rightarrow> relaying" where
  "relay_do fup fdown s (Up ev) = (if returned s then s else
     s\<lparr> up := forward_step fup (up s) ev,
        done_q := done_q s @ signal_end (up s) (forward_step fup (up s) ev) \<rparr>)"
| "relay_do fup fdown s (Down ev) = (if returned s then s else
     s\<lparr> down := forward_step fdown (down s) ev,
        done_q := done_q s @ signal_end (down s) (forward_step fdown (down s) ev) \<rparr>)"
| "relay_do fup fdown s Collect = (if returned s then s else
     case done_q s of
       [] \<Rightarrow> s
     | e # q \<Rightarrow>
         if e then s\<lparr> done_q := q, returned := True \<rparr>
         else s\<lparr> done_q := q, collected := Suc (collected s), returned := (Suc (collected s) = 2) \<rparr>)"

definition relay_acts :: "(byte list \<Rightarrow> nat option) \<Rightarrow> (byte list \<Rightarrow> nat option) \<Rightarrow> relaying \<Rightarrow> relay_act list \<Rightarrow> relaying" where
  "relay_acts fup fdown s acts = foldl (relay_do fup fdown) s acts"

lemma relay_acts_simps [simp]:
  "relay_acts fup fdown s [] = s"
  "relay_acts fup fdown s (a # as) = relay_acts fup fdown (relay_do fup fdown s a) as"
  by (simp_all add: relay_acts_def)

text \<open>What each side has received, and the data that each side sends in a run.\<close>

definition to_server :: "relaying \<Rightarrow> byte list" where
  "to_server s = bw_out (fw (up s))"

definition to_client :: "relaying \<Rightarrow> byte list" where
  "to_client s = bw_out (fw (down s))"

fun up_data :: "relay_act list \<Rightarrow> byte list" where
  "up_data [] = []"
| "up_data (Up (Data c) # as) = c @ up_data as"
| "up_data (_ # as) = up_data as"

fun down_data :: "relay_act list \<Rightarrow> byte list" where
  "down_data [] = []"
| "down_data (Down (Data c) # as) = c @ down_data as"
| "down_data (_ # as) = down_data as"

lemmas [go_eval] = check_broken_def start_forward_def forward_step_def signal_end_def start_relay_def
  to_server_def to_client_def

section \<open>main\<close>

text \<open>
  A failed \<^verbatim>\<open>Accept\<close> is skipped, every connection gets a \<^verbatim>\<open>process\<close> of its own. \<open>Listen\<close> opens the port on
  the loopback address; \<open>None\<close>: it failed and the program ends.
\<close>

fun accept_clients :: "'conn option list \<Rightarrow> 'conn list" where
  "accept_clients [] = []"
| "accept_clients (None # as) = accept_clients as"
| "accept_clients (Some conn # as) = conn # accept_clients as"

definition socks_main :: "(int \<Rightarrow> 'l option) \<Rightarrow> ('l \<Rightarrow> 'conn option list) \<Rightarrow> int \<Rightarrow> 'conn list option" where
  "socks_main Listen Accept port = map_option (\<lambda>l. accept_clients (Accept l)) (Listen port)"

section \<open>One direction\<close>

text \<open>
  The rest of a run, seen from one direction: \<open>f\<close> has received \<open>x\<close> in all, so its output and what it
  holds back are \<open>x\<close> while it runs, and its output is a prefix of \<open>x\<close> in any case.
\<close>

definition carries :: "byte list \<Rightarrow> forwarder \<Rightarrow> bool" where
  "carries x f \<longleftrightarrow> (fw_end f = None \<longrightarrow> bw_out (fw f) @ pend (fw f) = x \<and> \<not> bw_broken (fw f)) \<and>
     (\<exists>e. x = bw_out (fw f) @ e)"

lemma carries_weaken: "carries x f \<Longrightarrow> fw_end f \<noteq> None \<Longrightarrow> carries (x @ c) f"
  by (auto simp: carries_def)

lemma carries_start:
  assumes "\<not> bw_broken w"
  shows "carries (bw_out w @ pend w @ early) (start_forward fails early w)"
  using fed_flush_full [of w early fails] by (auto simp: carries_def start_forward_def check_broken_def fed_def)

lemma carries_step:
  assumes "carries x f"
  shows "carries (x @ (case ev of Data c \<Rightarrow> c | _ \<Rightarrow> [])) (forward_step fails f ev)"
proof (cases "fw_end f = None")
  case True
  then have x: "x = bw_out (fw f) @ pend (fw f)" using assms by (simp add: carries_def)
  show ?thesis
  proof (cases ev)
    case (Data c)
    then show ?thesis using bw_feed_fed [of "fw f" c fails] True
      by (auto simp: carries_def forward_step_def check_broken_def fed_def x)
  qed (use assms True in \<open>auto simp: carries_def forward_step_def\<close>)
next
  case False
  then show ?thesis using assms carries_weaken by (auto simp: forward_step_def split: fw_event.split)
qed

section \<open>Both directions\<close>

lemma relay_returned: "returned s \<Longrightarrow> relay_acts fup fdown s acts = s"
proof (induction acts)
  case (Cons a as)
  then show ?case by (cases a) simp_all
qed simp

lemma data_Cons:
  "up_data (a # as) = up_data [a] @ up_data as"
  "down_data (a # as) = down_data [a] @ down_data as"
  by (cases a rule: up_data.cases [of "[a]" for a, simplified], auto)
    (cases a rule: down_data.cases [of "[a]" for a, simplified], auto)

lemma relay_do_carries:
  assumes "carries x (up s)" and "carries y (down s)" and "\<not> returned s"
  shows "carries (x @ up_data [a]) (up (relay_do fup fdown s a)) \<and>
    carries (y @ down_data [a]) (down (relay_do fup fdown s a))"
proof (cases a)
  case (Up ev)
  then show ?thesis using assms carries_step [of x "up s" ev fup] by (cases ev) simp_all
next
  case (Down ev)
  then show ?thesis using assms carries_step [of y "down s" ev fdown] by (cases ev) simp_all
next
  case Collect
  then show ?thesis using assms by (simp split: list.split)
qed

lemma relay_carries:
  assumes "carries x (up s)" and "carries y (down s)"
  shows "(\<not> returned (relay_acts fup fdown s acts) \<longrightarrow>
      carries (x @ up_data acts) (up (relay_acts fup fdown s acts)) \<and>
      carries (y @ down_data acts) (down (relay_acts fup fdown s acts))) \<and>
    (\<exists>d. x @ up_data acts = to_server (relay_acts fup fdown s acts) @ d) \<and>
    (\<exists>d. y @ down_data acts = to_client (relay_acts fup fdown s acts) @ d)"
  using assms
proof (induction acts arbitrary: s x y)
  case Nil
  then show ?case by (simp add: carries_def to_server_def to_client_def)
next
  case (Cons a as)
  show ?case
  proof (cases "returned s")
    case True
    then show ?thesis using Cons.prems relay_returned [of s fup fdown "a # as"]
      by (auto simp: carries_def to_server_def to_client_def simp del: relay_acts_simps)
  next
    case False
    from Cons.IH [OF conjunct1 [OF relay_do_carries [OF Cons.prems False]]
        conjunct2 [OF relay_do_carries [OF Cons.prems False]]]
    show ?thesis unfolding data_Cons [of a as] append_assoc relay_acts_simps by simp
  qed
qed

lemma carries_start_relay:
  assumes "wbuf c = []"
  shows "carries early (up (start_relay fup early c))" "carries (wire c) (down (start_relay fup early c))"
  using carries_start [of "new_bufw new_wconn" early fup] assms
  by (auto simp: start_relay_def Let_def go_eval) (simp add: carries_def bw_out_def bw_broken_def)

lemma connected_flushed: "process env c = (Connected addr, c') \<Longrightarrow> wbuf c' = []"
  by (auto simp: process_def handle_request_def handle_connect_def handle_associate_def Flush_def Let_def
      split: prod.splits option.splits sum.splits if_splits bool.splits)

section \<open>The end of a relay\<close>

definition ends :: "forwarder \<Rightarrow> bool multiset" where
  "ends f = (case fw_end f of None \<Rightarrow> {#} | Some e \<Rightarrow> {#e#})"

text \<open>
  The results of the two copies are in the channel or were received; every one received so far was
  without error, unless the relay returned.
\<close>

definition relay_inv :: "relaying \<Rightarrow> bool" where
  "relay_inv s \<longleftrightarrow>
     (if returned s then True \<in># ends (up s) + ends (down s) \<or> size (ends (up s) + ends (down s)) = 2
      else mset (done_q s) + replicate_mset (collected s) False = ends (up s) + ends (down s) \<and> collected s < 2)"

lemma forward_step_ends: "ends (forward_step fails f ev) = ends f + mset (signal_end f (forward_step fails f ev))"
  by (auto simp: ends_def signal_end_def forward_step_def check_broken_def split: option.splits fw_event.splits)

lemma relay_inv_start: "relay_inv (start_relay fup early c)"
  by (auto simp: relay_inv_def start_relay_def start_forward_def check_broken_def ends_def Let_def)

lemma relay_inv_do:
  assumes "relay_inv s"
  shows "relay_inv (relay_do fup fdown s a)"
proof (cases "returned s")
  case True
  then show ?thesis using assms by (cases a) simp_all
next
  case False
  then have inv: "mset (done_q s) + replicate_mset (collected s) False = ends (up s) + ends (down s)"
    "collected s < 2" using assms by (simp_all add: relay_inv_def)
  show ?thesis
  proof (cases a)
    case (Up ev)
    then show ?thesis using False inv by (simp add: relay_inv_def forward_step_ends ac_simps)
  next
    case (Down ev)
    then show ?thesis using False inv by (simp add: relay_inv_def forward_step_ends ac_simps)
  next
    case Collect
    show ?thesis
    proof (cases "done_q s")
      case Nil
      then show ?thesis using Collect assms by simp
    next
      case (Cons e q)
      then have all: "add_mset e (mset q + replicate_mset (collected s) False) = ends (up s) + ends (down s)"
        using inv(1) by simp
      have "size (ends (up s) + ends (down s)) \<le> 2" by (simp add: ends_def split: option.split)
      then have "size (add_mset e (mset q + replicate_mset (collected s) False)) \<le> 2" by (simp only: all)
      moreover have "e \<Longrightarrow> True \<in># add_mset e (mset q + replicate_mset (collected s) False)" by simp
      ultimately show ?thesis using False inv(2) Cons Collect
        by (cases e) (auto simp add: relay_inv_def simp flip: all)
    qed
  qed
qed

lemma relay_inv_acts: "relay_inv s \<Longrightarrow> relay_inv (relay_acts fup fdown s acts)"
  by (induction acts arbitrary: s) (simp_all add: relay_inv_do)

text \<open>Two turns of the loop that waits for the results.\<close>

lemma relay_collect_two:
  assumes "relay_inv s"
  shows "returned (relay_acts fup fdown s [Collect, Collect]) \<longleftrightarrow>
    True \<in># ends (up s) + ends (down s) \<or> size (ends (up s) + ends (down s)) = 2"
proof (cases "returned s")
  case True
  then show ?thesis using assms relay_returned [of s] by (simp add: relay_inv_def)
next
  case False
  define n where "n = collected s"
  define q where "q = done_q s"
  have inv: "ends (up s) + ends (down s) = mset q + replicate_mset n False" "n < 2"
    using assms False by (simp_all add: relay_inv_def n_def q_def)
  have "size (ends (up s) + ends (down s)) \<le> 2" by (simp add: ends_def split: option.split)
  then have "length q + n \<le> 2" by (simp add: inv)
  then consider "q = []" | e where "q = [e]" | d e where "q = [d, e]" "n = 0"
    by (cases q rule: list.exhaust [case_product list.exhaust [of "tl q"]]) (auto simp: length_Suc_conv le_Suc_eq numeral_2_eq_2)
  then show ?thesis unfolding inv using False inv(2)
    by cases (auto simp: q_def n_def)
qed

section \<open>A transparent tunnel\<close>

text \<open>
  What a relay should be: two streams that pass every chunk on at once, each until it ends, the results
  of the two in the order in which they ended, and the end of the whole.
\<close>

type_synonym stream = "byte list \<times> bool option"

record tunnel =
  t_up :: stream
  t_down :: stream
  t_results :: "bool list"
  t_taken :: nat
  t_closed :: bool

fun pass :: "stream \<Rightarrow> fw_event \<Rightarrow> stream" where
  "pass (g, Some e) ev = (g, Some e)"
| "pass (g, None) (Data c) = (g @ c, None)"
| "pass (g, None) Eof = (g, Some False)"
| "pass (g, None) ReadError = (g, Some True)"

definition result :: "stream \<Rightarrow> stream \<Rightarrow> bool list" where
  "result x y = (case (snd x, snd y) of (None, Some e) \<Rightarrow> [e] | _ \<Rightarrow> [])"

fun tunnel_act :: "tunnel \<Rightarrow> relay_act \<Rightarrow> tunnel" where
  "tunnel_act t (Up ev) = (if t_closed t then t else
     t\<lparr> t_up := pass (t_up t) ev, t_results := t_results t @ result (t_up t) (pass (t_up t) ev) \<rparr>)"
| "tunnel_act t (Down ev) = (if t_closed t then t else
     t\<lparr> t_down := pass (t_down t) ev, t_results := t_results t @ result (t_down t) (pass (t_down t) ev) \<rparr>)"
| "tunnel_act t Collect = (if t_closed t \<or> t_results t = [] then t
     else if hd (t_results t) then t\<lparr> t_results := tl (t_results t), t_closed := True \<rparr>
     else t\<lparr> t_results := tl (t_results t), t_taken := Suc (t_taken t), t_closed := (t_taken t = 1) \<rparr>)"

definition new_tunnel :: "byte list \<Rightarrow> tunnel" where
  "new_tunnel reply = \<lparr> t_up = ([], None), t_down = (reply, None), t_results = [], t_taken = 0, t_closed = False \<rparr>"

text \<open>The tunnel that a relay implements; a failed direction is not counted as received.\<close>

definition abs_relay :: "relaying \<Rightarrow> tunnel" where
  "abs_relay s = \<lparr> t_up = (to_server s, fw_end (up s)), t_down = (to_client s, fw_end (down s)),
     t_results = done_q s, t_taken = collected s, t_closed = returned s \<rparr>"

definition unbuffered :: "forwarder \<Rightarrow> bool" where
  "unbuffered f \<longleftrightarrow> pend (fw f) = [] \<and> \<not> bw_broken (fw f)"

lemma forward_step_unbuffered:
  assumes "\<forall>x. fails x = None" and "unbuffered f"
  shows "unbuffered (forward_step fails f ev) \<and>
    (bw_out (fw (forward_step fails f ev)), fw_end (forward_step fails f ev)) = pass (bw_out (fw f), fw_end f) ev"
proof (cases "fw_end f")
  case None
  then show ?thesis using assms
    by (cases ev) (auto simp: unbuffered_def forward_step_def check_broken_def bw_feed_def bw_direct_def
        bw_broken_def bw_out_def)
next
  case (Some e)
  then show ?thesis using assms by (simp add: forward_step_def)
qed

lemma relay_do_tunnel:
  assumes "\<forall>x. fup x = None" and "\<forall>x. fdown x = None" and "unbuffered (up s)" and "unbuffered (down s)"
    and "collected s < 2"
  shows "unbuffered (up (relay_do fup fdown s a)) \<and> unbuffered (down (relay_do fup fdown s a)) \<and>
    abs_relay (relay_do fup fdown s a) = tunnel_act (abs_relay s) a"
proof (cases a)
  case (Up ev)
  note step = forward_step_unbuffered [OF assms(1,3), of ev]
  then show ?thesis using assms(4) Up
    by (auto simp: abs_relay_def to_server_def to_client_def signal_end_def result_def
        conjunct2 [OF step, symmetric] assms(3))
next
  case (Down ev)
  note step = forward_step_unbuffered [OF assms(2,4), of ev]
  then show ?thesis using assms(3) Down
    by (auto simp: abs_relay_def to_server_def to_client_def signal_end_def result_def
        conjunct2 [OF step, symmetric] assms(4))
next
  case Collect
  then show ?thesis using assms(3-5)
    by (auto simp: abs_relay_def to_server_def to_client_def split: list.split)
qed

lemma relay_acts_tunnel:
  assumes "\<forall>x. fup x = None" and "\<forall>x. fdown x = None" and "unbuffered (up s)" and "unbuffered (down s)"
    and "relay_inv s"
  shows "abs_relay (relay_acts fup fdown s acts) = foldl tunnel_act (abs_relay s) acts"
  using assms(3-)
proof (induction acts arbitrary: s)
  case (Cons a as)
  show ?case
  proof (cases "returned s")
    case True
    have "foldl tunnel_act t as = t" if "t_closed t" for t as
    proof (induction as)
      case (Cons b bs)
      then show ?case using that by (cases b) simp_all
    qed simp
    then show ?thesis using relay_returned [OF True, of fup fdown "a # as"] True
      by (simp add: abs_relay_def del: relay_acts_simps foldl.simps)
  next
    case False
    then have "collected s < 2" using Cons.prems(3) by (simp add: relay_inv_def)
    with relay_do_tunnel [OF assms(1,2) Cons.prems(1,2), of a] Cons.IH [of "relay_do fup fdown s a"]
    show ?thesis using relay_inv_do [OF Cons.prems(3)] by simp
  qed
qed simp

section \<open>Properties\<close>

text \<open>C4: the relay of an established CONNECT implements a transparent tunnel, when the client waited for
  the reply before it sent data and no write fails: in whatever order the two sides send, end or fail and
  the server collects the results, the destination has received what the client sent, the client its replies
  and what the destination sent, every chunk at once, and the relay ends exactly when the tunnel does.\<close>

theorem relay_implements_tunnel:
  assumes "process env (new_sconn bs) = (Connected addr, c)"
    and "\<forall>x. fup x = None" and "\<forall>x. fdown x = None"
  shows "abs_relay (relay_acts fup fdown (start_relay fup [] c) acts) = foldl tunnel_act (new_tunnel (wire c)) acts"
proof -
  have "abs_relay (start_relay fup [] c) = new_tunnel (wire c)"
    "unbuffered (up (start_relay fup [] c))" "unbuffered (down (start_relay fup [] c))"
    using connected_flushed [OF assms(1)]
    by (simp_all add: abs_relay_def new_tunnel_def unbuffered_def go_eval Let_def)
  then show ?thesis using relay_acts_tunnel [OF assms(2,3) _ _ relay_inv_start, of fup "[]" c acts] by simp
qed

lemma demo_connected:
  "\<exists>bs c. process demo_socks_env (new_sconn bs) = (Connected ''1.2.3.4:80'', c) \<and> rd c = rest"
proof -
  have addr: "JoinHostPort (target_host (V4 [1, 2, 3, 4])) 80 = ''1.2.3.4:80''" by code_simp
  have "fst (process demo_socks_env (new_sconn (request_bytes [0] 5 1 0 (V4 [1, 2, 3, 4]) 80 @ rest))) =
      Connected ''1.2.3.4:80'' \<and> 
    rd (snd (process demo_socks_env (new_sconn (request_bytes [0] 5 1 0 (V4 [1, 2, 3, 4]) 80 @ rest)))) = rest"
    by (subst (1 2) process_request) (simp_all add: demo_socks_env_def handle_connect_def addr
        bound_reply_def buffer_def Flush_def Let_def del: target_host.simps)
  then show ?thesis by (metis prod.collapse)
qed

theorem relay_implements_tunnel_witness:
  "\<exists>c. t_up (abs_relay (relay_acts (\<lambda>x. None) (\<lambda>x. None) (start_relay (\<lambda>x. None) [] c)
    [Up (Data [1, 2]), Down (Data [3]), Up Eof])) = ([1, 2], Some False)"
proof -
  obtain bs c where "process demo_socks_env (new_sconn bs) = (Connected ''1.2.3.4:80'', c)"
    using demo_connected by blast
  from relay_implements_tunnel [OF this, of "\<lambda>x. None" "\<lambda>x. None" "[Up (Data [1, 2]), Down (Data [3]), Up Eof]"]
  have "t_up (abs_relay (relay_acts (\<lambda>x. None) (\<lambda>x. None) (start_relay (\<lambda>x. None) [] c)
      [Up (Data [1, 2]), Down (Data [3]), Up Eof])) = ([1, 2], Some False)"
    by (simp add: new_tunnel_def del: relay_acts_simps)
  then show ?thesis by (rule exI)
qed

text \<open>C10: whatever goes wrong, a relay never corrupts, reorders, duplicates or invents data: at any moment of
  any run, with writes that fail at any point and data that the client sent ahead of the reply, the
  destination has received a prefix of what the client sent after its request, and the client has received
  the replies followed by a prefix of what the destination sent.\<close>

theorem relay_delivers_prefixes:
  assumes "process env (new_sconn bs) = (Connected addr, c)" and "rd c = early @ up_data acts @ later"
    and "s = relay_acts fup fdown (start_relay fup early c) acts"
  shows "(\<exists>d. rd c = to_server s @ d) \<and> (\<exists>d. wire c @ down_data acts = to_client s @ d)"
proof -
  note start = carries_start_relay [OF connected_flushed [OF assms(1)], where early = early and fup = fup]
  from relay_carries [OF start, of fup fdown acts] obtain d e where
    "early @ up_data acts = to_server s @ d" "wire c @ down_data acts = to_client s @ e"
    using assms(3) by blast
  then show ?thesis using assms(2) by (metis append_assoc)
qed

theorem relay_delivers_prefixes_witness:
  "\<exists>c d. [7, 8, 9] = to_server (relay_acts (\<lambda>x. Some 1) (\<lambda>x. None) (start_relay (\<lambda>x. Some 1) [] c) [Up (Data [7, 8])]) @ d"
proof -
  obtain bs c where "process demo_socks_env (new_sconn bs) = (Connected ''1.2.3.4:80'', c)" "rd c = [7, 8, 9]"
    using demo_connected by blast
  from relay_delivers_prefixes [OF this(1), of "[]" "[Up (Data [7, 8])]" "[9]" _ "\<lambda>x. Some 1" "\<lambda>x. None"] this(2)
  show ?thesis by (metis append_Nil append_Cons up_data.simps(1,2))
qed

text \<open>When a relay ends: the server closes both connections once a direction ended with an error or both
  ended, and no earlier; the end of one side's stream alone closes nothing, and is not passed on to the
  other side. Two turns of the collecting loop suffice.\<close>

lemma relay_returns:
  "let s = relay_acts fup fdown (start_relay fup early c) acts in
    returned (relay_acts fup fdown s [Collect, Collect]) \<longleftrightarrow>
      fw_end (up s) = Some True \<or> fw_end (down s) = Some True \<or>
      (\<exists>d e. fw_end (up s) = Some d \<and> fw_end (down s) = Some e)"
  unfolding Let_def relay_collect_two [OF relay_inv_acts [OF relay_inv_start]]
  by (auto simp: ends_def split: option.splits)

lemma bw_feed_holds:
  "pend w \<noteq> [] \<Longrightarrow> length (pend w @ c) < buf_cap \<Longrightarrow> \<not> bw_broken w \<Longrightarrow> bw_feed fails w c = w\<lparr> pend := pend w @ c \<rparr>"
  by (auto simp: bw_feed_def bw_flush_full_def bw_broken_def Let_def)

text \<open>What the server's writer holds while less than its capacity has come from the client.\<close>

definition holding :: "byte list \<Rightarrow> forwarder \<Rightarrow> bool" where
  "holding x f \<longleftrightarrow> fw f = \<lparr> bw_conn = new_wconn, pend = x \<rparr>"

lemma forward_step_holding:
  assumes "holding x f" and "x \<noteq> []" and "length (x @ c) < buf_cap"
  shows "holding (if fw_end f = None then x @ c else x) (forward_step fails f (Data c))"
    and "holding x (forward_step fails f Eof)" and "holding x (forward_step fails f ReadError)"
  using assms bw_feed_holds [of "fw f" c fails]
  by (auto simp: holding_def forward_step_def check_broken_def bw_broken_def new_wconn_def)

lemma relay_holding:
  assumes "holding x (up s)" and "x \<noteq> []" and "length (x @ up_data acts) < buf_cap"
  shows "\<exists>y. holding y (up (relay_acts fup fdown s acts))"
  using assms
proof (induction acts arbitrary: s x)
  case (Cons a as)
  have "length (x @ up_data [a]) < buf_cap" "length ((x @ up_data [a]) @ up_data as) < buf_cap"
    using Cons.prems(3) unfolding data_Cons [of a as] by simp_all
  show ?case
  proof (cases a)
    case (Up ev)
    note step = forward_step_holding [OF Cons.prems(1,2), where fails = fup]
    have "\<exists>y. holding y (forward_step fup (up s) ev) \<and> y \<noteq> [] \<and> length (y @ up_data as) < buf_cap"
    proof (cases ev)
      case (Data c)
      then show ?thesis using step(1) [of c] Cons.prems(2,3) Up
        by (cases "fw_end (up s) = None") (auto intro: exI [of _ "x @ c"] exI [of _ x])
    qed (use step(2,3) Cons.prems Up in auto)
    then have "\<exists>y. holding y (up (relay_do fup fdown s a)) \<and> y \<noteq> [] \<and> length (y @ up_data as) < buf_cap"
    proof (cases "returned s")
      case True
      then show ?thesis using Cons.prems Up by (intro exI [of _ x]) (simp add: data_Cons(1) [of "Up ev" as])
    next
      case False
      then show ?thesis using \<open>\<exists>y. holding y (forward_step fup (up s) ev) \<and> _\<close> Up by simp
    qed
    then show ?thesis using Cons.IH by auto
  next
    case (Down ev)
    then show ?thesis using Cons.IH [of x "relay_do fup fdown s a"] Cons.prems by simp
  next
    case Collect
    have "up (relay_do fup fdown s Collect) = up s" by (simp split: list.split)
    then show ?thesis using Collect Cons.prems Cons.IH [of x "relay_do fup fdown s a"] by simp
  qed
qed auto

text \<open>C23: data that a client sends right behind its CONNECT request is held back: it goes to a buffered
  writer that nothing flushes, so as long as the client has sent less than 4096 bytes in all the destination
  receives none of them, whatever else happens, even when the client ends its stream; a client that then
  waits for an answer waits for ever.\<close>

theorem pipelined_data_held_back:
  assumes "length methods < 256" and "0 \<in> set methods" and "target_ok t" and "FlushFails env [] = None"
    and "process env (new_sconn (request_bytes methods v 1 rsv t port @ early @ later)) = (Connected addr, c)"
    and "early \<noteq> []" and "length (early @ up_data acts) < 4096"
  shows "rd c = early @ later \<and> to_server (relay_acts fup fdown (start_relay fup early c) acts) = []"
proof -
  have "rd c = early @ later"
    using process_request [OF assms(1,2,4,3), of v 1 rsv port "early @ later"] assms(5)
    by (auto simp: handle_connect_def bound_reply_def buffer_def Flush_def Let_def
        split: if_splits option.splits prod.splits bool.splits)
  moreover have "holding early (up (start_relay fup early c))"
    using assms(7) by (simp add: holding_def start_relay_def start_forward_def check_broken_def
        bw_flush_full_def buf_cap_def new_bufw_def Let_def)
  from relay_holding [OF this assms(6), where acts = acts and fup = fup and fdown = fdown] assms(7) obtain y where
    "holding y (up (relay_acts fup fdown (start_relay fup early c) acts))" by (auto simp: buf_cap_def)
  ultimately show ?thesis by (simp add: holding_def to_server_def bw_out_def new_wconn_def)
qed

theorem pipelined_data_held_back_witness:
  "\<exists>c. to_server (relay_acts (\<lambda>x. None) (\<lambda>x. None) (start_relay (\<lambda>x. None) [71, 69, 84] c)
    [Up (Data [32]), Up Eof]) = []"
proof -
  let ?bs = "request_bytes [0] 5 1 0 (V4 [1, 2, 3, 4]) 80 @ [71, 69, 84] @ [32]"
  have addr: "JoinHostPort (target_host (V4 [1, 2, 3, 4])) 80 = ''1.2.3.4:80''" by code_simp
  have "fst (process demo_socks_env (new_sconn ?bs)) = Connected ''1.2.3.4:80''"
    by (subst process_request) (simp_all add: demo_socks_env_def handle_connect_def addr
        bound_reply_def buffer_def Flush_def Let_def del: target_host.simps)
  then obtain c where "process demo_socks_env (new_sconn ?bs) = (Connected ''1.2.3.4:80'', c)"
    by (metis prod.collapse)
  from pipelined_data_held_back [OF _ _ _ _ this, of "[Up (Data [32]), Up Eof]" "\<lambda>x. None" "\<lambda>x. None"]
  have "to_server (relay_acts (\<lambda>x. None) (\<lambda>x. None) (start_relay (\<lambda>x. None) [71, 69, 84] c)
      [Up (Data [32]), Up Eof]) = []"
    by (simp add: demo_socks_env_def)
  then show ?thesis by (rule exI)
qed

end
