(* ===== verification/Mitm.thy ===== *)
theory Mitm
  imports NetAddr
begin

text \<open>
  The request handling of \<^verbatim>\<open>code/mitm/main.go\<close>: the request line that is cut out of the first
  read, the dialled address, the rewritten request line of an HTTP proxy request, and the choice between
  a blind tunnel and an interception for \<^verbatim>\<open>CONNECT\<close>. Bytes are characters here. Whether a dial, a
  TLS dial, a signature or a handshake succeeds is the parameter \<open>env\<close>; the rule is a predicate on the
  domain. The copying that follows (\<^verbatim>\<open>io.Copy\<close> and the two logging loops) is in
  MitmRelay.thy, the certificates are in MitmCa.thy.
\<close>

section \<open>Strings\<close>

text \<open>\<^verbatim>\<open>strings.Split\<close> for a separator that is not empty; \<open>acc\<close> is the piece read so far.\<close>

function split_go :: "string \<Rightarrow> string \<Rightarrow> string \<Rightarrow> string list" where
  "split_go sep acc s =
     (if s = [] then [acc]
      else if sep \<noteq> [] \<and> take (length sep) s = sep then acc # split_go sep [] (drop (length sep) s)
      else split_go sep (acc @ [hd s]) (tl s))"
  by pat_completeness auto
termination
  by (relation "measure (\<lambda>(sep, acc, s). length s)") (auto simp: length_greater_0_conv [symmetric] simp del: length_greater_0_conv)

declare split_go.simps [simp del]

definition Split :: "string \<Rightarrow> string \<Rightarrow> string list" where
  "Split s sep = split_go sep [] s"

fun Contains :: "string \<Rightarrow> string \<Rightarrow> bool" where
  "Contains [] sub \<longleftrightarrow> sub = []"
| "Contains (c # s) sub \<longleftrightarrow> take (length sub) (c # s) = sub \<or> Contains s sub"

text \<open>Indexing a slice: out of range panics.\<close>

definition at :: "'a list \<Rightarrow> nat \<Rightarrow> go_panic + 'a" where
  "at xs i = (if i < length xs then Inr (xs ! i) else Inl IndexRange)"

section \<open>Handling a connection\<close>

record mitm_env =
  DialOk :: "string \<Rightarrow> bool"
  TlsDialOk :: "string \<Rightarrow> bool"
  SignOk :: "string \<Rightarrow> bool"
  HandshakeOk :: "string \<Rightarrow> bool"
  MatchString :: "string \<Rightarrow> bool"

text \<open>
  \<open>HttpRelay host first\<close>: connected to \<open>host\<close>, \<open>first\<close> was written to it, then both sides are copied.
  \<open>Tunnel\<close> and \<open>Intercept\<close> carry the dialled address; in both the client got \<open>established\<close>.
\<close>

datatype mitm_outcome =
    ReadFailed | DialFailed | SignFailed | HandshakeFailed
  | HttpRelay string string | Tunnel string | Intercept string string

definition established :: string where
  "established = ''HTTP/1.1 200 Connection established'' @ [CHR 0x0D, CHR 0x0A, CHR 0x0D, CHR 0x0A]"

record mitm_result =
  outcome :: "go_panic + mitm_outcome"
  dials :: "string list"
  to_client :: string

definition ended :: "go_panic + mitm_outcome \<Rightarrow> mitm_result" where
  "ended out = \<lparr> outcome = out, dials = [], to_client = [] \<rparr>"

definition cr :: char where "cr = CHR 0x0D"

definition newline :: char where "newline = CHR 0x0A"

text \<open>The host to dial for an HTTP request: without a scheme, up to the path, with port 80 if none.\<close>

definition strip_scheme :: "string \<Rightarrow> string" where
  "strip_scheme url = (if Contains url ''://'' then Split url ''://'' ! 1 else url)"

definition http_host :: "string \<Rightarrow> string" where
  "http_host url = (let host = Split url ''/'' ! 0
     in if Contains host '':'' then host else host @ '':80'')"

definition handle_http :: "mitm_env \<Rightarrow> string list \<Rightarrow> string \<Rightarrow> string \<Rightarrow> string \<Rightarrow> mitm_result" where
  "handle_http env parts method url0 rest =
     (let url = strip_scheme url0; host = http_host url in
      if \<not> DialOk env host then (ended (Inr DialFailed))\<lparr> dials := [host] \<rparr>
      else
        (ended (case at (Split url ''/'') 1 of
           Inl p \<Rightarrow> Inl p
         | Inr url1 \<Rightarrow>
             (case at parts 2 of
                Inl p \<Rightarrow> Inl p
              | Inr version \<Rightarrow>
                  Inr (HttpRelay host (method @ '' '' @ url1 @ '' '' @ version @ [cr, newline] @ rest)))))
          \<lparr> dials := [host] \<rparr>)"

definition handle_tunnel :: "mitm_env \<Rightarrow> string \<Rightarrow> mitm_result" where
  "handle_tunnel env url =
     (let domain = Split url '':'' ! 0 in
      if \<not> MatchString env domain then
        (if \<not> DialOk env url then \<lparr> outcome = Inr DialFailed, dials = [url], to_client = [] \<rparr>
         else \<lparr> outcome = Inr (Tunnel url), dials = [url], to_client = established \<rparr>)
      else if \<not> TlsDialOk env url then \<lparr> outcome = Inr DialFailed, dials = [url], to_client = [] \<rparr>
      else if \<not> SignOk env domain then
        \<lparr> outcome = Inr SignFailed, dials = [url], to_client = established \<rparr>
      else if \<not> HandshakeOk env domain then
        \<lparr> outcome = Inr HandshakeFailed, dials = [url], to_client = established \<rparr>
      else \<lparr> outcome = Inr (Intercept url domain), dials = [url], to_client = established \<rparr>)"

text \<open>\<open>chunk\<close>: what the single \<^verbatim>\<open>conn.Read\<close> into 1024 bytes returned, \<open>None\<close> for an error.\<close>

definition handleConnection :: "mitm_env \<Rightarrow> string option \<Rightarrow> mitm_result" where
  "handleConnection env chunk = (case chunk of
       None \<Rightarrow> ended (Inr ReadFailed)
     | Some buf \<Rightarrow>
         if newline \<notin> set buf then ended (Inl SliceBounds)
         else
           (let line = takeWhile (\<lambda>c. c \<noteq> newline) buf;
                rest = drop (Suc (length line)) buf;
                parts = Split line '' '';
                method = parts ! 0
            in case at parts 1 of
                 Inl p \<Rightarrow> ended (Inl p)
               | Inr url \<Rightarrow>
                   if method \<noteq> ''CONNECT'' then handle_http env parts method url rest
                   else handle_tunnel env url))"

lemmas [go_eval] = split_go.simps Split_def at_def established_def ended_def cr_def newline_def
  strip_scheme_def http_host_def handle_http_def handle_tunnel_def handleConnection_def

section \<open>Splitting\<close>

lemma split_go_no_sep: "\<not> Contains s sep \<Longrightarrow> split_go sep acc s = [acc @ s]"
proof (induction s arbitrary: acc)
  case Nil
  then show ?case by (simp add: split_go.simps)
next
  case (Cons c s)
  then show ?case by (subst split_go.simps) auto
qed

lemma Contains_char: "Contains s [c] \<longleftrightarrow> c \<in> set s"
  by (induction s) auto

lemma split_go_char: "c \<notin> set xs \<Longrightarrow> split_go (c # sep) acc (xs @ (c # sep) @ s) = (acc @ xs) # split_go (c # sep) [] s"
proof (induction xs arbitrary: acc)
  case Nil
  then show ?case by (subst split_go.simps) simp
next
  case (Cons x xs)
  then show ?case by (subst split_go.simps) auto
qed

lemma Split_none: "c \<notin> set s \<Longrightarrow> Split s [c] = [s]"
  by (simp add: Split_def split_go_no_sep Contains_char)

lemma Split_sep: "c \<notin> set xs \<Longrightarrow> Split (xs @ c # s) [c] = xs # Split s [c]"
  using split_go_char [of c xs "[]" "[]" s] by (simp add: Split_def)

lemma Split_nonempty: "Split s sep \<noteq> []"
proof -
  have "split_go sep acc s \<noteq> []" for acc
  proof (induction sep acc s rule: split_go.induct)
    case (1 sep acc s)
    then show ?case by (subst split_go.simps) simp
  qed
  then show ?thesis by (simp add: Split_def)
qed

lemma Split_length: "length (Split s [c]) = Suc (count_list s c)"
proof -
  have "length (split_go [c] acc s) = Suc (count_list s c)" for acc
  proof (induction s arbitrary: acc)
    case Nil
    then show ?case by (simp add: split_go.simps)
  next
    case (Cons x s)
    then show ?case by (subst split_go.simps) auto
  qed
  then show ?thesis by (simp add: Split_def)
qed

lemma Split_hd: "Split s [c] ! 0 = takeWhile (\<lambda>x. x \<noteq> c) s"
proof (cases "c \<in> set s")
  case True
  then obtain xs ys where "s = xs @ c # ys" "c \<notin> set xs" by (auto dest: split_list_first)
  then show ?thesis by (auto simp: Split_sep takeWhile_append)
next
  case False
  then have all: "takeWhile (\<lambda>x. x \<noteq> c) s = s" by (auto simp: takeWhile_eq_all_conv)
  show ?thesis unfolding Split_none [OF False] all by simp
qed

section \<open>Properties\<close>

lemma strip_scheme_url:
  assumes "CHR '':'' \<notin> set scheme" and "\<not> Contains url ''://''"
  shows "strip_scheme (scheme @ ''://'' @ url) = url"
proof -
  have "Contains (scheme @ ''://'' @ url) ''://''" by (induction scheme) auto
  moreover have "Split (scheme @ ''://'' @ url) ''://'' = [scheme, url]"
    using split_go_char [OF assms(1), of "''//''" "[]" url] assms(2)
    by (simp add: Split_def split_go_no_sep)
  ultimately show ?thesis by (simp add: strip_scheme_def)
qed

text \<open>C38: what an HTTP proxy request becomes: for a well-formed absolute request the proxy dials the
  request's host (port 80 if it names none) and passes the headers on unchanged, but the request line it
  writes is not a valid one: the target is only the first segment of the path, without its slash, and
  the line ends in two carriage returns.\<close>

theorem http_request_forwarded:
  assumes "{CHR '' '', newline} \<inter> set (method @ version @ scheme @ hostport @ path) = {}"
    and "method \<noteq> ''CONNECT''" and "CHR '':'' \<notin> set scheme" and "CHR ''/'' \<notin> set hostport"
    and "\<not> Contains (hostport @ ''/'' @ path) ''://''"
    and "host = (if CHR '':'' \<in> set hostport then hostport else hostport @ '':80'')" and "DialOk env host"
  shows "handleConnection env
      (Some (method @ '' '' @ scheme @ ''://'' @ hostport @ ''/'' @ path @ '' '' @ version @ [cr, newline] @ rest)) =
    \<lparr> outcome = Inr (HttpRelay host (method @ '' '' @ takeWhile (\<lambda>c. c \<noteq> CHR ''/'') path @ '' '' @
        version @ [cr, cr, newline] @ rest)),
      dials = [host], to_client = [] \<rparr>"
proof -
  let ?url = "scheme @ ''://'' @ hostport @ ''/'' @ path"
  let ?line = "method @ '' '' @ ?url @ '' '' @ version @ [cr]"
  have nl: "newline \<notin> set ?line" using assms(1) by (auto simp: newline_def cr_def)
  have line: "takeWhile (\<lambda>c. c \<noteq> newline) (?line @ newline # rest) = ?line"
    using nl by (subst takeWhile_append2) auto
  have sp: "CHR '' '' \<notin> set method" "CHR '' '' \<notin> set ?url" "CHR '' '' \<notin> set (version @ [cr])"
    using assms(1) by (auto simp: cr_def)
  have parts: "Split ?line '' '' = [method, ?url, version @ [cr]]"
    using Split_sep [OF sp(1), of "?url @ '' '' @ version @ [cr]"] Split_sep [OF sp(2), of "version @ [cr]"]
      Split_none [OF sp(3)] by simp
  have url: "strip_scheme ?url = hostport @ ''/'' @ path"
    by (rule strip_scheme_url) (use assms(3,5) in simp_all)
  have split: "Split (hostport @ ''/'' @ path) ''/'' = hostport # Split path ''/''"
    using Split_sep [OF assms(4), of path] by simp
  have at: "at (hostport # Split path ''/'') 1 = Inr (takeWhile (\<lambda>c. c \<noteq> CHR ''/'') path)"
    using Split_nonempty [of path "''/''"] by (simp add: at_def Split_hd)
  have host: "http_host (hostport @ ''/'' @ path) = host"
    by (simp only: http_host_def split) (simp add: assms(6) Contains_char)
  have http: "handle_http env [method, ?url, version @ [cr]] method ?url rest =
      \<lparr> outcome = Inr (HttpRelay host (method @ '' '' @ takeWhile (\<lambda>c. c \<noteq> CHR ''/'') path @ '' '' @
          version @ [cr, cr, newline] @ rest)),
        dials = [host], to_client = [] \<rparr>"
    unfolding handle_http_def Let_def url host split at
    using assms(7) by (simp add: at_def ended_def)
  have chunk: "method @ '' '' @ scheme @ ''://'' @ hostport @ ''/'' @ path @ '' '' @ version @ [cr, newline] @ rest =
      ?line @ newline # rest" by simp
  have after: "drop (Suc (length l)) (l @ x # r) = r" for l r :: string and x
    by simp
  have "handleConnection env (Some (?line @ newline # rest)) =
      handle_http env [method, ?url, version @ [cr]] method ?url rest"
    unfolding handleConnection_def option.case Let_def line parts after
    using assms(2) by (simp add: at_def)
  then show ?thesis unfolding chunk http .
qed

definition demo_mitm_env :: mitm_env where
  "demo_mitm_env = \<lparr> DialOk = (\<lambda>a. True), TlsDialOk = (\<lambda>a. True), SignOk = (\<lambda>d. True),
     HandshakeOk = (\<lambda>d. True), MatchString = (\<lambda>d. d = ''a.b'') \<rparr>"

theorem http_request_forwarded_witness:
  "dials (handleConnection demo_mitm_env
     (Some (''GET'' @ '' '' @ ''http'' @ ''://'' @ ''a.b'' @ ''/'' @ ''x/y'' @ '' '' @ ''HTTP/1.1'' @ [cr, newline] @ []))) =
   [''a.b:80'']"
  using http_request_forwarded [of "''GET''" "''HTTP/1.1''" "''http''" "''a.b''" "''x/y''", OF _ _ _ _ _ refl,
      of demo_mitm_env "[]"]
  by (simp add: newline_def demo_mitm_env_def)

text \<open>C26: only domains that match the rule are intercepted: whatever a client sends, a connection is
  intercepted only if the client asked to \<^verbatim>\<open>CONNECT\<close> to an address whose part before the colon matches
  the rule, and it is tunnelled unread only if that part does not match; in both cases exactly that
  address was dialled first and the client was told that the connection is established.\<close>

theorem intercept_only_matching:
  assumes "handleConnection env (Some buf) = r"
    and "outcome r = Inr (Intercept url domain) \<or> outcome r = Inr (Tunnel url) \<and> domain = takeWhile (\<lambda>c. c \<noteq> CHR '':'') url"
  shows "(MatchString env domain \<longleftrightarrow> outcome r = Inr (Intercept url domain)) \<and>
    domain = takeWhile (\<lambda>c. c \<noteq> CHR '':'') url \<and> dials r = [url] \<and> to_client r = established \<and>
    (\<exists>parts. Split (takeWhile (\<lambda>c. c \<noteq> newline) buf) '' '' = ''CONNECT'' # url # parts)"
proof -
  let ?parts = "Split (takeWhile (\<lambda>c. c \<noteq> newline) buf) '' ''"
  have r: "1 < length ?parts" "?parts ! 0 = ''CONNECT''" "r = handle_tunnel env (?parts ! 1)"
    using assms by (auto simp: handleConnection_def handle_http_def ended_def at_def Let_def split: if_splits)
  from r(1) obtain a b ps where parts: "?parts = a # b # ps"
    by (cases ?parts; cases "tl ?parts") auto
  then have "a = ''CONNECT''" "r = handle_tunnel env b" using r(2,3) by simp_all
  then show ?thesis using assms(2) parts
    by (auto simp: handle_tunnel_def Let_def Split_hd split: if_splits)
qed

theorem intercept_only_matching_witness:
  "dials (handleConnection demo_mitm_env (Some (''CONNECT a.b:443 HTTP/1.1'' @ [cr, newline]))) = [''a.b:443'']"
proof -
  have "outcome (handleConnection demo_mitm_env (Some (''CONNECT a.b:443 HTTP/1.1'' @ [cr, newline]))) =
      Inr (Intercept ''a.b:443'' ''a.b'')"
    by code_simp
  then show ?thesis using intercept_only_matching [OF refl] by blast
qed

text \<open>C39: a malformed first line crashes the proxy: the handler panics exactly when the first read holds
  no newline, or its line has no space, or, after an HTTP request's host was dialled, its URL has no
  path or the line no third part.\<close>

theorem malformed_request_panics:
  "outcome (handleConnection env (Some buf)) = Inl p \<longleftrightarrow>
    (if newline \<notin> set buf then p = SliceBounds
     else
       (let line = takeWhile (\<lambda>c. c \<noteq> newline) buf; parts = Split line '' ''; url = strip_scheme (parts ! 1)
        in p = IndexRange \<and> (CHR '' '' \<notin> set line \<or>
          parts ! 0 \<noteq> ''CONNECT'' \<and> DialOk env (http_host url) \<and>
            (CHR ''/'' \<notin> set url \<or> count_list line (CHR '' '') < 2))))"
proof (cases "newline \<in> set buf")
  case False
  then show ?thesis by (auto simp: handleConnection_def ended_def)
next
  case True
  let ?line = "takeWhile (\<lambda>c. c \<noteq> newline) buf"
  let ?parts = "Split ?line '' ''"
  have one: "Suc 0 < length ?parts \<longleftrightarrow> CHR '' '' \<in> set ?line"
    by (simp add: Split_length count_list_0_iff [of ?line] flip: neq0_conv)
  have two: "2 < length ?parts \<longleftrightarrow> \<not> count_list ?line (CHR '' '') < 2"
    by (auto simp: Split_length)
  have path: "Suc 0 < length (Split url ''/'') \<longleftrightarrow> CHR ''/'' \<in> set url" for url
    by (simp add: Split_length count_list_0_iff [of url] flip: neq0_conv)
  have tunnel: "outcome (handle_tunnel env url) \<noteq> Inl p" for url
    by (simp add: handle_tunnel_def Let_def)
  show ?thesis using True
    by (auto simp: handleConnection_def Let_def at_def one two path tunnel handle_http_def ended_def)
qed

theorem malformed_request_panics_witness:
  "outcome (handleConnection demo_mitm_env (Some (''GET'' @ [newline]))) = Inl IndexRange"
  using malformed_request_panics [of demo_mitm_env "''GET'' @ [newline]" IndexRange]
  by (simp add: newline_def Let_def)

end
