(* ===== verification/X509.thy ===== *)
theory X509
  imports Prelude
begin

text \<open>
  Certificates, keys and TLS configurations, as \<^verbatim>\<open>quic-cc-lab/internal/tunnel\<close> and
  \<^verbatim>\<open>code/mitm\<close> use them: the fields of \<^verbatim>\<open>x509.Certificate\<close> that they set or rely on, the library
  calls as a record of functions, and what they rely on of the library as the predicate \<open>x509_laws\<close>.
  Times are nanoseconds since the epoch.
\<close>

section \<open>Certificates\<close>

record pkix_name =
  Country :: "string list"
  Province :: "string list"
  Locality :: "string list"
  Organization :: "string list"
  CommonName :: string

datatype ext_key_usage = ServerAuth | ClientAuth

text \<open>\<open>Issuer\<close>, \<open>PublicKey\<close> and \<open>Raw\<close> are set in parsed certificates only.\<close>

record 'pub certificate =
  SerialNumber :: int
  Subject :: pkix_name
  NotBefore :: int
  NotAfter :: int
  KeyUsage :: u16
  ExtKeyUsage :: "ext_key_usage list"
  BasicConstraintsValid :: bool
  IsCA :: bool
  DNSNames :: "string list"
  CRLDistributionPoints :: "string list"
  Issuer :: pkix_name
  PublicKey :: "'pub option"
  Raw :: "byte list"

text \<open>The values of the fields that a composite literal does not name.\<close>

definition blank_name :: pkix_name where
  "blank_name = \<lparr> Country = [], Province = [], Locality = [], Organization = [], CommonName = '''' \<rparr>"

definition blank_certificate :: "'pub certificate" where
  "blank_certificate = \<lparr> SerialNumber = 0, Subject = blank_name, NotBefore = 0, NotAfter = 0,
     KeyUsage = 0, ExtKeyUsage = [], BasicConstraintsValid = False, IsCA = False, DNSNames = [],
     CRLDistributionPoints = [], Issuer = blank_name, PublicKey = None, Raw = [] \<rparr>"

text \<open>The bits of \<^verbatim>\<open>x509.KeyUsage\<close>.\<close>

definition KeyUsageDigitalSignature :: u16 where "KeyUsageDigitalSignature = 1"
definition KeyUsageKeyEncipherment :: u16 where "KeyUsageKeyEncipherment = 4"
definition KeyUsageCertSign :: u16 where "KeyUsageCertSign = 32"
definition KeyUsageCRLSign :: u16 where "KeyUsageCRLSign = 64"

definition nanosecond_per_second :: int where
  "nanosecond_per_second = 1000000000"

definition hour :: int where
  "hour = 3600 * nanosecond_per_second"

record 'priv tls_certificate =
  Certificate :: "byte list list"
  PrivateKey :: 'priv

record 'priv tls_config =
  Certificates :: "'priv tls_certificate list"
  NextProtos :: "string list"
  InsecureSkipVerify :: bool

section \<open>The library\<close>

text \<open>\<open>None\<close> is an error. The randomness that a call draws is part of the function.\<close>

record ('priv, 'pub) x509_lib =
  PublicOf :: "'priv \<Rightarrow> 'pub"
  CreateCertificate :: "'pub certificate \<Rightarrow> 'pub certificate \<Rightarrow> 'pub \<Rightarrow> 'priv \<Rightarrow> byte list option"
  ParseCertificate :: "byte list \<Rightarrow> 'pub certificate option"
  MarshalPKCS1 :: "'priv \<Rightarrow> byte list"
  ParsePKCS1 :: "byte list \<Rightarrow> 'priv option"
  MarshalPKCS8 :: "'priv \<Rightarrow> byte list option"
  EncodePEM :: "string \<Rightarrow> byte list \<Rightarrow> byte list"
  X509KeyPair :: "byte list \<Rightarrow> byte list \<Rightarrow> 'priv tls_certificate option"

text \<open>
  What a certificate that was created from a template says: the template's fields, with its times cut to
  seconds, the subject of the parent as its issuer, and the constraint that makes it an authority only
  when the basic constraints are valid.
\<close>

definition to_seconds :: "int \<Rightarrow> int" where
  "to_seconds t = t div nanosecond_per_second * nanosecond_per_second"

definition issued :: "'pub certificate \<Rightarrow> 'pub certificate \<Rightarrow> 'pub \<Rightarrow> byte list \<Rightarrow> 'pub certificate" where
  "issued template parent pub der = template\<lparr> NotBefore := to_seconds (NotBefore template),
     NotAfter := to_seconds (NotAfter template), IsCA := (IsCA template \<and> BasicConstraintsValid template),
     Issuer := Subject parent, PublicKey := Some pub, Raw := der \<rparr>"

text \<open>
  The documented behaviour: parsing inverts creation and marshalling, and a pair of PEM blocks with a
  certificate and the private key that belongs to it is accepted.
\<close>

definition parses_created :: "('priv, 'pub) x509_lib \<Rightarrow> bool" where
  "parses_created lib \<longleftrightarrow> (\<forall>t p pub priv der. CreateCertificate lib t p pub priv = Some der \<longrightarrow>
     ParseCertificate lib der = Some (issued t p pub der))"

definition parses_keys :: "('priv, 'pub) x509_lib \<Rightarrow> bool" where
  "parses_keys lib \<longleftrightarrow> (\<forall>k. ParsePKCS1 lib (MarshalPKCS1 lib k) = Some k)"

definition pairs_keys :: "('priv, 'pub) x509_lib \<Rightarrow> bool" where
  "pairs_keys lib \<longleftrightarrow> (\<forall>t p priv k der kd. CreateCertificate lib t p (PublicOf lib k) priv = Some der \<longrightarrow>
     MarshalPKCS8 lib k = Some kd \<longrightarrow>
     X509KeyPair lib (EncodePEM lib ''CERTIFICATE'' der) (EncodePEM lib ''PRIVATE KEY'' kd) =
       Some \<lparr> Certificate = [der], PrivateKey = k \<rparr>)"

definition x509_laws :: "('priv, 'pub) x509_lib \<Rightarrow> bool" where
  "x509_laws lib \<longleftrightarrow> parses_created lib \<and> parses_keys lib \<and> pairs_keys lib"

lemmas [go_eval] = blank_name_def blank_certificate_def KeyUsageDigitalSignature_def
  KeyUsageKeyEncipherment_def KeyUsageCertSign_def KeyUsageCRLSign_def nanosecond_per_second_def
  hour_def to_seconds_def issued_def

lemma to_seconds_bounds: "t - nanosecond_per_second < to_seconds t \<and> to_seconds t \<le> t"
proof -
  have "t div nanosecond_per_second * nanosecond_per_second + t mod nanosecond_per_second = t"
    by (rule div_mult_mod_eq)
  moreover have "0 \<le> t mod nanosecond_per_second" "t mod nanosecond_per_second < nanosecond_per_second"
    by (simp_all add: nanosecond_per_second_def)
  ultimately show ?thesis unfolding to_seconds_def by linarith
qed

section \<open>A library that obeys the laws\<close>

text \<open>
  For the witnesses: keys are bytes, and a certificate's encoding holds the number of a template in a
  list of known ones, of its parent and the public key.
\<close>

definition demo_lib :: "byte certificate list \<Rightarrow> (byte, byte) x509_lib" where
  "demo_lib known = \<lparr> PublicOf = (\<lambda>k. k + 1),
     CreateCertificate = (\<lambda>t p pub priv.
       if length known < 256 \<and> t \<in> set known \<and> p \<in> set known
       then Some [word_of_nat (length (takeWhile (\<lambda>x. x \<noteq> t) known)), word_of_nat (length (takeWhile (\<lambda>x. x \<noteq> p) known)), pub]
       else None),
     ParseCertificate = (\<lambda>der. case der of
       [i, j, pub] \<Rightarrow>
         if unat i < length known \<and> unat j < length known
         then Some (issued (known ! unat i) (known ! unat j) pub der) else None
     | _ \<Rightarrow> None),
     MarshalPKCS1 = (\<lambda>k. [k]), ParsePKCS1 = (\<lambda>b. case b of [k] \<Rightarrow> Some k | _ \<Rightarrow> None),
     MarshalPKCS8 = (\<lambda>k. Some [k]), EncodePEM = (\<lambda>label b. b),
     X509KeyPair = (\<lambda>c k. case k of [b] \<Rightarrow> Some \<lparr> Certificate = [c], PrivateKey = b \<rparr> | _ \<Rightarrow> None) \<rparr>"

lemma takeWhile_index:
  assumes "t \<in> set xs"
  shows "length (takeWhile (\<lambda>x. x \<noteq> t) xs) < length xs" and "xs ! length (takeWhile (\<lambda>x. x \<noteq> t) xs) = t"
proof -
  show "length (takeWhile (\<lambda>x. x \<noteq> t) xs) < length xs"
    using assms by (induction xs) auto
  then show "xs ! length (takeWhile (\<lambda>x. x \<noteq> t) xs) = t"
    using nth_length_takeWhile by blast
qed

lemma demo_lib_laws: "x509_laws (demo_lib known)"
proof -
  have "unat (word_of_nat (length (takeWhile (\<lambda>x. x \<noteq> t) known)) :: byte) = length (takeWhile (\<lambda>x. x \<noteq> t) known)"
    if "length known < 256" for t
    using that length_takeWhile_le [of "\<lambda>x. x \<noteq> t" known]
    by (simp add: unsigned_of_nat take_bit_nat_eq_self_iff)
  then show ?thesis
    by (auto simp: x509_laws_def parses_created_def parses_keys_def pairs_keys_def demo_lib_def takeWhile_index
        split: if_splits)
qed

end
