(* ===== verification/MitmCa.thy ===== *)
theory MitmCa
  imports X509
begin

text \<open>
  The certificate authority of \<^verbatim>\<open>code/mitm/main.go\<close>: creating it, storing and loading it, and signing a
  certificate for a domain. The files are a map from paths to contents; the cryptography and the
  encodings are the library of X509.thy, and what a call draws at random (a key, a serial number) is a
  parameter, \<open>None\<close> for an error.
\<close>

section \<open>Operations\<close>

record ('priv, 'pub) certificate_authority =
  RootCert :: "'pub certificate"
  RootKey :: 'priv

datatype sign_error = SignKeyError | SerialError | SignCreateError | SignParseError

definition leaf_template :: "int \<Rightarrow> int \<Rightarrow> string \<Rightarrow> 'pub certificate" where
  "leaf_template serialNumber now domain = blank_certificate\<lparr> SerialNumber := serialNumber,
     Subject := blank_name\<lparr> Country := [''CN''], Province := [''State''], Locality := [''City''], CommonName := domain \<rparr>,
     NotBefore := now, NotAfter := now + 30 * 24 * hour,
     KeyUsage := KeyUsageDigitalSignature OR KeyUsageKeyEncipherment, ExtKeyUsage := [ServerAuth, ClientAuth],
     BasicConstraintsValid := True, DNSNames := [domain], CRLDistributionPoints := [] \<rparr>"

definition SignCertificate ::
    "('priv, 'pub) x509_lib \<Rightarrow> 'priv option \<Rightarrow> int option \<Rightarrow> int \<Rightarrow> ('priv, 'pub) certificate_authority \<Rightarrow> string \<Rightarrow>
      sign_error + 'pub certificate \<times> 'priv" where
  "SignCertificate lib generated serial now ca domain = (case generated of
       None \<Rightarrow> Inl SignKeyError
     | Some priv \<Rightarrow>
         (case serial of
            None \<Rightarrow> Inl SerialError
          | Some serialNumber \<Rightarrow>
              (case CreateCertificate lib (leaf_template serialNumber now domain) (RootCert ca) (PublicOf lib priv) (RootKey ca) of
                 None \<Rightarrow> Inl SignCreateError
               | Some derBytes \<Rightarrow>
                   (case ParseCertificate lib derBytes of
                      None \<Rightarrow> Inl SignParseError
                    | Some cert \<Rightarrow> Inr (cert, priv)))))"

type_synonym files = "string \<rightharpoonup> byte list"

text \<open>\<^verbatim>\<open>os.WriteFile\<close> where its result is ignored: a file that cannot be written stays as it is.\<close>

definition WriteFile :: "(string \<Rightarrow> bool) \<Rightarrow> string \<Rightarrow> byte list \<Rightarrow> files \<Rightarrow> files" where
  "WriteFile writable path bs fs = (if writable path then fs(path \<mapsto> bs) else fs)"

datatype ca_panic = KeyFailed | CreateFailed | ReadCertFailed | ParseCertFailed | ReadKeyFailed | ParseKeyFailed

text \<open>\<open>ten_years\<close>: \<^verbatim>\<open>AddDate(10, 0, 0)\<close>, which follows the calendar.\<close>

definition ca_template :: "(int \<Rightarrow> int) \<Rightarrow> int \<Rightarrow> 'pub certificate" where
  "ca_template ten_years now = blank_certificate\<lparr> SerialNumber := 114514,
     Subject := \<lparr> Country = [''CN''], Province = [''Shanghai''], Locality = [''Shanghai''],
       Organization = [''mitmproxy CA''], CommonName = ''mitmproxy CA'' \<rparr>,
     NotBefore := now, NotAfter := ten_years now,
     KeyUsage := KeyUsageCertSign OR KeyUsageDigitalSignature OR KeyUsageCRLSign,
     ExtKeyUsage := [ServerAuth, ClientAuth], BasicConstraintsValid := True, IsCA := True \<rparr>"

definition createCertificateAuthority ::
    "('priv, 'pub) x509_lib \<Rightarrow> 'priv option \<Rightarrow> (int \<Rightarrow> int) \<Rightarrow> int \<Rightarrow> (string \<Rightarrow> bool) \<Rightarrow> string \<Rightarrow> string \<Rightarrow> files \<Rightarrow>
      ca_panic + files" where
  "createCertificateAuthority lib generated ten_years now writable certPath keyPath fs = (case generated of
       None \<Rightarrow> Inl KeyFailed
     | Some priv \<Rightarrow>
         (let pub = PublicOf lib priv; ca = ca_template ten_years now in
          case CreateCertificate lib ca ca pub priv of
            None \<Rightarrow> Inl CreateFailed
          | Some caBytes \<Rightarrow>
              (let fs = WriteFile writable certPath caBytes fs;
                   caPrivBytes = MarshalPKCS1 lib priv
               in Inr (WriteFile writable keyPath caPrivBytes fs))))"

definition loadCertificateAuthority ::
    "('priv, 'pub) x509_lib \<Rightarrow> string \<Rightarrow> string \<Rightarrow> files \<Rightarrow> ca_panic + ('priv, 'pub) certificate_authority" where
  "loadCertificateAuthority lib certPath keyPath fs = (case fs certPath of
       None \<Rightarrow> Inl ReadCertFailed
     | Some caBytes \<Rightarrow>
         (case ParseCertificate lib caBytes of
            None \<Rightarrow> Inl ParseCertFailed
          | Some cert \<Rightarrow>
              (case fs keyPath of
                 None \<Rightarrow> Inl ReadKeyFailed
               | Some caPrivBytes \<Rightarrow>
                   (case ParsePKCS1 lib caPrivBytes of
                      None \<Rightarrow> Inl ParseKeyFailed
                    | Some priv \<Rightarrow> Inr \<lparr> RootCert = cert, RootKey = priv \<rparr>))))"

lemmas [go_eval] = leaf_template_def SignCertificate_def WriteFile_def ca_template_def
  createCertificateAuthority_def loadCertificateAuthority_def

section \<open>Properties\<close>

text \<open>
  What is created can be loaded, when both files can be written; if not, creating succeeds all the same.
\<close>

lemma create_then_load:
  assumes "x509_laws lib" and "certPath \<noteq> keyPath"
    and "CreateCertificate lib (ca_template ten_years now) (ca_template ten_years now) (PublicOf lib key) key = Some der"
  shows "\<exists>fs. createCertificateAuthority lib (Some key) ten_years now writable certPath keyPath Map.empty = Inr fs \<and>
    loadCertificateAuthority lib certPath keyPath fs =
      (if \<not> writable certPath then Inl ReadCertFailed
       else if \<not> writable keyPath then Inl ReadKeyFailed
       else Inr \<lparr> RootCert = issued (ca_template ten_years now) (ca_template ten_years now) (PublicOf lib key) der,
                  RootKey = key \<rparr>)"
proof -
  have "ParseCertificate lib der =
      Some (issued (ca_template ten_years now) (ca_template ten_years now) (PublicOf lib key) der)"
    using assms(1,3) by (simp add: x509_laws_def parses_created_def)
  moreover have "ParsePKCS1 lib (MarshalPKCS1 lib key) = Some key"
    using assms(1) by (simp add: x509_laws_def parses_keys_def)
  ultimately show ?thesis using assms(2,3)
    by (simp add: createCertificateAuthority_def loadCertificateAuthority_def WriteFile_def Let_def)
qed

definition demo_root :: "byte certificate" where
  "demo_root = ca_template (\<lambda>t. t + 10 * 365 * 24 * hour) 0"

text \<open>The certificate that a client is shown: it names exactly the requested domain, was issued by the root
  and for a fresh key that the proxy holds, is not an authority, serves server authentication, is valid at once
  and expires within 30 days, to the second.\<close>

lemma signed_certificate:
  assumes "x509_laws lib" and "SignCertificate lib generated serial now ca domain = Inr (cert, priv)"
  shows "generated = Some priv \<and> PublicKey cert = Some (PublicOf lib priv) \<and> serial = Some (SerialNumber cert) \<and>
    DNSNames cert = [domain] \<and> CommonName (Subject cert) = domain \<and> Issuer cert = Subject (RootCert ca) \<and>
    \<not> IsCA cert \<and> ServerAuth \<in> set (ExtKeyUsage cert) \<and> KeyUsage cert AND KeyUsageCertSign = 0 \<and>
    NotBefore cert \<le> now \<and> now + 30 * 24 * hour - nanosecond_per_second < NotAfter cert \<and>
    NotAfter cert \<le> now + 30 * 24 * hour \<and> ParseCertificate lib (Raw cert) = Some cert"
proof -
  obtain sn der where d: "generated = Some priv" "serial = Some sn"
    "CreateCertificate lib (leaf_template sn now domain) (RootCert ca) (PublicOf lib priv) (RootKey ca) = Some der"
    "ParseCertificate lib der = Some cert"
    using assms(2) by (auto simp: SignCertificate_def split: option.splits)
  have "cert = issued (leaf_template sn now domain) (RootCert ca) (PublicOf lib priv) der"
    using assms(1) d(3,4) by (auto simp: x509_laws_def parses_created_def)
  then show ?thesis
    using d to_seconds_bounds [of now] to_seconds_bounds [of "now + 30 * 24 * hour"]
    by (simp add: issued_def leaf_template_def blank_certificate_def KeyUsageDigitalSignature_def
        KeyUsageKeyEncipherment_def KeyUsageCertSign_def)
qed

lemma signed_certificate_witness:
  "\<exists>cert. SignCertificate (demo_lib [demo_root, leaf_template 5 0 ''a.b'']) (Some 9) (Some 5) 0
      \<lparr> RootCert = demo_root, RootKey = 7 \<rparr> ''a.b'' = Inr (cert, 9) \<and> DNSNames cert = [''a.b'']"
proof -
  let ?lib = "demo_lib [demo_root, leaf_template 5 0 ''a.b'']"
  have "SerialNumber demo_root \<noteq> SerialNumber (leaf_template 5 0 ''a.b'' :: byte certificate)"
    by (simp add: demo_root_def ca_template_def leaf_template_def)
  then have "demo_root \<noteq> leaf_template 5 0 ''a.b''" by metis
  then obtain cert where cert: "SignCertificate ?lib (Some 9) (Some 5) 0 \<lparr> RootCert = demo_root, RootKey = 7 \<rparr> ''a.b'' = Inr (cert, 9)"
    by (auto simp: SignCertificate_def demo_lib_def)
  from signed_certificate [OF demo_lib_laws this] cert show ?thesis by blast
qed

text \<open>
  A new key next to an old root: when only the key's file can be written, creating reports success and
  loading pairs the new key with the old certificate.
\<close>

lemma stale_root_loaded:
  assumes "x509_laws lib" and "certPath \<noteq> keyPath" and "\<not> writable certPath" and "writable keyPath"
    and "CreateCertificate lib (ca_template ten_years now) (ca_template ten_years now) (PublicOf lib key) key = Some der"
    and "fs certPath = Some old" and "ParseCertificate lib old = Some root"
  shows "\<exists>fs'. createCertificateAuthority lib (Some key) ten_years now writable certPath keyPath fs = Inr fs' \<and>
    loadCertificateAuthority lib certPath keyPath fs' = Inr \<lparr> RootCert = root, RootKey = key \<rparr>"
  using assms by (simp add: createCertificateAuthority_def loadCertificateAuthority_def WriteFile_def Let_def
      x509_laws_def parses_keys_def)

end
