(* ===== verification/MitmRelay.thy ===== *)
theory MitmRelay
  imports Mitm MitmCa Pipe
begin

text \<open>
  What \<^verbatim>\<open>code/mitm/main.go\<close> does around a request: the copying of an HTTP request's or a tunnel's
  connection (\<^verbatim>\<open>io.Copy\<close> both ways), the two loops of an intercepted one that log what they pass on,
  the configuration of the interception, and \<^verbatim>\<open>main\<close> with its start and its accept loop. In the copying a
  read and the write of what was read is one step; in the interception reading, logging and writing are steps of
  their own. The steps of the two goroutines interleave in any order.
\<close>

section \<open>Copying without a look at the data\<close>

text \<open>
  \<open>up_over\<close>: the goroutine's \<^verbatim>\<open>io.Copy\<close> to the server returned; \<open>closed\<close>: the one to the client did, and with it the
  handler, whose deferred calls close both connections.
\<close>

record splice =
  srv :: "char wconn"
  cli :: "char wconn"
  up_over :: bool
  closed :: bool

datatype splice_act = FromClient string | ClientOver | FromServer string | ServerOver

fun splice_step ::
    "(string \<Rightarrow> nat option) \<Rightarrow> (string \<Rightarrow> nat option) \<Rightarrow> splice \<Rightarrow> splice_act \<Rightarrow> splice" where
  "splice_step fs fc s (FromClient c) =
     (if closed s \<or> up_over s then s
      else let w = copy_feed fs (srv s) c in s\<lparr> srv := w, up_over := broken w \<rparr>)"
| "splice_step fs fc s ClientOver = (if closed s then s else s\<lparr> up_over := True \<rparr>)"
| "splice_step fs fc s (FromServer c) =
     (if closed s then s
      else let w = copy_feed fc (cli s) c in s\<lparr> cli := w, closed := broken w \<rparr>)"
| "splice_step fs fc s ServerOver = s\<lparr> closed := True \<rparr>"

text \<open>
  The start: an HTTP request's first bytes are written to the server, and a tunnel's client is told that it is
  established; the results of these writes are not looked at. An HTTP relay begins with no write to the client and a
  tunnel with none to the server.
\<close>

definition first_write :: "(string \<Rightarrow> nat option) \<Rightarrow> string \<Rightarrow> char wconn" where
  "first_write fails bs = (if bs = [] then new_wconn else conn_write fails bs new_wconn)"

definition start_splice :: "(string \<Rightarrow> nat option) \<Rightarrow> (string \<Rightarrow> nat option) \<Rightarrow> string \<Rightarrow> string \<Rightarrow> splice" where
  "start_splice fs fc first reply = \<lparr> srv = first_write fs first, cli = first_write fc reply,
     up_over = False, closed = False \<rparr>"

definition splice_of :: "(string \<Rightarrow> nat option) \<Rightarrow> (string \<Rightarrow> nat option) \<Rightarrow> mitm_result \<Rightarrow> splice option" where
  "splice_of fs fc r = (case outcome r of
       Inr (HttpRelay host first) \<Rightarrow> Some (start_splice fs fc first (to_client r))
     | Inr (Tunnel url) \<Rightarrow> Some (start_splice fs fc [] (to_client r))
     | _ \<Rightarrow> None)"

fun client_bytes :: "splice_act list \<Rightarrow> string" where
  "client_bytes [] = []"
| "client_bytes (FromClient c # as) = c @ client_bytes as"
| "client_bytes (_ # as) = client_bytes as"

fun server_bytes :: "splice_act list \<Rightarrow> string" where
  "server_bytes [] = []"
| "server_bytes (FromServer c # as) = c @ server_bytes as"
| "server_bytes (_ # as) = server_bytes as"

section \<open>Interception\<close>

text \<open>
  An entry of the log: the connection's number, the direction, and the data with its length. The goroutine that serves
  \<open>ToServer\<close> reads from the client, the loop that serves \<open>ToClient\<close> reads from the server.
\<close>

datatype direction = ToServer | ToClient

record log_entry =
  le_id :: nat
  le_dir :: direction
  le_len :: nat
  le_data :: string

text \<open>Where a loop is: at its read, before the log line or before the write of what it has read, or returned.\<close>

datatype loop_at = AtRead | ToLog string | ToWrite string | Over

record session =
  loop :: "direction \<Rightarrow> loop_at"
  dest :: "direction \<Rightarrow> char wconn"
  s_log :: "log_entry list"

text \<open>
  \<open>Read\<close> returns data and no error; \<open>EndRead\<close> returns an error, with it possibly data, as a TLS connection does when the
  peer's last record is followed by its close message. A buffer holds 1024 bytes. A read may also still succeed after the
  connections were closed.
\<close>

datatype intercept_act = Read direction string | EndRead direction string | Log direction | Write direction

definition new_session :: session where
  "new_session = \<lparr> loop = (\<lambda>d. AtRead), dest = (\<lambda>d. new_wconn), s_log = [] \<rparr>"

text \<open>When the loop that reads from the server returns, the handler does, and its deferred calls close both connections.\<close>

definition end_read :: "direction \<Rightarrow> session \<Rightarrow> session" where
  "end_read d s = (case d of
       ToServer \<Rightarrow> s\<lparr> loop := (loop s)(d := Over) \<rparr>
     | ToClient \<Rightarrow> s\<lparr> loop := (loop s)(d := Over), dest := (\<lambda>d'. (dest s d')\<lparr> broken := True \<rparr>) \<rparr>)"

text \<open>
  A step of one of the two loops; \<open>None\<close> when it is not at that point. The result of a write is not looked at: the
  loop goes on to its next read.
\<close>

fun intercept_step :: "nat \<Rightarrow> (direction \<Rightarrow> string \<Rightarrow> nat option) \<Rightarrow> session \<Rightarrow> intercept_act \<Rightarrow> session option" where
  "intercept_step conID fails s (Read d c) =
     (if loop s d = AtRead \<and> length c \<le> 1024 then Some (s\<lparr> loop := (loop s)(d := ToLog c) \<rparr>) else None)"
| "intercept_step conID fails s (EndRead d c) =
     (if loop s d = AtRead \<and> length c \<le> 1024 then Some (end_read d s) else None)"
| "intercept_step conID fails s (Log d) =
     (case loop s d of
        ToLog c \<Rightarrow> Some (s\<lparr> loop := (loop s)(d := ToWrite c),
          s_log := s_log s @ [\<lparr> le_id = conID, le_dir = d, le_len = length c, le_data = c \<rparr>] \<rparr>)
      | _ \<Rightarrow> None)"
| "intercept_step conID fails s (Write d) =
     (case loop s d of
        ToWrite c \<Rightarrow> Some (s\<lparr> loop := (loop s)(d := AtRead), dest := (dest s)(d := conn_write (fails d) c (dest s d)) \<rparr>)
      | _ \<Rightarrow> None)"

fun intercept_run ::
    "nat \<Rightarrow> (direction \<Rightarrow> string \<Rightarrow> nat option) \<Rightarrow> session \<Rightarrow> intercept_act list \<Rightarrow> session option" where
  "intercept_run conID fails s [] = Some s"
| "intercept_run conID fails s (a # as) = (case intercept_step conID fails s a of
       None \<Rightarrow> None
     | Some t \<Rightarrow> intercept_run conID fails t as)"

text \<open>What the log has of a direction; what the reads of a direction returned; what came with the error.\<close>

definition logged :: "direction \<Rightarrow> session \<Rightarrow> string" where
  "logged d s = concat (map le_data (filter (\<lambda>e. le_dir e = d) (s_log s)))"

fun arrived :: "direction \<Rightarrow> intercept_act list \<Rightarrow> string" where
  "arrived d [] = []"
| "arrived d (Read d' c # as) = (if d' = d then c @ arrived d as else arrived d as)"
| "arrived d (EndRead d' c # as) = (if d' = d then c @ arrived d as else arrived d as)"
| "arrived d (_ # as) = arrived d as"

fun with_error :: "direction \<Rightarrow> intercept_act list \<Rightarrow> string" where
  "with_error d [] = []"
| "with_error d (EndRead d' c # as) = (if d' = d then c @ with_error d as else with_error d as)"
| "with_error d (_ # as) = with_error d as"

text \<open>What a loop has read and not yet logged, or not yet written.\<close>

definition to_log :: "loop_at \<Rightarrow> string" where
  "to_log l = (case l of ToLog c \<Rightarrow> c | _ \<Rightarrow> [])"

definition to_write :: "loop_at \<Rightarrow> string" where
  "to_write l = (case l of ToWrite c \<Rightarrow> c | _ \<Rightarrow> [])"

text \<open>The certificate that the interception shows, and whether there is one.\<close>

definition shown_certificate :: "'pub certificate \<Rightarrow> 'priv \<Rightarrow> 'priv tls_certificate" where
  "shown_certificate cert priv = \<lparr> Certificate = [Raw cert], PrivateKey = priv \<rparr>"

section \<open>main\<close>

record mitm_flags =
  createCA :: bool
  port :: int
  ruleStr :: string

datatype main_exit = CaCreated files | CaPanic ca_panic | ListenPanic | LogPanic | RulePanic

text \<open>
  \<open>ListenTCP\<close>, \<open>OpenLog\<close> and \<open>Compile\<close>: the listener on a port, whether the log file could be created, and
  the compiled rule. \<open>Inr\<close>: the server accepts connections.
\<close>

record 'l main_env =
  ListenTCP :: "int \<Rightarrow> 'l option"
  OpenLog :: bool
  Compile :: "string \<Rightarrow> (string \<Rightarrow> bool) option"

definition root_crt :: string where "root_crt = ''ca/rootCA.crt''"

definition root_key :: string where "root_key = ''ca/rootCA.key''"

definition mitm_main ::
    "('priv, 'pub) x509_lib \<Rightarrow> 'priv option \<Rightarrow> (int \<Rightarrow> int) \<Rightarrow> int \<Rightarrow> (string \<Rightarrow> bool) \<Rightarrow> 'l main_env \<Rightarrow> files \<Rightarrow> mitm_flags \<Rightarrow>
      main_exit + ('priv, 'pub) certificate_authority \<times> 'l \<times> (string \<Rightarrow> bool)" where
  "mitm_main lib generated ten_years now writable env fs f =
     (if createCA f then
        (case createCertificateAuthority lib generated ten_years now writable root_crt root_key fs of
           Inl p \<Rightarrow> Inl (CaPanic p)
         | Inr fs \<Rightarrow> Inl (CaCreated fs))
      else
        (case loadCertificateAuthority lib root_crt root_key fs of
           Inl p \<Rightarrow> Inl (CaPanic p)
         | Inr ca \<Rightarrow>
             (case ListenTCP env (port f) of
                None \<Rightarrow> Inl ListenPanic
              | Some listener \<Rightarrow>
                  if \<not> OpenLog env then Inl LogPanic
                  else
                    (case Compile env (ruleStr f) of
                       None \<Rightarrow> Inl RulePanic
                     | Some rule \<Rightarrow> Inr (ca, listener, rule)))))"

text \<open>
  The accept loop, from where the signal is caught: it is at its \<^verbatim>\<open>select\<close>, which looks at the signal channel and
  otherwise enters \<^verbatim>\<open>Accept\<close>, or in \<^verbatim>\<open>Accept\<close>. Each accepted connection gets a number and a goroutine of its
  own. The process ends when \<^verbatim>\<open>main\<close> returns or any goroutine panics, and with it all handlers that still run.
\<close>

datatype loop_end = Interrupted | AcceptPanic | HandlerPanic

datatype loop_point = AtSelect | InAccept | Ended loop_end

datatype 'conn loop_event = Sigint | Select | Accepted 'conn | AcceptError | HandlerReturns nat | HandlerPanics nat

record 'conn accept_loop =
  sigChan :: bool
  point :: loop_point
  conID :: nat
  started :: "(nat \<times> 'conn) list"
  running :: "nat list"
  killed :: "nat list"

definition new_loop :: "'conn accept_loop" where
  "new_loop = \<lparr> sigChan = False, point = AtSelect, conID = 0, started = [], running = [], killed = [] \<rparr>"

definition process_exit :: "loop_end \<Rightarrow> 'conn accept_loop \<Rightarrow> 'conn accept_loop" where
  "process_exit e s = s\<lparr> point := Ended e, running := [], killed := running s \<rparr>"

text \<open>\<open>None\<close>: the event cannot happen in the state. The channel holds one signal, further ones are dropped.\<close>

fun loop_step :: "'conn accept_loop \<Rightarrow> 'conn loop_event \<Rightarrow> 'conn accept_loop option" where
  "loop_step s Sigint = (case point s of Ended e \<Rightarrow> None | _ \<Rightarrow> Some (s\<lparr> sigChan := True \<rparr>))"
| "loop_step s Select =
     (if point s \<noteq> AtSelect then None
      else if sigChan s then Some (process_exit Interrupted (s\<lparr> sigChan := False \<rparr>))
      else Some (s\<lparr> point := InAccept \<rparr>))"
| "loop_step s (Accepted conn) =
     (if point s \<noteq> InAccept then None
      else Some (s\<lparr> point := AtSelect, conID := Suc (conID s), started := started s @ [(Suc (conID s), conn)],
             running := running s @ [Suc (conID s)] \<rparr>))"
| "loop_step s AcceptError = (if point s \<noteq> InAccept then None else Some (process_exit AcceptPanic s))"
| "loop_step s (HandlerReturns n) =
     (if n \<notin> set (running s) then None else Some (s\<lparr> running := filter (\<lambda>m. m \<noteq> n) (running s) \<rparr>))"
| "loop_step s (HandlerPanics n) = (if n \<notin> set (running s) then None else Some (process_exit HandlerPanic s))"

fun loop_run :: "'conn accept_loop \<Rightarrow> 'conn loop_event list \<Rightarrow> 'conn accept_loop option" where
  "loop_run s [] = Some s"
| "loop_run s (e # es) = (case loop_step s e of None \<Rightarrow> None | Some t \<Rightarrow> loop_run t es)"

lemmas [go_eval] = start_splice_def splice_of_def new_session_def end_read_def logged_def to_log_def to_write_def shown_certificate_def root_crt_def root_key_def
  mitm_main_def new_loop_def process_exit_def

section \<open>Properties\<close>

text \<open>The chunks that each direction passed on in a run.\<close>

lemma bytes_snoc:
  "client_bytes (acts @ [a]) = client_bytes acts @ client_bytes [a]"
  "server_bytes (acts @ [a]) = server_bytes acts @ server_bytes [a]"
  by (induction acts rule: client_bytes.induct; simp)+

lemma splice_up:
  "\<exists>cs e. srv (foldl (splice_step fs fc) s acts) = foldl (copy_feed fs) (srv s) cs \<and> client_bytes acts = concat cs @ e \<and>
     (\<not> up_over (foldl (splice_step fs fc) s acts) \<and> \<not> closed (foldl (splice_step fs fc) s acts) \<longrightarrow> e = [])"
proof (induction acts rule: rev_induct)
  case Nil
  show ?case by (intro exI [of _ "[]"]) simp
next
  case (snoc a acts)
  define t where "t = foldl (splice_step fs fc) s acts"
  obtain cs e where IH: "srv t = foldl (copy_feed fs) (srv s) cs" "client_bytes acts = concat cs @ e"
    "\<not> up_over t \<and> \<not> closed t \<longrightarrow> e = []"
    using snoc.IH unfolding t_def by blast
  show ?case
  proof (cases "\<exists>c. a = FromClient c \<and> \<not> up_over t \<and> \<not> closed t")
    case True
    then obtain c where c: "a = FromClient c" by blast
    then show ?thesis using IH True
      by (intro exI [of _ "cs @ [c]"] exI [of _ "[]"]) (simp add: bytes_snoc Let_def flip: t_def)
  next
    case False
    then have "srv (splice_step fs fc t a) = srv t" by (cases a) (auto simp: Let_def)
    moreover have "up_over (splice_step fs fc t a) \<or> closed (splice_step fs fc t a) \<or> client_bytes [a] = [] \<and> \<not> up_over t \<and> \<not> closed t"
      using False by (cases a) (auto simp: Let_def)
    ultimately show ?thesis using IH
      by (intro exI [of _ cs] exI [of _ "e @ client_bytes [a]"]) (auto simp: bytes_snoc simp flip: t_def)
  qed
qed

lemma splice_down:
  "\<exists>cs e. cli (foldl (splice_step fs fc) s acts) = foldl (copy_feed fc) (cli s) cs \<and> server_bytes acts = concat cs @ e \<and>
     (\<not> closed (foldl (splice_step fs fc) s acts) \<longrightarrow> e = [])"
proof (induction acts rule: rev_induct)
  case Nil
  show ?case by (intro exI [of _ "[]"]) simp
next
  case (snoc a acts)
  define t where "t = foldl (splice_step fs fc) s acts"
  obtain cs e where IH: "cli t = foldl (copy_feed fc) (cli s) cs" "server_bytes acts = concat cs @ e"
    "\<not> closed t \<longrightarrow> e = []"
    using snoc.IH unfolding t_def by blast
  show ?case
  proof (cases "\<exists>c. a = FromServer c \<and> \<not> closed t")
    case True
    then obtain c where c: "a = FromServer c" by blast
    then show ?thesis using IH True
      by (intro exI [of _ "cs @ [c]"] exI [of _ "[]"]) (simp add: bytes_snoc Let_def flip: t_def)
  next
    case False
    then have "cli (splice_step fs fc t a) = cli t" by (cases a) (simp_all add: Let_def)
    moreover have "closed (splice_step fs fc t a) \<or> server_bytes [a] = [] \<and> \<not> closed t"
      using False by (cases a) (simp_all add: Let_def)
    ultimately show ?thesis using IH
      by (intro exI [of _ cs] exI [of _ "e @ server_bytes [a]"]) (auto simp: bytes_snoc simp flip: t_def)
  qed
qed

text \<open>The first write and the copying after it are one run of the connection.\<close>

lemma first_write_feeds:
  "\<exists>bss. concat bss = bs \<and> (\<forall>cs. foldl (copy_feed fails) (first_write fails bs) cs = foldl (copy_feed fails) new_wconn (bss @ cs))"
  by (cases "bs = []"; intro exI [of _ "if bs = [] then [] else [bs]"])
    (simp_all add: first_write_def copy_feed_def new_wconn_def)

lemma write_then_copy: "\<exists>d. bs @ concat cs = out (foldl (copy_feed fails) (first_write fails bs) cs) @ d"
proof -
  obtain bss where b: "concat bss = bs" "foldl (copy_feed fails) (first_write fails bs) cs = foldl (copy_feed fails) new_wconn (bss @ cs)"
    using first_write_feeds [of bs fails] by blast
  then show ?thesis
    using copying.run_upto [where fails = fails and s = new_wconn and cs = "bss @ cs"] by (simp add: new_wconn_def)
qed

lemma write_then_copy_live:
  assumes "\<not> broken (foldl (copy_feed fails) (first_write fails bs) cs)"
  shows "out (foldl (copy_feed fails) (first_write fails bs) cs) = bs @ concat cs"
proof -
  obtain bss where b: "concat bss = bs" "foldl (copy_feed fails) (first_write fails bs) cs = foldl (copy_feed fails) new_wconn (bss @ cs)"
    using first_write_feeds [of bs fails] by blast
  then show ?thesis
    using assms copying.run_live [where fails = fails and s = new_wconn and cs = "bss @ cs"] by (simp add: new_wconn_def)
qed

lemma write_then_copy_alive:
  "\<forall>x. fails x = None \<Longrightarrow> \<not> broken (foldl (copy_feed fails) (first_write fails bs) cs)"
  by (induction cs rule: rev_induct) (simp_all add: first_write_def new_wconn_def)

text \<open>C14: a tunnel and an HTTP relay neither change nor reorder data: at any moment of any run, with writes that
  fail at any point, what the server has received is a prefix of the rewritten first bytes (for an HTTP request)
  and the client's later bytes, and what the client has received is a prefix of the reply that establishes a tunnel
  and the server's bytes; as long as nothing failed or ended both are complete.\<close>

theorem splice_delivers:
  assumes "handleConnection env (Some buf) = r" and "splice_of fs fc r = Some s0" and "s = foldl (splice_step fs fc) s0 acts"
    and "first = (case outcome r of Inr (HttpRelay host first) \<Rightarrow> first | _ \<Rightarrow> [])"
  shows "(\<exists>d. first @ client_bytes acts = out (srv s) @ d) \<and> (\<exists>d. to_client r @ server_bytes acts = out (cli s) @ d) \<and>
    (closed s \<or> broken (cli s) \<or> out (cli s) = to_client r @ server_bytes acts) \<and>
    (closed s \<or> up_over s \<or> broken (srv s) \<or> out (srv s) = first @ client_bytes acts)"
proof -
  have s0: "s0 = start_splice fs fc first (to_client r)"
    using assms(2,4) by (auto simp: splice_of_def split: sum.splits mitm_outcome.splits)
  obtain cs e where up: "srv s = foldl (copy_feed fs) (first_write fs first) cs"
    "client_bytes acts = concat cs @ e" "\<not> up_over s \<and> \<not> closed s \<longrightarrow> e = []"
    using splice_up [of fs fc s0 acts] unfolding assms(3) s0 by (auto simp: start_splice_def)
  obtain ds e' where down: "cli s = foldl (copy_feed fc) (first_write fc (to_client r)) ds"
    "server_bytes acts = concat ds @ e'" "\<not> closed s \<longrightarrow> e' = []"
    using splice_down [of fs fc s0 acts] unfolding assms(3) s0 by (auto simp: start_splice_def)
  show ?thesis
    using write_then_copy [of first cs fs] write_then_copy [of "to_client r" ds fc] write_then_copy_live up down
    by (metis append_assoc append_Nil2)
qed

theorem splice_delivers_witness:
  "\<exists>s d. splice_of (\<lambda>x. None) (\<lambda>x. Some 45) (handleConnection demo_mitm_env (Some (''CONNECT c.d:80 HTTP/1.1'' @ [cr, newline]))) = Some s \<and>
     established @ ''abc'' = out (cli (foldl (splice_step (\<lambda>x. None) (\<lambda>x. Some 45)) s [FromClient ''x'', FromServer ''abc'', ServerOver])) @ d"
proof -
  let ?r = "handleConnection demo_mitm_env (Some (''CONNECT c.d:80 HTTP/1.1'' @ [cr, newline]))"
  have r: "outcome ?r = Inr (Tunnel ''c.d:80'')" "to_client ?r = established" by code_simp+
  then obtain s where s: "splice_of (\<lambda>x. None) (\<lambda>x. Some 45) ?r = Some s" by (simp add: splice_of_def)
  from splice_delivers [OF refl this refl refl, of "[FromClient ''x'', FromServer ''abc'', ServerOver]"] s r
  show ?thesis by auto
qed

text \<open>
  A splice ends with the server: when nothing fails on the way to the client, the handler returns exactly when
  the server ended its side; the end of the client's stream is not passed on to the server.
\<close>

lemma splice_closed:
  "\<forall>x. fc x = None \<Longrightarrow> \<not> broken (cli s) \<Longrightarrow> closed (foldl (splice_step fs fc) s acts) \<longleftrightarrow> closed s \<or> ServerOver \<in> set acts"
proof (induction acts arbitrary: s)
  case (Cons a as)
  then show ?case using Cons.IH [of "splice_step fs fc s a"] by (cases a) (auto simp: Let_def)
qed simp

text \<open>An ordinary tunnel or relay lives as long as the server's side: without failed writes the handler
  returns, and closes both connections, exactly when the server's stream has ended or failed, however long the
  client's has been over; until then what the server sends is delivered at once, and the end of the client's stream
  has no effect but that nothing more is read from the client.\<close>

lemma splice_ends_with_server:
  assumes "splice_of fs fc r = Some s0" and "\<forall>x. fc x = None" and "\<forall>x. fs x = None"
    and "s = foldl (splice_step fs fc) s0 (acts @ ClientOver # map FromServer cs)" and "ServerOver \<notin> set acts"
  shows "\<not> closed s \<and> closed (splice_step fs fc s ServerOver) \<and> up_over s \<and> \<not> broken (srv s) \<and>
    out (cli s) = to_client r @ server_bytes acts @ concat cs"
proof -
  have s0: "cli s0 = first_write fc (to_client r)" "srv s0 = first_write fs (case outcome r of Inr (HttpRelay host first) \<Rightarrow> first | _ \<Rightarrow> [])"
    "\<not> closed s0"
    using assms(1) by (auto simp: splice_of_def start_splice_def split: sum.splits mitm_outcome.splits)
  have "\<not> broken (cli s0)" using write_then_copy_alive [OF assms(2), of _ "[]"] by (simp add: s0)
  then have live: "\<not> closed s"
    unfolding assms(4) splice_closed [OF assms(2) \<open>\<not> broken (cli s0)\<close>] using assms(5) s0(3) by auto
  obtain ds e where down: "cli s = foldl (copy_feed fc) (cli s0) ds"
    "server_bytes (acts @ ClientOver # map FromServer cs) = concat ds @ e" "\<not> closed s \<longrightarrow> e = []"
    using splice_down [of fs fc s0] unfolding assms(4) by blast
  have "out (cli s) = to_client r @ concat ds"
    unfolding down(1) s0 by (rule write_then_copy_live [OF write_then_copy_alive [OF assms(2)]])
  moreover have "server_bytes (acts @ ClientOver # map FromServer cs) = server_bytes acts @ concat cs"
    by (induction acts rule: server_bytes.induct) (induction cs; simp)+
  moreover obtain us u where "srv s = foldl (copy_feed fs) (srv s0) us"
    using splice_up [of fs fc s0] unfolding assms(4) by blast
  then have "\<not> broken (srv s)" using write_then_copy_alive [OF assms(3)] by (simp add: s0)
  moreover have "up_over s"
  proof -
    have "up_over (foldl (splice_step fs fc) t (map FromServer cs)) = up_over t" for t
      by (induction cs arbitrary: t) (auto simp: Let_def)
    moreover have "\<not> closed (foldl (splice_step fs fc) s0 acts)"
      using splice_closed [OF assms(2) \<open>\<not> broken (cli s0)\<close>] assms(5) s0(3) by blast
    ultimately show ?thesis by (simp add: assms(4))
  qed
  ultimately show ?thesis using live down(2,3) by simp
qed

lemma splice_ends_with_server_witness:
  "\<exists>s. splice_of (\<lambda>x. None) (\<lambda>x. None) (handleConnection demo_mitm_env (Some (''CONNECT c.d:80 HTTP/1.1'' @ [cr, newline]))) = Some s \<and>
     out (cli (foldl (splice_step (\<lambda>x. None) (\<lambda>x. None)) s [FromClient ''x'', ClientOver, FromServer ''abc''])) = established @ ''abc''"
proof -
  let ?r = "handleConnection demo_mitm_env (Some (''CONNECT c.d:80 HTTP/1.1'' @ [cr, newline]))"
  have r: "outcome ?r = Inr (Tunnel ''c.d:80'')" "to_client ?r = established" by code_simp+
  then obtain s where s: "splice_of (\<lambda>x. None) (\<lambda>x. None) ?r = Some s" by (simp add: splice_of_def)
  from splice_ends_with_server [OF this _ _ refl, of "[FromClient ''x'']" "[''abc'']"] s r
  show ?thesis by auto
qed

lemma intercept_run_snoc:
  "intercept_run cid fails s (acts @ [a]) = (case intercept_run cid fails s acts of
     None \<Rightarrow> None | Some t \<Rightarrow> intercept_step cid fails t a)"
  by (induction acts arbitrary: s) (auto split: option.splits)

lemma arrived_snoc:
  shows "arrived d (acts @ [a]) = arrived d acts @ arrived d [a]"
    and "with_error d (acts @ [a]) = with_error d acts @ with_error d [a]"
  by (induction d acts rule: arrived.induct; simp) (induction d acts rule: with_error.induct; simp)

text \<open>One direction of an interception: what was read, what the log has of it, and what was passed on.\<close>

definition direction_inv :: "direction \<Rightarrow> intercept_act list \<Rightarrow> session \<Rightarrow> bool" where
  "direction_inv d acts s \<longleftrightarrow> arrived d acts = logged d s @ to_log (loop s d) @ with_error d acts \<and>
     (loop s d = Over \<or> with_error d acts = []) \<and>
     (\<exists>e. logged d s = out (dest s d) @ e \<and> (broken (dest s d) \<or> e = to_write (loop s d)))"

lemma write_logged:
  assumes "l = out w @ e" and "broken w \<or> e = c"
  shows "\<exists>e. l = out (conn_write fails c w) @ e \<and> (broken (conn_write fails c w) \<or> e = [])"
proof (cases "broken w")
  case True
  then show ?thesis using assms by (simp add: conn_write_def)
next
  case False
  obtain d e' where "c = d @ e'" "out (conn_write fails c w) = out w @ d" "\<not> broken (conn_write fails c w) \<longrightarrow> e' = []"
    using conn_write_prefix [of c fails w] by blast
  then show ?thesis using False assms by auto
qed

lemma direction_inv_other:
  assumes "direction_inv d acts s" and "loop t d = loop s d" and "logged d t = logged d s"
    and "out (dest t d) = out (dest s d)" and "broken (dest s d) \<longrightarrow> broken (dest t d)"
    and "arrived d [a] = []" and "with_error d [a] = []"
  shows "direction_inv d (acts @ [a]) t"
  unfolding direction_inv_def arrived_snoc assms(2-4,6,7)
  using assms(1,5) unfolding direction_inv_def by auto

lemma direction_inv_step:
  assumes "direction_inv d acts s" and "intercept_step cid fails s a = Some t"
  shows "direction_inv d (acts @ [a]) t"
proof (cases a)
  case (Read d' c)
  then have t: "loop s d' = AtRead" "t = s\<lparr> loop := (loop s)(d' := ToLog c) \<rparr>"
    using assms(2) by (simp_all split: if_splits)
  show ?thesis
  proof (cases "d' = d")
    case True
    then show ?thesis using assms(1) Read t
      by (simp add: direction_inv_def arrived_snoc logged_def to_log_def to_write_def)
  qed (rule direction_inv_other [OF assms(1)]; simp add: t Read logged_def)
next
  case (EndRead d' c)
  then have t: "loop s d' = AtRead" "t = end_read d' s" using assms(2) by (simp_all split: if_splits)
  then have t': "loop t = (loop s)(d' := Over)" "s_log t = s_log s" "out (dest t d) = out (dest s d)"
    "broken (dest s d) \<longrightarrow> broken (dest t d)"
    by (simp_all add: end_read_def split: direction.splits)
  show ?thesis
  proof (cases "d' = d")
    case True
    then show ?thesis using assms(1) EndRead t(1) t'
      by (auto simp: direction_inv_def arrived_snoc logged_def to_log_def to_write_def)
  qed (rule direction_inv_other [OF assms(1)]; simp add: t' EndRead logged_def)
next
  case (Log d')
  then obtain c where t: "loop s d' = ToLog c" "t = s\<lparr> loop := (loop s)(d' := ToWrite c),
          s_log := s_log s @ [\<lparr> le_id = cid, le_dir = d', le_len = length c, le_data = c \<rparr>] \<rparr>"
    using assms(2) by (cases "loop s d'") simp_all
  show ?thesis
  proof (cases "d' = d")
    case True
    then show ?thesis using assms(1) Log t
      by (auto simp: direction_inv_def arrived_snoc logged_def to_log_def to_write_def)
  qed (rule direction_inv_other [OF assms(1)]; simp add: t Log logged_def)
next
  case (Write d')
  then obtain c where t: "loop s d' = ToWrite c"
      "t = s\<lparr> loop := (loop s)(d' := AtRead), dest := (dest s)(d' := conn_write (fails d') c (dest s d')) \<rparr>"
    using assms(2) by (cases "loop s d'") simp_all
  show ?thesis
  proof (cases "d' = d")
    case True
    then show ?thesis using assms(1) t Write write_logged [of "logged d s" "dest s d" _ c "fails d"]
      by (auto simp: direction_inv_def arrived_snoc logged_def to_log_def to_write_def)
  qed (rule direction_inv_other [OF assms(1)]; simp add: t Write logged_def)
qed

lemma direction_inv_run:
  "intercept_run cid fails new_session acts = Some s \<Longrightarrow> direction_inv d acts s"
proof (induction acts arbitrary: s rule: rev_induct)
  case Nil
  then show ?case
    by (auto simp: direction_inv_def new_session_def logged_def to_log_def to_write_def new_wconn_def)
next
  case (snoc a acts)
  then obtain t where "intercept_run cid fails new_session acts = Some t" "intercept_step cid fails t a = Some s"
    by (auto simp: intercept_run_snoc split: option.splits)
  then show ?case using snoc.IH direction_inv_step by blast
qed

lemma log_entries_run:
  "intercept_run cid fails s acts = Some t \<Longrightarrow> \<forall>e \<in> set (s_log s). le_id e = cid \<and> le_len e = length (le_data e) \<Longrightarrow>
    \<forall>e \<in> set (s_log t). le_id e = cid \<and> le_len e = length (le_data e)"
proof (induction acts arbitrary: s)
  case (Cons a acts)
  from Cons.prems(1) obtain u where u: "intercept_step cid fails s a = Some u" "intercept_run cid fails u acts = Some t"
    by (cases "intercept_step cid fails s a") simp_all
  have "s_log u = s_log s \<or> (\<exists>d c. s_log u = s_log s @ [\<lparr> le_id = cid, le_dir = d, le_len = length c, le_data = c \<rparr>])"
    using u(1) by (cases a) (auto simp: end_read_def split: if_splits loop_at.splits direction.splits)
  then have "\<forall>e \<in> set (s_log u). le_id e = cid \<and> le_len e = length (le_data e)"
    using Cons.prems(2) by auto
  then show ?case using Cons.IH [OF u(2)] by blast
qed simp

text \<open>C24: the transcript of an interception, at every moment of every run, ends included: what has arrived from a
  side is what the log has of it, in order, then what the loop is about to log, then the bytes that came together with
  the error that ended the loop, which are in neither the log nor what is passed on; each entry has the connection's
  number and its length. What was passed on is a prefix of the log, and all of it but the entry about to be written as
  long as the connection works: a failed write stops neither loop, and the log goes on with data that never arrived.\<close>

theorem intercept_transcript:
  assumes "intercept_run cid fails new_session acts = Some s"
  shows "arrived d acts = logged d s @ to_log (loop s d) @ with_error d acts \<and>
    (loop s d = Over \<or> with_error d acts = []) \<and>
    (\<forall>e \<in> set (s_log s). le_id e = cid \<and> le_len e = length (le_data e)) \<and>
    (\<exists>e. logged d s = out (dest s d) @ e \<and> (broken (dest s d) \<or> e = to_write (loop s d)))"
proof -
  have "\<forall>e \<in> set (s_log s). le_id e = cid \<and> le_len e = length (le_data e)"
    using log_entries_run [OF assms] by (simp add: new_session_def)
  then show ?thesis using direction_inv_run [OF assms, of d] by (simp add: direction_inv_def)
qed

theorem intercept_transcript_witness:
  "\<exists>s. intercept_run 3 (\<lambda>d x. None) new_session
      [Read ToServer ''ab'', Log ToServer, Read ToClient ''x'', Write ToServer, EndRead ToServer ''cd'', Log ToClient] = Some s \<and>
     ''abcd'' = logged ToServer s @ ''cd'' \<and> logged ToServer s = ''ab''"
proof -
  obtain s where s: "intercept_run 3 (\<lambda>d x. None) new_session
      [Read ToServer ''ab'', Log ToServer, Read ToClient ''x'', Write ToServer, EndRead ToServer ''cd'', Log ToClient] = Some s"
    "loop s ToServer = Over"
    by (simp add: new_session_def end_read_def)
  from intercept_transcript [OF s(1), of ToServer] s show ?thesis by (simp add: to_log_def)
qed

text \<open>The end of the session of a server that says everything at once and closes: the last read returns data and the
  end together, and the client gets nothing of it.\<close>

lemma last_record_lost:
  "\<exists>s. intercept_run cid fails new_session [EndRead ToClient ''bye''] = Some s \<and> s_log s = [] \<and>
    out (dest s ToClient) = []"
  by (simp add: new_session_def end_read_def new_wconn_def)

fun conns :: "'conn loop_event list \<Rightarrow> 'conn list" where
  "conns [] = []"
| "conns (Accepted c # es) = c # conns es"
| "conns (_ # es) = conns es"

lemma conns_append [simp]: "conns (es @ es') = conns es @ conns es'"
  by (induction es rule: conns.induct) simp_all

text \<open>The handlers that have returned.\<close>

fun returned :: "'conn loop_event list \<Rightarrow> nat set" where
  "returned [] = {}"
| "returned (HandlerReturns n # es) = insert n (returned es)"
| "returned (_ # es) = returned es"

lemma returned_append [simp]: "returned (es @ es') = returned es \<union> returned es'"
  by (induction es rule: returned.induct) simp_all

lemma loop_run_append: "loop_run s (es @ es') = (case loop_run s es of None \<Rightarrow> None | Some t \<Rightarrow> loop_run t es')"
  by (induction es arbitrary: s) (simp_all split: option.splits)

text \<open>The handlers among the first \<open>n\<close> that have not returned.\<close>

definition unfinished :: "nat \<Rightarrow> 'conn loop_event list \<Rightarrow> nat list" where
  "unfinished n es = filter (\<lambda>m. m \<notin> returned es) [1..<Suc n]"

definition loop_inv :: "'conn loop_event list \<Rightarrow> 'conn accept_loop \<Rightarrow> bool" where
  "loop_inv es s \<longleftrightarrow> conID s = length (conns es) \<and> started s = enumerate 1 (conns es) \<and> returned es \<subseteq> {1..conID s} \<and>
     (case point s of Ended e \<Rightarrow> running s = [] \<and> killed s = unfinished (conID s) es
      | _ \<Rightarrow> running s = unfinished (conID s) es \<and> killed s = [])"

lemma loop_inv_step:
  assumes "loop_inv es s" and "loop_step s e = Some t"
  shows "loop_inv (es @ [e]) t"
proof (cases e)
  case Sigint
  then show ?thesis using assms by (auto simp: loop_inv_def unfinished_def split: loop_point.splits)
next
  case Select
  then show ?thesis using assms by (auto simp: loop_inv_def unfinished_def process_exit_def split: if_splits)
next
  case (Accepted c)
  then have t: "point s = InAccept" "t = s\<lparr> point := AtSelect, conID := Suc (conID s),
      started := started s @ [(Suc (conID s), c)], running := running s @ [Suc (conID s)] \<rparr>"
    using assms(2) by (simp_all split: if_splits)
  have s: "conID s = length (conns es)" "started s = enumerate 1 (conns es)" "running s = unfinished (conID s) es"
    "killed s = []" using assms(1) t(1) by (simp_all add: loop_inv_def)
  have ids: "returned es \<subseteq> {1..conID s}" using assms(1) unfolding loop_inv_def by blast
  have es: "conns (es @ [e]) = conns es @ [c]" "returned (es @ [e]) = returned es" using Accepted by simp_all
  have "Suc (conID s) \<notin> returned es" using ids by auto
  then have unf: "unfinished (Suc (conID s)) (es @ [e]) = unfinished (conID s) es @ [Suc (conID s)]"
    by (simp add: unfinished_def Accepted)
  have ret: "returned es \<subseteq> {1..Suc (conID s)}" using ids by fastforce
  have enum: "enumerate 1 (conns es @ [c]) = enumerate 1 (conns es) @ [(Suc (conID s), c)]"
    by (simp add: enumerate_append_eq s(1))
  show ?thesis unfolding loop_inv_def t(2) es using ret unf enum s by simp
next
  case AcceptError
  then show ?thesis using assms by (auto simp: loop_inv_def unfinished_def process_exit_def split: if_splits)
next
  case (HandlerReturns n)
  then have n: "n \<in> set (running s)" "t = s\<lparr> running := filter (\<lambda>m. m \<noteq> n) (running s) \<rparr>"
    using assms(2) by (simp_all split: if_splits)
  have live: "\<forall>e. point s \<noteq> Ended e"
  proof (intro allI notI)
    fix x
    assume "point s = Ended x"
    then have "running s = []" using assms(1) by (simp add: loop_inv_def)
    then show False using n(1) by simp
  qed
  then have s: "conID s = length (conns es)" "started s = enumerate 1 (conns es)" "running s = unfinished (conID s) es"
    "killed s = []" using assms(1) by (auto simp: loop_inv_def split: loop_point.splits)
  have ids: "returned es \<subseteq> {1..conID s}" using assms(1) unfolding loop_inv_def by blast
  have "unfinished (conID s) (es @ [e]) = filter (\<lambda>m. m \<noteq> n) (unfinished (conID s) es)"
    unfolding unfinished_def filter_filter HandlerReturns by (rule filter_cong) auto
  moreover have "n \<in> {1..conID s}" using n(1) s(3) by (auto simp: unfinished_def)
  moreover have "conns (es @ [e]) = conns es" "returned (es @ [e]) = insert n (returned es)"
    using HandlerReturns by simp_all
  ultimately show ?thesis using live ids s unfolding loop_inv_def n(2) by (cases "point s") simp_all
next
  case (HandlerPanics n)
  then have "n \<in> set (running s)" "t = process_exit HandlerPanic s" using assms(2) by (simp_all split: if_splits)
  then show ?thesis using assms(1) HandlerPanics
    by (auto simp: loop_inv_def unfinished_def process_exit_def split: loop_point.splits)
qed

lemma loop_inv_run: "loop_run new_loop es = Some s \<Longrightarrow> loop_inv es s"
proof (induction es arbitrary: s rule: rev_induct)
  case Nil
  then show ?case by (auto simp: loop_inv_def new_loop_def unfinished_def)
next
  case (snoc e es)
  then obtain t where "loop_run new_loop es = Some t" "loop_step t e = Some s"
    by (auto simp: loop_run_append split: option.splits)
  then show ?case using snoc.IH loop_inv_step by blast
qed

lemma ended_run: "point s = Ended e \<Longrightarrow> running s = [] \<Longrightarrow> loop_run s es = Some t \<Longrightarrow> es = [] \<and> t = s"
  by (cases es; cases "hd es") auto

text \<open>How many connections a loop with a pending signal still accepts.\<close>

definition accepts :: "'conn accept_loop \<Rightarrow> nat" where
  "accepts s = (if point s = InAccept then 1 else 0)"

lemma signalled_run:
  "loop_run s es = Some t \<Longrightarrow> sigChan s \<Longrightarrow> \<forall>e. point s \<noteq> Ended e \<Longrightarrow>
    length (conns es) \<le> accepts s \<and> (point t = Ended Interrupted \<longrightarrow> length (conns es) = accepts s)"
proof (induction es arbitrary: s)
  case (Cons e es)
  from Cons.prems(1) obtain u where u: "loop_step s e = Some u" "loop_run u es = Some t"
    by (cases "loop_step s e") simp_all
  show ?case
  proof (cases "\<exists>x. point u = Ended x")
    case True
    then obtain x where x: "point u = Ended x" by blast
    have "running u = []" using u(1) x Cons.prems(3)
      by (cases e) (auto simp: process_exit_def split: if_splits loop_point.splits)
    then have "es = []" "t = u" using ended_run [OF x _ u(2)] by simp_all
    then show ?thesis using u(1) x Cons.prems(2,3)
      by (cases e) (auto simp: process_exit_def accepts_def split: if_splits loop_point.splits)
  next
    case False
    have "sigChan u" using u(1) Cons.prems(2) False
      by (cases e) (auto simp: process_exit_def split: if_splits loop_point.splits)
    then have IH: "length (conns es) \<le> accepts u \<and> (point t = Ended Interrupted \<longrightarrow> length (conns es) = accepts u)"
      using Cons.IH [OF u(2)] False by blast
    have "accepts s = accepts u + length (conns [e])"
      using u(1) Cons.prems(2,3) False
      by (cases e) (auto simp: process_exit_def accepts_def split: if_splits loop_point.splits)
    moreover have "conns (e # es) = conns [e] @ conns es" using conns_append [of "[e]" es] by simp
    ultimately show ?thesis using IH by simp
  qed
qed (auto simp: accepts_def)

text \<open>C31: the accept loop and an interrupt: in every run, connections are handled once each, in order and numbered
  from 1. After a SIGINT that finds the loop in \<^verbatim>\<open>Accept\<close>, the interrupt does not end the program before one
  more connection has come, and no second one is accepted; after one that finds it at its \<^verbatim>\<open>select\<close>, none is. At the
  end of the program, also by a panic, the handlers that have not returned are killed, that of the last connection
  among them.\<close>

theorem interrupt_after_next_connection:
  assumes "loop_run new_loop before = Some t" and "loop_run t (Sigint # after) = Some s"
  shows "started s = enumerate 1 (conns before @ conns after) \<and>
    length (conns after) \<le> (if point t = InAccept then 1 else 0) \<and>
    (point s = Ended Interrupted \<longrightarrow> length (conns after) = (if point t = InAccept then 1 else 0)) \<and>
    (case point s of
       Ended e \<Rightarrow> running s = [] \<and> killed s = unfinished (length (conns before @ conns after)) (before @ after)
     | _ \<Rightarrow> running s = unfinished (length (conns before @ conns after)) (before @ after) \<and> killed s = [])"
proof -
  have "loop_run new_loop (before @ Sigint # after) = Some s" using assms by (simp add: loop_run_append)
  then have inv: "loop_inv (before @ Sigint # after) s" by (rule loop_inv_run)
  have t: "\<forall>e. point t \<noteq> Ended e" "loop_run (t\<lparr> sigChan := True \<rparr>) after = Some s"
    using assms(2) by (simp_all split: loop_point.splits)
  then have "length (conns after) \<le> accepts t \<and> (point s = Ended Interrupted \<longrightarrow> length (conns after) = accepts t)"
    using signalled_run [OF t(2)] by (simp add: accepts_def)
  moreover have "unfinished n (before @ Sigint # after) = unfinished n (before @ after)" for n
    by (simp add: unfinished_def)
  ultimately show ?thesis using inv by (simp add: loop_inv_def accepts_def split: loop_point.splits)
qed

theorem interrupt_after_next_connection_witness:
  "\<exists>t s. loop_run new_loop [Select, Accepted ''a'', Select] = Some t \<and>
     loop_run t [Sigint, HandlerReturns 1, Accepted ''b'', Select] = Some s \<and>
     point s = Ended Interrupted \<and> started s = [(1, ''a''), (2, ''b'')] \<and> killed s = [2]"
proof -
  obtain t s where r: "loop_run new_loop [Select, Accepted ''a'', Select] = Some t"
    "loop_run t [Sigint, HandlerReturns 1, Accepted ''b'', Select] = Some s" "point s = Ended Interrupted"
    by (simp add: new_loop_def process_exit_def)
  have "enumerate 1 (conns [Select, Accepted ''a'', Select] @ conns [HandlerReturns 1, Accepted ''b'', Select]) = [(1, ''a''), (2, ''b'')]"
    "unfinished (length (conns [Select, Accepted ''a'', Select] @ conns [HandlerReturns 1, Accepted ''b'', Select]))
      ([Select, Accepted ''a'', Select] @ [HandlerReturns 1, Accepted ''b'', Select]) = [2]"
    by code_simp+
  with interrupt_after_next_connection [OF r(1,2)] r(3) have "started s = [(1, ''a''), (2, ''b'')]" "killed s = [2]"
    by (simp_all only: loop_point.case)
  then show ?thesis using r by blast
qed

text \<open>A proxy that was told to create its root certificate starts with it: after a run that created the files,
  on a machine without any, the next run serves with the generated key and the root certificate for it if both
  files could be written and the port, the log file and the rule are in order, and panics otherwise; that a file
  could not be written is noticed only then.\<close>

lemma create_then_serve:
  assumes "x509_laws lib"
    and "CreateCertificate lib (ca_template ten_years now) (ca_template ten_years now) (PublicOf lib key) key = Some der"
    and "createCA f" and "\<not> createCA f'"
  shows "\<exists>fs. mitm_main lib (Some key) ten_years now writable env Map.empty f = Inl (CaCreated fs) \<and>
    mitm_main lib generated ten_years later writable env fs f' =
      (if \<not> writable root_crt then Inl (CaPanic ReadCertFailed)
       else if \<not> writable root_key then Inl (CaPanic ReadKeyFailed)
       else
         (case ListenTCP env (port f') of
            None \<Rightarrow> Inl ListenPanic
          | Some l \<Rightarrow>
              if \<not> OpenLog env then Inl LogPanic
              else
                (case Compile env (ruleStr f') of
                   None \<Rightarrow> Inl RulePanic
                 | Some rule \<Rightarrow>
                     Inr (\<lparr> RootCert = issued (ca_template ten_years now) (ca_template ten_years now) (PublicOf lib key) der,
                            RootKey = key \<rparr>, l, rule))))"
proof -
  have "root_crt \<noteq> root_key" by (simp add: root_crt_def root_key_def)
  from create_then_load [OF assms(1) this assms(2), of writable] show ?thesis
    using assms(3,4) by (auto simp: mitm_main_def)
qed

lemma create_then_serve_witness:
  "\<exists>fs ca. mitm_main (demo_lib [demo_root]) (Some 7) (\<lambda>t. t + 10 * 365 * 24 * hour) 0 (\<lambda>p. True)
      \<lparr> ListenTCP = Some, OpenLog = True, Compile = (\<lambda>r. Some (\<lambda>d. True)) \<rparr> Map.empty
      \<lparr> createCA = True, port = 9000, ruleStr = ''.*'' \<rparr> = Inl (CaCreated fs) \<and>
    mitm_main (demo_lib [demo_root]) None (\<lambda>t. t + 10 * 365 * 24 * hour) 5 (\<lambda>p. True)
      \<lparr> ListenTCP = Some, OpenLog = True, Compile = (\<lambda>r. Some (\<lambda>d. True)) \<rparr> fs
      \<lparr> createCA = False, port = 9000, ruleStr = ''.*'' \<rparr> = Inr (ca, 9000, \<lambda>d. True)"
proof -
  have "CreateCertificate (demo_lib [demo_root]) demo_root demo_root (PublicOf (demo_lib [demo_root]) 7) 7 = Some [0, 0, 8]"
    by (simp add: demo_lib_def)
  from create_then_serve [OF demo_lib_laws this [unfolded demo_root_def],
      of "\<lparr> createCA = True, port = 9000, ruleStr = ''.*'' \<rparr>" "\<lparr> createCA = False, port = 9000, ruleStr = ''.*'' \<rparr>"
        "\<lambda>p. True" "\<lparr> ListenTCP = Some, OpenLog = True, Compile = (\<lambda>r. Some (\<lambda>d. True)) \<rparr>" None 5]
  show ?thesis by (auto simp: demo_root_def)
qed

end
