(* ===== verification/Tunnel.thy ===== *)
theory Tunnel
  imports X509
begin

text \<open>
  The QUIC and TLS setup of \<^verbatim>\<open>quic-cc-lab/internal/tunnel/tunnel.go\<close>: the shared
  configuration, the listener with its throwaway certificate, and the dialler. The library's
  \<^verbatim>\<open>ListenAddr\<close> and \<^verbatim>\<open>DialAddr\<close> are parameters, as is the outcome of generating a key.
\<close>

section \<open>Configuration\<close>

definition ALPN :: string where
  "ALPN = ''quic-cc-lab''"

record quic_config =
  MaxIdleTimeout :: int
  KeepAlivePeriod :: int
  InitialStreamReceiveWindow :: int
  MaxStreamReceiveWindow :: int
  InitialConnectionReceiveWindow :: int
  MaxConnectionReceiveWindow :: int

definition QUICConfig :: quic_config where
  "QUICConfig = (let big = push_bit 27 1 in
     \<lparr> MaxIdleTimeout = 30 * nanosecond_per_second, KeepAlivePeriod = 5 * nanosecond_per_second,
       InitialStreamReceiveWindow = push_bit 20 16, MaxStreamReceiveWindow = big,
       InitialConnectionReceiveWindow = push_bit 20 16, MaxConnectionReceiveWindow = big \<rparr>)"

section \<open>Listening and dialling\<close>

datatype tunnel_error = KeyError | CertificateError | MarshalError | PairError | NetworkError

text \<open>\<open>key\<close>: what \<^verbatim>\<open>ecdsa.GenerateKey\<close> returns; \<open>now\<close>: the clock.\<close>

definition template :: "int \<Rightarrow> 'pub certificate" where
  "template now = blank_certificate\<lparr> SerialNumber := 1, NotBefore := now + - hour, NotAfter := now + 24 * hour \<rparr>"

definition selfSignedTLS ::
    "('priv, 'pub) x509_lib \<Rightarrow> 'priv option \<Rightarrow> int \<Rightarrow> tunnel_error + 'priv tls_config" where
  "selfSignedTLS lib generated now = (case generated of
       None \<Rightarrow> Inl KeyError
     | Some key \<Rightarrow>
         (let tmpl = template now in
          case CreateCertificate lib tmpl tmpl (PublicOf lib key) key of
            None \<Rightarrow> Inl CertificateError
          | Some der \<Rightarrow>
              (case MarshalPKCS8 lib key of
                 None \<Rightarrow> Inl MarshalError
               | Some keyDER \<Rightarrow>
                   (let certPEM = EncodePEM lib ''CERTIFICATE'' der;
                        keyPEM = EncodePEM lib ''PRIVATE KEY'' keyDER in
                    case X509KeyPair lib certPEM keyPEM of
                      None \<Rightarrow> Inl PairError
                    | Some cert \<Rightarrow>
                        Inr \<lparr> Certificates = [cert], NextProtos = [ALPN], InsecureSkipVerify = False \<rparr>))))"

definition Listen ::
    "('priv, 'pub) x509_lib \<Rightarrow> (string \<Rightarrow> 'priv tls_config \<Rightarrow> quic_config \<Rightarrow> 'l option) \<Rightarrow> 'priv option \<Rightarrow> int \<Rightarrow>
      string \<Rightarrow> tunnel_error + 'l" where
  "Listen lib ListenAddr generated now addr = (case selfSignedTLS lib generated now of
       Inl err \<Rightarrow> Inl err
     | Inr tlsConf \<Rightarrow>
         (case ListenAddr addr tlsConf QUICConfig of None \<Rightarrow> Inl NetworkError | Some l \<Rightarrow> Inr l))"

definition client_tls :: "'priv tls_config" where
  "client_tls = \<lparr> Certificates = [], NextProtos = [ALPN], InsecureSkipVerify = True \<rparr>"

definition Dial :: "(string \<Rightarrow> 'priv tls_config \<Rightarrow> quic_config \<Rightarrow> 'conn option) \<Rightarrow> string \<Rightarrow> tunnel_error + 'conn" where
  "Dial DialAddr addr =
     (case DialAddr addr client_tls QUICConfig of None \<Rightarrow> Inl NetworkError | Some c \<Rightarrow> Inr c)"

lemmas [go_eval] = ALPN_def QUICConfig_def template_def selfSignedTLS_def Listen_def client_tls_def Dial_def

section \<open>Properties\<close>

text \<open>With a library that keeps its promises, the listener's setup fails only where a call of the
  library does: given a key, a certificate for it and its encoding, the listener is opened on the given
  address with the shared configuration and one certificate, which belongs to the key, is its own issuer,
  is valid at the moment of the setup and stays so for a day but a second, and with an application protocol
  that the dialler's configuration, which does not verify the certificate, offers as well.\<close>

lemma listener_setup:
  assumes "x509_laws (lib :: ('priv, 'pub) x509_lib)" and "CreateCertificate lib (template now) (template now) (PublicOf lib key) key = Some der"
    and "MarshalPKCS8 lib key \<noteq> None"
  shows "\<exists>conf leaf. Listen lib ListenAddr (Some key) now addr =
      (case ListenAddr addr conf QUICConfig of None \<Rightarrow> Inl NetworkError | Some l \<Rightarrow> Inr l) \<and>
    Certificates conf = [\<lparr> Certificate = [der], PrivateKey = key \<rparr>] \<and>
    NextProtos conf = NextProtos (client_tls :: 'priv tls_config) \<and> InsecureSkipVerify (client_tls :: 'priv tls_config) \<and>
    ParseCertificate lib der = Some leaf \<and> PublicKey leaf = Some (PublicOf lib key) \<and> Issuer leaf = Subject leaf \<and>
    NotBefore leaf \<le> now \<and> now + 24 * hour - nanosecond_per_second < NotAfter leaf"
proof -
  let ?conf = "\<lparr> Certificates = [\<lparr> Certificate = [der], PrivateKey = key \<rparr>], NextProtos = [ALPN], InsecureSkipVerify = False \<rparr>"
  let ?leaf = "issued (template now) (template now) (PublicOf lib key) der"
  obtain kd where kd: "MarshalPKCS8 lib key = Some kd" using assms(3) by blast
  have "X509KeyPair lib (EncodePEM lib ''CERTIFICATE'' der) (EncodePEM lib ''PRIVATE KEY'' kd) =
      Some \<lparr> Certificate = [der], PrivateKey = key \<rparr>"
    using assms(1,2) kd by (auto simp: x509_laws_def pairs_keys_def)
  then have "selfSignedTLS lib (Some key) now = Inr ?conf"
    using assms(2) kd by (simp add: selfSignedTLS_def Let_def)
  moreover have "ParseCertificate lib der = Some ?leaf"
    using assms(1,2) by (simp add: x509_laws_def parses_created_def)
  moreover have "Issuer ?leaf = Subject ?leaf" "PublicKey ?leaf = Some (PublicOf lib key)"
    "NotBefore ?leaf \<le> now" "now + 24 * hour - nanosecond_per_second < NotAfter ?leaf"
    using to_seconds_bounds [of "now - hour"] to_seconds_bounds [of "now + 24 * hour"]
    by (simp_all add: issued_def template_def hour_def nanosecond_per_second_def)
  ultimately show ?thesis
    by (intro exI [of _ ?conf] exI [of _ ?leaf]) (simp add: Listen_def client_tls_def)
qed

lemma listener_setup_witness:
  "\<exists>conf. Listen (demo_lib [template 0]) (\<lambda>addr conf quic. Some (addr, conf)) (Some 7) 0 '':4433'' = Inr ('':4433'', conf) \<and>
     NextProtos conf = [''quic-cc-lab'']"
proof -
  have create: "CreateCertificate (demo_lib [template 0]) (template 0) (template 0) (PublicOf (demo_lib [template 0]) 7) 7 = Some [0, 0, 8]"
    and "MarshalPKCS8 (demo_lib [template 0]) 7 \<noteq> None"
    by (simp_all add: demo_lib_def)
  from listener_setup [OF demo_lib_laws this, of "\<lambda>addr conf quic. Some (addr, conf)" "'':4433''"] show ?thesis
    by (auto simp: client_tls_def ALPN_def)
qed

text \<open>Both windows start at 16 MiB and may grow to 128 MiB; keep-alives come before the idle timeout.\<close>

lemma quic_config_values:
  "InitialStreamReceiveWindow QUICConfig = 16 * 1024 * 1024" "MaxStreamReceiveWindow QUICConfig = 128 * 1024 * 1024"
  "InitialConnectionReceiveWindow QUICConfig = InitialStreamReceiveWindow QUICConfig"
  "MaxConnectionReceiveWindow QUICConfig = MaxStreamReceiveWindow QUICConfig"
  "KeepAlivePeriod QUICConfig < MaxIdleTimeout QUICConfig"
  by (simp_all add: QUICConfig_def nanosecond_per_second_def Let_def)

end
