(* ===== verification/Controller.thy ===== *)
theory Controller
  imports Prelude
begin

text \<open>
  The interface of \<^verbatim>\<open>quic-cc-lab/internal/cc/controller.go\<close>: the RTT estimates, the two events, and
  the interface \<^verbatim>\<open>Controller\<close> with its optional extensions \<^verbatim>\<open>TimeoutHandler\<close> and
  \<^verbatim>\<open>StateReporter\<close> as a record of methods over the controller's state. Durations are nanoseconds.
  The locale \<open>window_controller\<close> is the contract that the adapter relies on: a controller that was
  initialised keeps its window between one packet and a bound that each acknowledgement raises by at
  most one packet.
\<close>

section \<open>Events\<close>

record RTT =
  Smoothed :: int
  Latest :: int
  Min :: int
  MeanDeviation :: int

record AckEvent =
  BytesAcked :: int
  AckInFlight :: int
  AckRTT :: RTT
  AckNow :: int

record LossEvent =
  BytesLost :: int
  LossInFlight :: int
  LossRTT :: RTT
  LossNow :: int

section \<open>The controller interface\<close>

record 'c controller =
  OnInit :: "int \<Rightarrow> 'c \<Rightarrow> 'c"
  OnAck :: "AckEvent \<Rightarrow> 'c \<Rightarrow> 'c"
  OnLoss :: "LossEvent \<Rightarrow> 'c \<Rightarrow> 'c"
  CongestionWindow :: "'c \<Rightarrow> int"
  PacingRate :: "'c \<Rightarrow> int"
  TimeoutHandler :: "(bool \<Rightarrow> 'c \<Rightarrow> 'c) option"
  StateReporter :: "(('c \<Rightarrow> bool) \<times> ('c \<Rightarrow> bool)) option"

text \<open>The events that the sender reports, and a run of a controller over them.\<close>

datatype cc_event = Ack AckEvent | Loss LossEvent | Timeout bool

definition cc_step :: "'c controller \<Rightarrow> 'c \<Rightarrow> cc_event \<Rightarrow> 'c" where
  "cc_step m c e = (case e of
       Ack ev \<Rightarrow> OnAck m ev c
     | Loss ev \<Rightarrow> OnLoss m ev c
     | Timeout lost \<Rightarrow> (case TimeoutHandler m of None \<Rightarrow> c | Some h \<Rightarrow> h lost c))"

definition cc_run :: "'c controller \<Rightarrow> 'c \<Rightarrow> cc_event list \<Rightarrow> 'c" where
  "cc_run m c es = foldl (cc_step m) c es"

lemma cc_run_simps [simp]:
  "cc_run m c [] = c"
  "cc_run m c (e # es) = cc_run m (cc_step m c e) es"
  by (simp_all add: cc_run_def)

lemma cc_run_append: "cc_run m c (es @ fs) = cc_run m (cc_run m c es) fs"
  by (simp add: cc_run_def)

text \<open>Events of a sane connection: packets of at most \<open>s\<close> bytes, times and RTTs below 2^62 ns.\<close>

definition sane_time :: "int \<Rightarrow> bool" where
  "sane_time t \<longleftrightarrow> 0 \<le> t \<and> t < 2 ^ 62"

fun sane_event :: "int \<Rightarrow> cc_event \<Rightarrow> bool" where
  "sane_event s (Ack ev) \<longleftrightarrow> 0 \<le> BytesAcked ev \<and> BytesAcked ev \<le> s \<and> sane_time (AckNow ev)"
| "sane_event s (Loss ev) \<longleftrightarrow> sane_time (LossNow ev) \<and> sane_time (Smoothed (LossRTT ev))"
| "sane_event s (Timeout lost) \<longleftrightarrow> True"

fun is_ack :: "cc_event \<Rightarrow> bool" where
  "is_ack (Ack ev) \<longleftrightarrow> True"
| "is_ack (Loss ev) \<longleftrightarrow> False"
| "is_ack (Timeout lost) \<longleftrightarrow> False"

definition acks :: "cc_event list \<Rightarrow> int" where
  "acks es = int (length (filter is_ack es))"

lemma acks_simps [simp]:
  "acks [] = 0"
  "acks (e # es) = (if is_ack e then 1 else 0) + acks es"
  by (simp_all add: acks_def)

lemma acks_nonneg [simp]: "0 \<le> acks es"
  by (simp add: acks_def)

section \<open>The contract\<close>

locale window_controller =
  fixes m :: "'c controller"
    and inv :: "int \<Rightarrow> int \<Rightarrow> 'c \<Rightarrow> bool"
    and fresh :: "'c \<Rightarrow> bool"
    and start :: int
  assumes init: "fresh c \<Longrightarrow> 0 < s \<Longrightarrow> s \<le> 65536 \<Longrightarrow> inv s (start * s) (OnInit m s c)"
    and fresh_timeout: "fresh c \<Longrightarrow> TimeoutHandler m = Some h \<Longrightarrow> fresh (h lost c)"
    and step: "inv s b c \<Longrightarrow> sane_event s e \<Longrightarrow> b + s < 2 ^ 62 \<Longrightarrow>
      inv s (if is_ack e then b + s else b) (cc_step m c e)"
    and window: "inv s b c \<Longrightarrow> 0 < s \<and> s \<le> CongestionWindow m c \<and> CongestionWindow m c \<le> b"
begin

lemma run_inv:
  assumes "inv s b c" and "\<forall>e \<in> set es. sane_event s e" and "b + (acks es + 1) * s < 2 ^ 62"
  shows "inv s (b + acks es * s) (cc_run m c es)"
  using assms
proof (induction es arbitrary: b c)
  case (Cons e es)
  let ?b = "if is_ack e then b + s else b"
  have s: "0 < s" using Cons.prems(1) window by blast
  have "0 \<le> s * acks es" using s by simp
  moreover have "b + s + s * acks es < 2 ^ 62"
    using Cons.prems(3) s by (cases "is_ack e") (simp_all add: algebra_simps)
  ultimately have "b + s < 2 ^ 62" by linarith
  then have "inv s ?b (cc_step m c e)" using Cons.prems by (intro step) simp_all
  moreover have "?b + (acks es + 1) * s < 2 ^ 62"
    using Cons.prems(3) by (auto simp: algebra_simps split: if_splits)
  ultimately have "inv s (?b + acks es * s) (cc_run m (cc_step m c e) es)"
    using Cons.prems(2) by (intro Cons.IH) simp_all
  moreover have "?b + acks es * s = b + acks (e # es) * s" by (simp add: algebra_simps)
  ultimately show ?case by simp
qed simp

lemma run_window:
  assumes "fresh c" and "0 < s" and "s \<le> 65536" and "\<forall>e \<in> set es. sane_event s e"
    and "(start + acks es + 1) * s < 2 ^ 62"
  shows "s \<le> CongestionWindow m (cc_run m (OnInit m s c) es) \<and>
    CongestionWindow m (cc_run m (OnInit m s c) es) \<le> (start + acks es) * s"
proof -
  have "inv s (start * s + acks es * s) (cc_run m (OnInit m s c) es)"
    using assms init [of c s] by (intro run_inv) (simp_all add: algebra_simps)
  from window [OF this] show ?thesis by (simp add: algebra_simps)
qed

end

text \<open>
  Controllers that react to one loss per epoch: a loss reported before the end of the epoch is
  ignored, and acknowledgements leave that end alone.
\<close>

fun before_end :: "int \<Rightarrow> cc_event \<Rightarrow> bool" where
  "before_end t (Ack ev) \<longleftrightarrow> True"
| "before_end t (Loss ev) \<longleftrightarrow> LossNow ev < t"
| "before_end t (Timeout lost) \<longleftrightarrow> False"

locale epoch_controller =
  fixes m :: "'c controller"
    and epoch_end :: "'c \<Rightarrow> int"
  assumes early_loss: "LossNow ev < epoch_end c \<Longrightarrow> OnLoss m ev c = c"
    and ack_epoch: "epoch_end (OnAck m ack c) = epoch_end c"
begin

lemma run_within_epoch:
  assumes "\<forall>e \<in> set es. before_end (epoch_end c) e"
  shows "cc_run m c es = cc_run m c (filter is_ack es)"
  using assms
proof (induction es arbitrary: c)
  case (Cons e es)
  then show ?case
    by (cases e) (simp_all add: cc_step_def early_loss ack_epoch)
qed simp

end

end
