(* ===== verification/Pacer.thy ===== *)
theory Pacer
  imports Prelude
begin

text \<open>
  The token-bucket pacer \<^verbatim>\<open>quic-cc-lab/internal/cc/pacer.go\<close>. Byte counts and monotonic times are
  64-bit signed integers. The package \<^verbatim>\<open>apernet/quic-go\<close> is not part of the repository: its two
  constants and the three methods of \<^verbatim>\<open>monotime.Time\<close> that the pacer calls are the parameter \<open>env\<close>,
  and \<open>quic_env_ok\<close> states their documented behaviour. \<^verbatim>\<open>getBandwidth\<close> is a closure over the
  controller; each operation takes the value \<open>bw\<close> it returns.
\<close>

section \<open>The library's part\<close>

record quic_env =
  InitialPacketSize :: int
  MinPacingDelay :: int
  IsZero :: "int \<Rightarrow> bool"
  Sub :: "int \<Rightarrow> int \<Rightarrow> int"
  Add :: "int \<Rightarrow> int \<Rightarrow> int"

definition quic_env_ok :: "quic_env \<Rightarrow> bool" where
  "quic_env_ok env \<longleftrightarrow> 0 < InitialPacketSize env \<and> InitialPacketSize env \<le> 65536 \<and>
     0 < MinPacingDelay env \<and> MinPacingDelay env \<le> 1000000000 \<and>
     (\<forall>t. IsZero env t \<longleftrightarrow> t = 0) \<and>
     (\<forall>t u. Sub env t u = i64 (t - u)) \<and> (\<forall>t d. Add env t d = i64 (t + d))"

section \<open>State and operations\<close>

record pacer =
  budgetAtLastSent :: int
  maxDatagramSize :: int
  lastSentTime :: int

definition newPacer :: "quic_env \<Rightarrow> int \<Rightarrow> pacer" where
  "newPacer env m = \<lparr> budgetAtLastSent = i64 (10 * InitialPacketSize env), maxDatagramSize = m,
     lastSentTime = 0 \<rparr>"

definition maxBurstSize :: "quic_env \<Rightarrow> int \<Rightarrow> pacer \<Rightarrow> int" where
  "maxBurstSize env bw p =
     max (tdiv (i64 (i64 (4 * MinPacingDelay env) * bw)) 1000000000) (i64 (10 * maxDatagramSize p))"

definition budget :: "quic_env \<Rightarrow> int \<Rightarrow> pacer \<Rightarrow> int \<Rightarrow> int" where
  "budget env bw p now =
     (if IsZero env (lastSentTime p) then maxBurstSize env bw p
      else
        (let b = i64 (budgetAtLastSent p + tdiv (i64 (bw * Sub env now (lastSentTime p))) 1000000000);
             b = (if b < 0 then 2 ^ 62 - 1 else b)
         in min (maxBurstSize env bw p) b))"

definition sentPacket :: "quic_env \<Rightarrow> int \<Rightarrow> pacer \<Rightarrow> int \<Rightarrow> int \<Rightarrow> pacer" where
  "sentPacket env bw p sendTime n =
     (let b = budget env bw p sendTime;
          p = (if b < n then p\<lparr> budgetAtLastSent := 0 \<rparr>
               else p\<lparr> budgetAtLastSent := i64 (b - n) \<rparr>)
      in p\<lparr> lastSentTime := sendTime \<rparr>)"

text \<open>The zero time means "now".\<close>

definition timeUntilSend :: "quic_env \<Rightarrow> int \<Rightarrow> pacer \<Rightarrow> int" where
  "timeUntilSend env bw0 p =
     (if maxDatagramSize p \<le> budgetAtLastSent p then 0
      else
        (let bw = u64 bw0 in
         if bw = 0 then 0
         else
           (let diff = u64 (1000000000 * u64 (i64 (maxDatagramSize p - budgetAtLastSent p)));
                d = diff div bw;
                d = (if 0 < diff mod bw then u64 (d + 1) else d)
            in Add env (lastSentTime p) (max (MinPacingDelay env) (i64 d)))))"

definition setMaxDatagramSize :: "int \<Rightarrow> pacer \<Rightarrow> pacer" where
  "setMaxDatagramSize s p = p\<lparr> maxDatagramSize := s \<rparr>"

lemmas [go_eval] = newPacer_def maxBurstSize_def budget_def sentPacket_def timeUntilSend_def
  setMaxDatagramSize_def

section \<open>Exact arithmetic\<close>

text \<open>
  The range in which no operation overflows: times below \<open>h\<close>, a bandwidth with \<open>bw * h < 2^62\<close>,
  and a datagram of at most 65536 bytes.
\<close>

definition pacer_inv :: "quic_env \<Rightarrow> int \<Rightarrow> int \<Rightarrow> pacer \<Rightarrow> bool" where
  "pacer_inv env bw h p \<longleftrightarrow> quic_env_ok env \<and> 0 \<le> bw \<and> 4 * MinPacingDelay env \<le> h \<and>
     h < 2 ^ 62 \<and> bw * h < 2 ^ 62 \<and>
     0 < maxDatagramSize p \<and> maxDatagramSize p \<le> 65536 \<and>
     0 \<le> budgetAtLastSent p \<and> budgetAtLastSent p < 2 ^ 62 \<and>
     0 \<le> lastSentTime p \<and> lastSentTime p < h"

lemma pacer_inv_product:
  assumes "pacer_inv env bw h p" and "0 \<le> x" and "x \<le> h"
  shows "0 \<le> bw * x \<and> bw * x < 2 ^ 62"
proof -
  have "bw * x \<le> bw * h" using assms by (intro mult_left_mono) (simp_all add: pacer_inv_def)
  then show ?thesis using assms by (simp add: pacer_inv_def)
qed

lemma div_e9_bounds: "0 \<le> x \<Longrightarrow> x < 2 ^ 62 \<Longrightarrow> 0 \<le> x div 1000000000 \<and> x div 1000000000 < (2 ^ 62 :: int)"
  by linarith

lemma pacer_inv_elapsed:
  assumes "pacer_inv env bw h p" and "lastSentTime p \<le> now" and "now < h"
  shows "0 \<le> bw * (now - lastSentTime p) \<and> bw * (now - lastSentTime p) < 2 ^ 62"
  using assms pacer_inv_product [OF assms(1), of "now - lastSentTime p"]
  by (simp add: pacer_inv_def)

lemma maxBurstSize_exact:
  assumes "pacer_inv env bw h p"
  shows "maxBurstSize env bw p =
    max (bw * (4 * MinPacingDelay env) div 1000000000) (10 * maxDatagramSize p)"
proof -
  have e: "quic_env_ok env" "4 * MinPacingDelay env \<le> h" using assms by (simp_all add: pacer_inv_def)
  then have "0 \<le> bw * (4 * MinPacingDelay env) \<and> bw * (4 * MinPacingDelay env) < 2 ^ 62"
    using assms by (intro pacer_inv_product) (simp_all add: quic_env_ok_def)
  then show ?thesis
    using assms e by (simp add: maxBurstSize_def pacer_inv_def quic_env_ok_def tdiv_nonneg ac_simps)
qed

lemma maxBurstSize_bounds:
  assumes "pacer_inv env bw h p"
  shows "10 * maxDatagramSize p \<le> maxBurstSize env bw p \<and> maxBurstSize env bw p < 2 ^ 62"
proof -
  have e: "quic_env_ok env" "4 * MinPacingDelay env \<le> h" using assms by (simp_all add: pacer_inv_def)
  then have "0 \<le> bw * (4 * MinPacingDelay env) \<and> bw * (4 * MinPacingDelay env) < 2 ^ 62"
    using pacer_inv_product [OF assms, of "4 * MinPacingDelay env"] by (simp add: quic_env_ok_def)
  then have "bw * (4 * MinPacingDelay env) div 1000000000 < 2 ^ 62" using div_e9_bounds by blast
  then show ?thesis using assms by (simp add: maxBurstSize_exact [of env bw h] pacer_inv_def)
qed

lemma budget_exact:
  assumes "pacer_inv env bw h p" and "lastSentTime p \<le> now" and "now < h"
  shows "budget env bw p now = (if lastSentTime p = 0 then maxBurstSize env bw p
    else min (maxBurstSize env bw p)
      (budgetAtLastSent p + bw * (now - lastSentTime p) div 1000000000))"
proof -
  note e = pacer_inv_elapsed [OF assms]
  then have "0 \<le> bw * (now - lastSentTime p) div 1000000000 \<and>
      bw * (now - lastSentTime p) div 1000000000 < 2 ^ 62"
    using div_e9_bounds by blast
  then show ?thesis
    using assms e
    by (simp add: budget_def pacer_inv_def quic_env_ok_def tdiv_nonneg Let_def)
qed

lemma budget_bounds:
  assumes "pacer_inv env bw h p" and "lastSentTime p \<le> now" and "now < h"
  shows "0 \<le> budget env bw p now \<and> budget env bw p now \<le> maxBurstSize env bw p"
proof -
  have "0 \<le> bw * (now - lastSentTime p) div 1000000000"
    using pacer_inv_elapsed [OF assms] div_e9_bounds by blast
  then show ?thesis
    using assms maxBurstSize_bounds [OF assms(1)]
    by (simp add: budget_exact [of env bw h] pacer_inv_def)
qed

section \<open>Token buckets\<close>

text \<open>
  A schedule of sends (time and size), each at or after the one before and within the budget that is
  available when it is made.
\<close>

fun paced :: "('s \<Rightarrow> int \<Rightarrow> int) \<Rightarrow> ('s \<Rightarrow> int \<Rightarrow> int \<Rightarrow> 's) \<Rightarrow> ('s \<Rightarrow> int) \<Rightarrow> int \<Rightarrow>
    's \<Rightarrow> (int \<times> int) list \<Rightarrow> bool" where
  "paced avail spend clock h p [] \<longleftrightarrow> True"
| "paced avail spend clock h p ((t, n) # sends) \<longleftrightarrow>
     clock p \<le> t \<and> 0 < t \<and> t < h \<and> 0 \<le> n \<and> n \<le> avail p t \<and>
     paced avail spend clock h (spend p t n) sends"

locale token_bucket =
  fixes avail :: "'s \<Rightarrow> int \<Rightarrow> int"
    and spend :: "'s \<Rightarrow> int \<Rightarrow> int \<Rightarrow> 's"
    and clock :: "'s \<Rightarrow> int"
    and inv :: "'s \<Rightarrow> bool"
    and horizon rate :: int
  assumes spend_inv: "inv p \<Longrightarrow> clock p \<le> t \<Longrightarrow> 0 < t \<Longrightarrow> t < horizon \<Longrightarrow> 0 \<le> n \<Longrightarrow> inv (spend p t n)"
    and spend_clock: "clock (spend p t n) = t"
    and refill: "inv p \<Longrightarrow> clock p \<le> t \<Longrightarrow> 0 < t \<Longrightarrow> t \<le> t' \<Longrightarrow> t' < horizon \<Longrightarrow> 0 \<le> n \<Longrightarrow> n \<le> avail p t \<Longrightarrow>
      1000000000 * (avail (spend p t n) t' + n) \<le> 1000000000 * avail p t + rate * (t' - t)"
begin

lemma conformance:
  assumes "inv p" and "paced avail spend clock horizon p ((t, n) # sends)"
  shows "1000000000 * sum_list (map snd ((t, n) # sends)) \<le>
    1000000000 * avail p t + rate * (fst (last ((t, n) # sends)) - t)"
  using assms
proof (induction sends arbitrary: p t n)
  case Nil
  then show ?case by simp
next
  case (Cons u sends)
  obtain t' n' where u: "u = (t', n')" by (cases u)
  let ?p = "spend p t n" and ?fin = "fst (last ((t', n') # sends))"
  have "inv ?p" using Cons.prems by (simp add: spend_inv)
  then have "1000000000 * sum_list (map snd ((t', n') # sends)) \<le>
      1000000000 * avail ?p t' + rate * (?fin - t')"
    using Cons.prems(2) by (intro Cons.IH) (simp_all add: u)
  moreover have "1000000000 * (avail ?p t' + n) \<le> 1000000000 * avail p t + rate * (t' - t)"
    using Cons.prems by (intro refill) (simp_all add: u spend_clock)
  ultimately have "1000000000 * (n + sum_list (map snd ((t', n') # sends))) \<le>
      1000000000 * avail p t + (rate * (?fin - t') + rate * (t' - t))"
    by (simp only: distrib_left)
  then show ?case by (simp add: u right_diff_distrib)
qed

end

lemma sentPacket_exact:
  assumes "pacer_inv env bw h p" and "lastSentTime p \<le> t" and "t < h" and "0 \<le> n"
  shows "sentPacket env bw p t n = p\<lparr> budgetAtLastSent := max 0 (budget env bw p t - n),
    lastSentTime := t \<rparr>"
  using budget_bounds [OF assms(1-3)] maxBurstSize_bounds [OF assms(1)] assms(4)
  by (simp add: sentPacket_def Let_def)

lemma sentPacket_inv:
  assumes "pacer_inv env bw h p" and "lastSentTime p \<le> t" and "0 < t" and "t < h" and "0 \<le> n"
  shows "pacer_inv env bw h (sentPacket env bw p t n)"
  using budget_bounds [OF assms(1,2,4)] maxBurstSize_bounds [OF assms(1)] assms
  by (simp add: sentPacket_exact [of env bw h]) (simp add: pacer_inv_def)

lemma lastSentTime_sentPacket [simp]: "lastSentTime (sentPacket env bw p t n) = t"
  by (simp add: sentPacket_def Let_def)

interpretation pacer: token_bucket "budget env bw" "sentPacket env bw" lastSentTime
  "pacer_inv env bw h" h bw for env bw h
proof (unfold_locales, goal_cases)
  case (1 p t n)
  then show ?case by (rule sentPacket_inv)
next
  case (2 p t n)
  show ?case by simp
next
  case (3 p t t' n)
  then have t: "t < h" by simp
  define y where "y = bw * (t' - t)"
  define x where "x = y div 1000000000"
  let ?q = "sentPacket env bw p t n"
  have q: "?q = p\<lparr> budgetAtLastSent := budget env bw p t - n, lastSentTime := t \<rparr>"
    using 3 t by (simp add: sentPacket_exact [of env bw h])
  have "pacer_inv env bw h ?q" using 3 t by (intro sentPacket_inv) simp_all
  then have "budget env bw ?q t' = min (maxBurstSize env bw ?q) (budgetAtLastSent ?q + x)"
    using 3 budget_exact [of env bw h ?q t'] by (simp add: x_def y_def)
  then have "budget env bw ?q t' \<le> budgetAtLastSent ?q + x" by simp
  moreover have "budgetAtLastSent ?q = budget env bw p t - n" by (simp only: q) simp
  ultimately have "budget env bw ?q t' + n \<le> budget env bw p t + x" by simp
  then have "1000000000 * (budget env bw ?q t' + n) \<le> 1000000000 * (budget env bw p t + x)"
    by (rule mult_left_mono) simp
  also have "\<dots> = 1000000000 * budget env bw p t + 1000000000 * x" by (rule distrib_left)
  also have "1000000000 * x \<le> y" unfolding x_def by linarith
  finally show ?case by (simp only: y_def)
qed

section \<open>Waiting for budget\<close>

text \<open>The wait in nanoseconds for a deficit at a bandwidth: the ceiling that the code computes.\<close>

definition ceil_wait :: "int \<Rightarrow> int \<Rightarrow> int" where
  "ceil_wait deficit bw = (let diff = 1000000000 * deficit in
     if 0 < diff mod bw then diff div bw + 1 else diff div bw)"

lemma ceil_wait_enough:
  assumes "0 < bw" and "ceil_wait deficit bw \<le> x"
  shows "deficit \<le> bw * x div 1000000000"
proof -
  define n where "n = 1000000000 * deficit"
  have w: "ceil_wait deficit bw = (if 0 < n mod bw then n div bw + 1 else n div bw)"
    by (simp add: ceil_wait_def n_def)
  have "n \<le> bw * ceil_wait deficit bw"
  proof (cases "0 < n mod bw")
    case True
    then have "bw * ceil_wait deficit bw = n div bw * bw + bw" by (simp add: w algebra_simps)
    then show ?thesis using div_mult_mod_eq [of n bw] pos_mod_bound [of bw n] assms(1) by linarith
  next
    case False
    then have "bw * ceil_wait deficit bw = n div bw * bw" by (simp add: w algebra_simps)
    then show ?thesis using False div_mult_mod_eq [of n bw] by linarith
  qed
  also have "\<dots> \<le> bw * x" using assms by (intro mult_left_mono) simp_all
  finally show ?thesis unfolding n_def by linarith
qed

lemma ceil_wait_needed:
  assumes "0 < bw" and "x < ceil_wait deficit bw"
  shows "bw * x div 1000000000 < deficit"
proof -
  define n where "n = 1000000000 * deficit"
  have "x * bw < n"
  proof (cases "0 < n mod bw")
    case True
    then have "x \<le> n div bw" using assms(2) by (simp add: ceil_wait_def n_def [symmetric])
    then have "x * bw \<le> n div bw * bw" using assms(1) by (intro mult_right_mono) simp_all
    then show ?thesis using True div_mult_mod_eq [of n bw] by linarith
  next
    case False
    then have m: "n mod bw = 0" using pos_mod_sign [of bw n] assms(1) by linarith
    have "x \<le> n div bw - 1" using False assms(2) by (simp add: ceil_wait_def n_def [symmetric])
    then have "x * bw \<le> (n div bw - 1) * bw" using assms(1) by (intro mult_right_mono) simp_all
    also have "\<dots> = n - bw" using m div_mult_mod_eq [of n bw] by (simp add: algebra_simps)
    finally show ?thesis using assms(1) by linarith
  qed
  then show ?thesis unfolding n_def by (simp add: mult.commute)
qed

lemma ceil_wait_bounds:
  assumes "0 < bw" and "0 < deficit" and "deficit \<le> 65536"
  shows "0 < ceil_wait deficit bw \<and> ceil_wait deficit bw \<le> 65536000000001"
proof -
  define n where "n = 1000000000 * deficit"
  have n: "0 < n" "n \<le> 65536000000000" using assms(2,3) by (simp_all add: n_def)
  have "n div bw \<le> n div 1" using assms(1) n(1) by (intro zdiv_mono2) simp_all
  moreover have "0 \<le> n div bw" using assms(1) n(1) by (simp add: pos_imp_zdiv_nonneg_iff)
  moreover have "n mod bw = 0 \<Longrightarrow> n div bw \<noteq> 0" using n(1) div_mult_mod_eq [of n bw] by auto
  moreover have "0 \<le> n mod bw" using assms(1) by simp
  ultimately show ?thesis using n by (auto simp: ceil_wait_def n_def [symmetric])
qed

lemma timeUntilSend_exact:
  assumes "pacer_inv env bw h p" and "0 < bw" and "budgetAtLastSent p < maxDatagramSize p"
  shows "timeUntilSend env bw p = lastSentTime p +
    max (MinPacingDelay env) (ceil_wait (maxDatagramSize p - budgetAtLastSent p) bw)"
proof -
  define deficit where "deficit = maxDatagramSize p - budgetAtLastSent p"
  have d: "0 < deficit" "deficit \<le> 65536"
    using assms(1,3) by (simp_all add: deficit_def pacer_inv_def)
  define w where "w = ceil_wait deficit bw"
  have w: "0 < w" "w \<le> 65536000000001"
    using ceil_wait_bounds [OF assms(2) d] by (simp_all add: w_def)
  have "bw * 1 \<le> bw * h"
    using assms(1,2) by (intro mult_left_mono) (auto simp: pacer_inv_def)
  moreover have "bw * h < 2 ^ 62" using assms(1) by (simp add: pacer_inv_def)
  ultimately have "bw < 2 ^ 62" by linarith
  then have b: "u64 bw = bw" using assms(2) by (intro u64_id) simp_all
  have diff: "u64 (1000000000 * u64 (i64 deficit)) = 1000000000 * deficit"
    using d by (simp add: u64_id)
  have wait: "(let q = 1000000000 * deficit div bw in
      if 0 < 1000000000 * deficit mod bw then u64 (q + 1) else q) = w"
    using w by (auto simp: w_def ceil_wait_def Let_def u64_id)
  have env: "0 < MinPacingDelay env" "MinPacingDelay env \<le> 1000000000"
      "\<And>t x. Add env t x = i64 (t + x)"
    using assms(1) by (simp_all add: pacer_inv_def quic_env_ok_def)
  have "timeUntilSend env bw p = Add env (lastSentTime p) (max (MinPacingDelay env) (i64 w))"
    using assms(2,3) b diff wait by (simp add: timeUntilSend_def deficit_def [symmetric] Let_def)
  also have "\<dots> = lastSentTime p + max (MinPacingDelay env) w"
  proof -
    have "0 \<le> lastSentTime p" "lastSentTime p < 2 ^ 62"
      using assms(1) by (simp_all add: pacer_inv_def)
    then have "i64 (lastSentTime p + max (MinPacingDelay env) w) =
        lastSentTime p + max (MinPacingDelay env) w"
      using w env(1,2) by (intro i64_nonneg_id) (simp_all add: max_def)
    then show ?thesis using w env(3) by simp
  qed
  finally show ?thesis by (simp add: w_def deficit_def)
qed

section \<open>Properties\<close>

text \<open>C5: the pacer enforces its rate: over any schedule of sends, each within the budget available at
  its time, the bytes sent up to the last send are at most one burst plus the bandwidth times the
  elapsed time. Rounding never adds budget, and time spent idle is capped by the burst.\<close>

theorem pacer_conformance:
  assumes "pacer_inv env bw h p"
    and "paced (budget env bw) (sentPacket env bw) lastSentTime h p ((t, n) # sends)"
  shows "1000000000 * sum_list (map snd ((t, n) # sends)) \<le>
    1000000000 * maxBurstSize env bw p + bw * (fst (last ((t, n) # sends)) - t)"
proof -
  have "budget env bw p t \<le> maxBurstSize env bw p"
    using budget_bounds [OF assms(1)] assms(2) by simp
  then show ?thesis using pacer.conformance [OF assms] by linarith
qed

text \<open>A concrete library for the witnesses.\<close>

definition demo_env :: quic_env where
  "demo_env = \<lparr> InitialPacketSize = 1280, MinPacingDelay = 1000000, IsZero = (\<lambda>t. t = 0),
     Sub = (\<lambda>t u. i64 (t - u)), Add = (\<lambda>t d. i64 (t + d)) \<rparr>"

lemma demo_env_ok: "quic_env_ok demo_env"
  by (simp add: quic_env_ok_def demo_env_def)

lemma demo_pacer_inv: "pacer_inv demo_env 1000000 1000000000000 (newPacer demo_env 1200)"
  using demo_env_ok by (simp add: pacer_inv_def newPacer_def demo_env_def)

theorem pacer_conformance_witness:
  "1000000000 * sum_list (map snd [(5 :: int, 1200), (7, 1200)]) \<le>
    1000000000 * maxBurstSize demo_env 1000000 (newPacer demo_env 1200) + 1000000 * (7 - 5 :: int)"
proof -
  have "paced (budget demo_env 1000000) (sentPacket demo_env 1000000) lastSentTime 1000000000000
      (newPacer demo_env 1200) [(5, 1200), (7, 1200)]"
    by (simp add: go_eval demo_env_def)
  from pacer_conformance [OF demo_pacer_inv this] show ?thesis by simp
qed

text \<open>C22: waiting is enough, and not longer than needed: when the pacer holds less than one datagram
  of budget, from the time that \<open>timeUntilSend\<close> returns on the budget covers a datagram, so the
  sender never stalls; and if that time lies beyond the minimum delay, the budget one nanosecond
  earlier does not cover it.\<close>

theorem timeUntilSend_tight:
  assumes "pacer_inv env bw h p" and "0 < bw" and "0 < lastSentTime p"
    and "budgetAtLastSent p < maxDatagramSize p"
    and "t = timeUntilSend env bw p" and "t \<le> now" and "now < h"
  shows "maxDatagramSize p \<le> budget env bw p now \<and>
    (lastSentTime p + MinPacingDelay env < t \<longrightarrow> budget env bw p (t - 1) < maxDatagramSize p)"
proof -
  define w where "w = ceil_wait (maxDatagramSize p - budgetAtLastSent p) bw"
  have t: "t = lastSentTime p + max (MinPacingDelay env) w"
    using assms by (simp add: timeUntilSend_exact [of env bw h] w_def)
  have "0 < MinPacingDelay env" using assms(1) by (simp add: pacer_inv_def quic_env_ok_def)
  then have ord: "lastSentTime p \<le> now" "lastSentTime p \<le> t - 1" "t - 1 < h" using t assms by auto
  have m: "maxDatagramSize p \<le> maxBurstSize env bw p"
    using maxBurstSize_bounds [OF assms(1)] assms(1) by (simp add: pacer_inv_def)
  have "maxDatagramSize p - budgetAtLastSent p \<le> bw * (now - lastSentTime p) div 1000000000"
    using assms(6) t by (intro ceil_wait_enough [OF assms(2)]) (simp add: w_def)
  then have "maxDatagramSize p \<le> budget env bw p now"
    using m budget_exact [OF assms(1) ord(1) assms(7)] by simp
  moreover have "budget env bw p (t - 1) < maxDatagramSize p"
    if "lastSentTime p + MinPacingDelay env < t"
  proof -
    have "t - 1 - lastSentTime p < w" using that t by simp
    then have "bw * (t - 1 - lastSentTime p) div 1000000000 < maxDatagramSize p - budgetAtLastSent p"
      unfolding w_def by (rule ceil_wait_needed [OF assms(2)])
    then show ?thesis using budget_exact [OF assms(1) ord(2,3)] assms(3) by simp
  qed
  ultimately show ?thesis by blast
qed

theorem timeUntilSend_tight_witness:
  "1200 \<le> budget demo_env 1000000 \<lparr> budgetAtLastSent = 0, maxDatagramSize = 1200, lastSentTime = 5 \<rparr> 2000000"
proof -
  let ?p = "\<lparr> budgetAtLastSent = 0, maxDatagramSize = 1200, lastSentTime = 5 \<rparr>"
  have "pacer_inv demo_env 1000000 1000000000000 ?p"
    using demo_env_ok by (simp add: pacer_inv_def demo_env_def)
  moreover have "timeUntilSend demo_env 1000000 ?p = 1200005"
    by (simp add: go_eval demo_env_def)
  ultimately show ?thesis
    using timeUntilSend_tight [of demo_env 1000000 1000000000000 ?p 1200005 2000000] by simp
qed

text \<open>The overflow guard misses an overflow: when the 64-bit product of bandwidth and elapsed
  nanoseconds passes 2^64 it wraps to a value that is not negative, which the guard does not see, and the
  refill is that of the product less 2^64. At 10^9 bytes per second and 18.4 seconds without a packet the
  budget is 0 although the exact refill exceeds a whole burst.\<close>

lemma overflow_guard_misses:
  assumes "quic_env_ok env" and "lastSentTime p \<noteq> 0" and "0 \<le> now - lastSentTime p"
    and "now - lastSentTime p < 2 ^ 63"
    and "2 ^ 64 \<le> bw * (now - lastSentTime p)" and "bw * (now - lastSentTime p) < 2 ^ 64 + 2 ^ 62"
    and "0 \<le> budgetAtLastSent p" and "budgetAtLastSent p < 2 ^ 62"
  shows "budget env bw p now = min (maxBurstSize env bw p)
    (budgetAtLastSent p + (bw * (now - lastSentTime p) - 2 ^ 64) div 1000000000)"
proof -
  define x where "x = bw * (now - lastSentTime p)"
  have "i64 x = x - 2 ^ 64"
  proof -
    have "(x + 2 ^ 63) mod 2 ^ 64 = (x - 2 ^ 64 + 2 ^ 63) mod 2 ^ 64"
      using mod_add_self2 [of "x - 2 ^ 64 + 2 ^ 63" "2 ^ 64 :: int"] by (simp add: algebra_simps)
    also have "\<dots> = x - 2 ^ 64 + 2 ^ 63" using assms(5,6) by (simp add: x_def)
    finally show ?thesis by (simp add: i64_def)
  qed
  moreover have "0 \<le> (x - 2 ^ 64) div 1000000000 \<and> (x - 2 ^ 64) div 1000000000 < 2 ^ 62"
    using assms(5,6) by (intro div_e9_bounds) (simp_all add: x_def)
  moreover have "Sub env now (lastSentTime p) = now - lastSentTime p" "\<not> IsZero env (lastSentTime p)"
    using assms(1-4) by (simp_all add: quic_env_ok_def)
  ultimately show ?thesis using assms(5-8)
    by (simp add: budget_def tdiv_nonneg Let_def flip: x_def)
qed

lemma overflow_guard_misses_witness:
  "budget demo_env 1000000000 \<lparr> budgetAtLastSent = 0, maxDatagramSize = 1200, lastSentTime = 1 \<rparr>
     18446744075 = 0"
  using overflow_guard_misses [OF demo_env_ok, of "\<lparr> budgetAtLastSent = 0, maxDatagramSize = 1200, lastSentTime = 1 \<rparr>"
      18446744075 1000000000]
  by (simp add: maxBurstSize_def demo_env_def tdiv_def)

end
