(* ===== verification/Adapter.thy ===== *)
theory Adapter
  imports Controller Pacer
begin

text \<open>
  The bridge \<^verbatim>\<open>quic-cc-lab/internal/cc/adapter.go\<close> between the sender of quic-go and a controller:
  the lazy initialisation, the floor of the window, the events handed to the controller and the
  pacing queries. The controller is the parameter \<open>m\<close> of Controller.thy, so the adapter is verified
  for every controller; \<open>env\<close> is the library's part of Pacer.thy. \<^verbatim>\<open>monotime.Now()\<close> is an argument
  of the operations that read the clock, and \<open>stats\<close> the current values of the RTT provider.
\<close>

section \<open>State\<close>

record 'c adapter =
  ctrl :: 'c
  has_rtt :: bool
  pacer_st :: pacer
  a_maxDatagramSize :: int
  started :: bool
  startTime :: int

text \<open>\<^verbatim>\<open>rttProvider\<close>: zeros until a provider is set.\<close>

definition rtt_view :: "bool \<Rightarrow> RTT \<Rightarrow> RTT" where
  "rtt_view provided stats =
     \<lparr> Smoothed = (if provided then Smoothed stats else 0), Latest = (if provided then Latest stats else 0),
       Min = (if provided then Min stats else 0),
       MeanDeviation = (if provided then MeanDeviation stats else 0) \<rparr>"

text \<open>The closure given to the pacer.\<close>

definition bandwidth :: "'c controller \<Rightarrow> 'c \<Rightarrow> int" where
  "bandwidth m c = (let r = PacingRate m c in if r \<le> 0 then 0 else r)"

definition newAdapter :: "quic_env \<Rightarrow> 'c \<Rightarrow> 'c adapter" where
  "newAdapter env c = \<lparr> ctrl = c, has_rtt = False,
     pacer_st = newPacer env (InitialPacketSize env),
     a_maxDatagramSize = InitialPacketSize env, started = False, startTime = 0 \<rparr>"

section \<open>Operations\<close>

definition ensureStarted :: "'c controller \<Rightarrow> int \<Rightarrow> 'c adapter \<Rightarrow> 'c adapter" where
  "ensureStarted m now a =
     (if started a then a
      else a\<lparr> started := True, startTime := now, ctrl := OnInit m (a_maxDatagramSize a) (ctrl a) \<rparr>)"

definition SetRTTStatsProvider :: "'c adapter \<Rightarrow> 'c adapter" where
  "SetRTTStatsProvider a = a\<lparr> has_rtt := True \<rparr>"

definition SetMaxDatagramSize :: "'c controller \<Rightarrow> int \<Rightarrow> int \<Rightarrow> 'c adapter \<Rightarrow> 'c adapter" where
  "SetMaxDatagramSize m now n a =
     (let a = a\<lparr> a_maxDatagramSize := n \<rparr>;
          a = a\<lparr> pacer_st := setMaxDatagramSize n (pacer_st a) \<rparr>
      in ensureStarted m now a)"

definition GetCongestionWindow :: "'c controller \<Rightarrow> int \<Rightarrow> 'c adapter \<Rightarrow> int \<times> 'c adapter" where
  "GetCongestionWindow m now a0 =
     (let a = ensureStarted m now a0; w = CongestionWindow m (ctrl a)
      in if w < a_maxDatagramSize a then (a_maxDatagramSize a, a) else (w, a))"

definition CanSend :: "'c controller \<Rightarrow> int \<Rightarrow> int \<Rightarrow> 'c adapter \<Rightarrow> bool \<times> 'c adapter" where
  "CanSend m now bytesInFlight a0 =
     (let a = ensureStarted m now a0; (w, a) = GetCongestionWindow m now a
      in (bytesInFlight < w, a))"

definition OnPacketSent :: "quic_env \<Rightarrow> 'c controller \<Rightarrow> int \<Rightarrow> int \<Rightarrow> int \<Rightarrow> 'c adapter \<Rightarrow> 'c adapter" where
  "OnPacketSent env m now sentTime n a0 =
     (let a = ensureStarted m now a0
      in a\<lparr> pacer_st := sentPacket env (bandwidth m (ctrl a)) (pacer_st a) sentTime n \<rparr>)"

definition OnPacketAcked ::
    "quic_env \<Rightarrow> 'c controller \<Rightarrow> int \<Rightarrow> RTT \<Rightarrow> int \<Rightarrow> int \<Rightarrow> int \<Rightarrow> 'c adapter \<Rightarrow> 'c adapter" where
  "OnPacketAcked env m now stats ackedBytes priorInFlight eventTime a0 =
     (let a = ensureStarted m now a0
      in a\<lparr> ctrl := OnAck m \<lparr> BytesAcked = ackedBytes, AckInFlight = priorInFlight,
              AckRTT = rtt_view (has_rtt a) stats, AckNow = Sub env eventTime (startTime a) \<rparr>
              (ctrl a) \<rparr>)"

text \<open>The clock is read by \<^verbatim>\<open>ensureStarted\<close> (\<open>now\<close>) and again for the event (\<open>now'\<close>).\<close>

definition OnCongestionEvent ::
    "quic_env \<Rightarrow> 'c controller \<Rightarrow> int \<Rightarrow> int \<Rightarrow> RTT \<Rightarrow> int \<Rightarrow> int \<Rightarrow> 'c adapter \<Rightarrow> 'c adapter" where
  "OnCongestionEvent env m now now' stats lostBytes priorInFlight a0 =
     (let a = ensureStarted m now a0
      in if lostBytes = 0 then a
         else a\<lparr> ctrl := OnLoss m \<lparr> BytesLost = lostBytes, LossInFlight = priorInFlight,
              LossRTT = rtt_view (has_rtt a) stats, LossNow = Sub env now' (startTime a) \<rparr>
              (ctrl a) \<rparr>)"

definition OnRetransmissionTimeout :: "'c controller \<Rightarrow> bool \<Rightarrow> 'c adapter \<Rightarrow> 'c adapter" where
  "OnRetransmissionTimeout m retransmitted a =
     (case TimeoutHandler m of
        Some h \<Rightarrow> a\<lparr> ctrl := h retransmitted (ctrl a) \<rparr>
      | None \<Rightarrow> a)"

definition MaybeExitSlowStart :: "'c adapter \<Rightarrow> 'c adapter" where
  "MaybeExitSlowStart a = a"

definition HasPacingBudget :: "quic_env \<Rightarrow> 'c controller \<Rightarrow> int \<Rightarrow> 'c adapter \<Rightarrow> bool" where
  "HasPacingBudget env m now a =
     (if PacingRate m (ctrl a) \<le> 0 then True
      else a_maxDatagramSize a \<le> budget env (bandwidth m (ctrl a)) (pacer_st a) now)"

definition TimeUntilSend :: "quic_env \<Rightarrow> 'c controller \<Rightarrow> 'c adapter \<Rightarrow> int" where
  "TimeUntilSend env m a =
     (if PacingRate m (ctrl a) \<le> 0 then 0
      else timeUntilSend env (bandwidth m (ctrl a)) (pacer_st a))"

definition InSlowStart :: "'c controller \<Rightarrow> 'c adapter \<Rightarrow> bool" where
  "InSlowStart m a = (case StateReporter m of Some (ss, rec) \<Rightarrow> ss (ctrl a) | None \<Rightarrow> False)"

definition InRecovery :: "'c controller \<Rightarrow> 'c adapter \<Rightarrow> bool" where
  "InRecovery m a = (case StateReporter m of Some (ss, rec) \<Rightarrow> rec (ctrl a) | None \<Rightarrow> False)"

lemmas adapter_ops = ensureStarted_def SetRTTStatsProvider_def SetMaxDatagramSize_def
  GetCongestionWindow_def CanSend_def OnPacketSent_def OnPacketAcked_def OnCongestionEvent_def
  OnRetransmissionTimeout_def MaybeExitSlowStart_def

section \<open>Runs\<close>

text \<open>What the sender calls, with the clock values and statistics of the call, and the state it leaves.\<close>

datatype adapter_call =
    CallSetRTT
  | CallSetMaxDatagramSize int int
  | CallCanSend int int
  | CallGetCongestionWindow int
  | CallPacketSent int int int
  | CallPacketAcked int RTT int int int
  | CallCongestionEvent int int RTT int int
  | CallRetransmissionTimeout bool
  | CallMaybeExitSlowStart

fun adapter_step :: "quic_env \<Rightarrow> 'c controller \<Rightarrow> 'c adapter \<Rightarrow> adapter_call \<Rightarrow> 'c adapter" where
  "adapter_step env m a CallSetRTT = SetRTTStatsProvider a"
| "adapter_step env m a (CallSetMaxDatagramSize now n) = SetMaxDatagramSize m now n a"
| "adapter_step env m a (CallCanSend now n) = snd (CanSend m now n a)"
| "adapter_step env m a (CallGetCongestionWindow now) = snd (GetCongestionWindow m now a)"
| "adapter_step env m a (CallPacketSent now t n) = OnPacketSent env m now t n a"
| "adapter_step env m a (CallPacketAcked now stats n prior t) = OnPacketAcked env m now stats n prior t a"
| "adapter_step env m a (CallCongestionEvent now now' stats n prior) =
     OnCongestionEvent env m now now' stats n prior a"
| "adapter_step env m a (CallRetransmissionTimeout b) = OnRetransmissionTimeout m b a"
| "adapter_step env m a CallMaybeExitSlowStart = MaybeExitSlowStart a"

definition adapter_run :: "quic_env \<Rightarrow> 'c controller \<Rightarrow> 'c adapter \<Rightarrow> adapter_call list \<Rightarrow> 'c adapter" where
  "adapter_run env m a calls = foldl (adapter_step env m) a calls"

lemma adapter_run_simps [simp]:
  "adapter_run env m a [] = a"
  "adapter_run env m a (x # xs) = adapter_run env m (adapter_step env m a x) xs"
  by (simp_all add: adapter_run_def)

section \<open>What the controller sees\<close>

text \<open>
  A controller that records the calls it gets. Since the adapter is generic, the state of any
  controller under the adapter is the replay of the recorded calls.
\<close>

datatype controller_call = CInit int | CEvent cc_event

definition logging :: "bool \<Rightarrow> controller_call list controller" where
  "logging handler = \<lparr> OnInit = (\<lambda>n l. l @ [CInit n]), OnAck = (\<lambda>ev l. l @ [CEvent (Ack ev)]),
     OnLoss = (\<lambda>ev l. l @ [CEvent (Loss ev)]), CongestionWindow = (\<lambda>_. 0), PacingRate = (\<lambda>_. 0),
     TimeoutHandler = (if handler then Some (\<lambda>b l. l @ [CEvent (Timeout b)]) else None),
     StateReporter = None \<rparr>"

definition has_handler :: "'c controller \<Rightarrow> bool" where
  "has_handler m \<longleftrightarrow> TimeoutHandler m \<noteq> None"

definition calls_seen :: "quic_env \<Rightarrow> bool \<Rightarrow> adapter_call list \<Rightarrow> controller_call list" where
  "calls_seen env handler calls =
     ctrl (adapter_run env (logging handler) (newAdapter env []) calls)"

definition apply_call :: "'c controller \<Rightarrow> 'c \<Rightarrow> controller_call \<Rightarrow> 'c" where
  "apply_call m c x = (case x of CInit n \<Rightarrow> OnInit m n c | CEvent e \<Rightarrow> cc_step m c e)"

definition replay :: "'c controller \<Rightarrow> 'c \<Rightarrow> controller_call list \<Rightarrow> 'c" where
  "replay m c xs = foldl (apply_call m) c xs"

lemma replay_simps [simp]:
  "replay m c [] = c" "replay m c (x # xs) = replay m (apply_call m c x) xs"
  "replay m c (xs @ [x]) = apply_call m (replay m c xs) x"
  by (simp_all add: replay_def)

lemma replay_events: "replay m c (map CEvent es) = cc_run m c es"
  by (induction es arbitrary: c) (simp_all add: apply_call_def)

lemma replay_append: "replay m c (xs @ ys) = replay m (replay m c xs) ys"
  by (simp add: replay_def)

text \<open>The simulation: equal adapters but for the pacer, and the controller replayed from the log.\<close>

definition simulates :: "'c controller \<Rightarrow> 'c \<Rightarrow> 'c adapter \<Rightarrow> controller_call list adapter \<Rightarrow> bool" where
  "simulates m c a b \<longleftrightarrow> ctrl a = replay m c (ctrl b) \<and> has_rtt a = has_rtt b \<and>
     a_maxDatagramSize a = a_maxDatagramSize b \<and> started a = started b \<and> startTime a = startTime b"

lemma simulates_ensureStarted:
  "simulates m c a b \<Longrightarrow> simulates m c (ensureStarted m now a) (ensureStarted (logging h) now b)"
  by (auto simp: simulates_def ensureStarted_def logging_def apply_call_def)

lemma snd_GetCongestionWindow [simp]: "snd (GetCongestionWindow m now a) = ensureStarted m now a"
  by (simp add: GetCongestionWindow_def Let_def)

lemma ensureStarted_idem [simp]: "ensureStarted m t (ensureStarted m now a) = ensureStarted m now a"
  by (simp add: ensureStarted_def)

lemma snd_CanSend [simp]: "snd (CanSend m now n a) = ensureStarted m now a"
  by (simp add: CanSend_def GetCongestionWindow_def Let_def split: prod.splits)

lemma simulates_step:
  assumes "simulates m c a b"
  shows "simulates m c (adapter_step env m a x) (adapter_step env (logging (has_handler m)) b x)"
proof (cases x)
  case (CallPacketAcked now stats n prior t)
  then show ?thesis using simulates_ensureStarted [OF assms, of now "has_handler m"]
    by (simp add: simulates_def OnPacketAcked_def Let_def apply_call_def cc_step_def)
      (simp add: logging_def apply_call_def cc_step_def)
next
  case (CallCongestionEvent now now' stats n prior)
  then show ?thesis using simulates_ensureStarted [OF assms, of now "has_handler m"]
    by (simp add: simulates_def OnCongestionEvent_def Let_def)
      (simp add: logging_def apply_call_def cc_step_def)
next
  case (CallRetransmissionTimeout lost)
  then show ?thesis using assms
    by (auto simp: simulates_def OnRetransmissionTimeout_def has_handler_def logging_def
        apply_call_def cc_step_def)
next
  case (CallPacketSent now t n)
  then show ?thesis using simulates_ensureStarted [OF assms, of now "has_handler m"]
    by (simp add: simulates_def OnPacketSent_def Let_def)
next
  case (CallSetMaxDatagramSize now n)
  have "simulates m c (a\<lparr> a_maxDatagramSize := n, pacer_st := setMaxDatagramSize n (pacer_st a) \<rparr>)
      (b\<lparr> a_maxDatagramSize := n, pacer_st := setMaxDatagramSize n (pacer_st b) \<rparr>)"
    using assms by (simp add: simulates_def)
  then show ?thesis using CallSetMaxDatagramSize simulates_ensureStarted
    by (fastforce simp: SetMaxDatagramSize_def Let_def)
next
  case CallSetRTT
  then show ?thesis using assms by (simp add: simulates_def SetRTTStatsProvider_def)
next
  case CallMaybeExitSlowStart
  then show ?thesis using assms by (simp add: MaybeExitSlowStart_def)
qed (use simulates_ensureStarted [OF assms] in simp_all)

lemma simulates_run:
  "simulates m c a b \<Longrightarrow>
    simulates m c (adapter_run env m a calls) (adapter_run env (logging (has_handler m)) b calls)"
  by (induction calls arbitrary: a b) (simp_all add: simulates_step)

lemma adapter_replay:
  "ctrl (adapter_run env m (newAdapter env c) calls) = replay m c (calls_seen env (has_handler m) calls) \<and>
   started (adapter_run env m (newAdapter env c) calls) =
     started (adapter_run env (logging (has_handler m)) (newAdapter env []) calls)"
proof -
  have "simulates m c (newAdapter env c) (newAdapter env [])"
    by (simp add: simulates_def newAdapter_def)
  from simulates_run [OF this] show ?thesis by (simp add: simulates_def calls_seen_def)
qed

section \<open>The order of the calls\<close>

fun events_of :: "controller_call list \<Rightarrow> cc_event list" where
  "events_of [] = []"
| "events_of (CInit n # xs) = events_of xs"
| "events_of (CEvent e # xs) = e # events_of xs"

lemma events_of_append [simp]: "events_of (xs @ ys) = events_of xs @ events_of ys"
  by (induction xs rule: events_of.induct) simp_all

lemma events_of_map [simp]: "events_of (map CEvent es) = es"
  by (induction es) simp_all

text \<open>
  The log of an adapter: timeouts only before the start, then one \<open>CInit\<close> with a size that satisfies
  \<open>P\<close>, then events.
\<close>

definition log_shape :: "(int \<Rightarrow> bool) \<Rightarrow> bool \<Rightarrow> controller_call list \<Rightarrow> bool" where
  "log_shape P begun l \<longleftrightarrow> (\<exists>pre. if begun
     then (\<exists>n es. P n \<and> l = map (CEvent \<circ> Timeout) pre @ CInit n # map CEvent es)
     else l = map (CEvent \<circ> Timeout) pre)"

lemma log_shape_init: "P n \<Longrightarrow> log_shape P False l \<Longrightarrow> log_shape P True (l @ [CInit n])"
  unfolding log_shape_def by (simp only: if_True if_False) (metis list.map_disc_iff)

lemma log_shape_event: "log_shape P True l \<Longrightarrow> log_shape P True (l @ [CEvent e])"
proof -
  assume "log_shape P True l"
  then obtain pre n es where l: "P n" "l = map (CEvent \<circ> Timeout) pre @ CInit n # map CEvent es"
    by (auto simp: log_shape_def)
  then have "l @ [CEvent e] = map (CEvent \<circ> Timeout) pre @ CInit n # map CEvent (es @ [e])" by simp
  with l(1) show ?thesis unfolding log_shape_def by (simp only: if_True) blast
qed

lemma log_shape_timeout: "log_shape P b l \<Longrightarrow> log_shape P b (l @ [CEvent (Timeout lost)])"
proof (cases b)
  case False
  assume "log_shape P b l"
  then obtain pre where "l = map (CEvent \<circ> Timeout) pre" using False by (auto simp: log_shape_def)
  then have "l @ [CEvent (Timeout lost)] = map (CEvent \<circ> Timeout) (pre @ [lost])" by simp
  then show ?thesis using False unfolding log_shape_def by (simp only: if_False) blast
qed (simp add: log_shape_event)

definition log_inv :: "(int \<Rightarrow> bool) \<Rightarrow> controller_call list adapter \<Rightarrow> bool" where
  "log_inv P b \<longleftrightarrow> P (a_maxDatagramSize b) \<and> log_shape P (started b) (ctrl b)"

lemma log_inv_ensureStarted:
  "log_inv P b \<Longrightarrow> log_inv P (ensureStarted (logging h) now b) \<and> started (ensureStarted (logging h) now b)"
  using log_shape_init [of P "a_maxDatagramSize b" "ctrl b"]
  by (auto simp: log_inv_def ensureStarted_def logging_def)

fun size_ok :: "(int \<Rightarrow> bool) \<Rightarrow> adapter_call \<Rightarrow> bool" where
  "size_ok P (CallSetMaxDatagramSize now n) \<longleftrightarrow> P n"
| "size_ok P x \<longleftrightarrow> True"

lemma log_inv_step:
  assumes "log_inv P b" and "size_ok P x"
  shows "log_inv P (adapter_step env (logging h) b x)"
proof (cases x)
  case (CallPacketAcked now stats n prior t)
  then show ?thesis using log_inv_ensureStarted [OF assms(1), of h now]
    by (auto simp: OnPacketAcked_def Let_def log_inv_def) (simp add: logging_def log_shape_event)
next
  case (CallCongestionEvent now now' stats n prior)
  then show ?thesis using log_inv_ensureStarted [OF assms(1), of h now]
    by (auto simp: OnCongestionEvent_def Let_def log_inv_def) (simp add: logging_def log_shape_event)
next
  case (CallRetransmissionTimeout lost)
  then show ?thesis using assms(1)
    by (auto simp: OnRetransmissionTimeout_def logging_def log_inv_def log_shape_timeout)
next
  case (CallPacketSent now t n)
  then show ?thesis using log_inv_ensureStarted [OF assms(1), of h now]
    by (auto simp: OnPacketSent_def Let_def log_inv_def)
next
  case (CallSetMaxDatagramSize now n)
  then have "log_inv P (b\<lparr> a_maxDatagramSize := n, pacer_st := setMaxDatagramSize n (pacer_st b) \<rparr>)"
    using assms by (simp add: log_inv_def)
  from log_inv_ensureStarted [OF this, of h now] show ?thesis
    using CallSetMaxDatagramSize by (simp add: SetMaxDatagramSize_def Let_def)
next
  case CallSetRTT
  then show ?thesis using assms by (simp add: log_inv_def SetRTTStatsProvider_def)
next
  case CallMaybeExitSlowStart
  then show ?thesis using assms by (simp add: MaybeExitSlowStart_def)
qed (use log_inv_ensureStarted [OF assms(1)] in simp_all)

lemma log_inv_run:
  "log_inv P b \<Longrightarrow> \<forall>x \<in> set calls. size_ok P x \<Longrightarrow> log_inv P (adapter_run env (logging h) b calls)"
  by (induction calls arbitrary: b) (simp_all add: log_inv_step)

lemma calls_seen_shape:
  assumes "P (InitialPacketSize env)" and "\<forall>x \<in> set calls. size_ok P x"
  shows "log_shape P (started (adapter_run env (logging h) (newAdapter env []) calls))
    (calls_seen env h calls)"
proof -
  have "log_inv P (newAdapter env [])"
    using assms(1) by (simp add: log_inv_def newAdapter_def log_shape_def)
  from log_inv_run [OF this assms(2)] show ?thesis by (simp add: log_inv_def calls_seen_def)
qed

text \<open>Every operation but the setter of the statistics, the timeout and the hint starts the adapter.\<close>

fun starts :: "adapter_call \<Rightarrow> bool" where
  "starts CallSetRTT \<longleftrightarrow> False"
| "starts (CallRetransmissionTimeout b) \<longleftrightarrow> False"
| "starts CallMaybeExitSlowStart \<longleftrightarrow> False"
| "starts x \<longleftrightarrow> True"

lemma started_ensureStarted [simp]: "started (ensureStarted m now a)"
  by (simp add: ensureStarted_def)

lemma started_step: "started (adapter_step env m a x) \<longleftrightarrow> started a \<or> starts x"
  by (cases x) (simp_all add: SetRTTStatsProvider_def SetMaxDatagramSize_def OnPacketSent_def
    OnPacketAcked_def OnCongestionEvent_def OnRetransmissionTimeout_def MaybeExitSlowStart_def
    Let_def split: option.split)

lemma started_run: "started (adapter_run env m a calls) \<longleftrightarrow> started a \<or> list_ex starts calls"
  by (induction calls arbitrary: a) (auto simp: started_step)

lemma started_new [simp]: "\<not> started (newAdapter env c)"
  by (simp add: newAdapter_def)

fun keeps_size :: "adapter_call \<Rightarrow> bool" where
  "keeps_size (CallSetMaxDatagramSize now n) \<longleftrightarrow> False"
| "keeps_size x \<longleftrightarrow> True"

lemma keeps_size_ok: "keeps_size x \<Longrightarrow> size_ok P x"
  by (cases x) simp_all

lemma mds_ensureStarted [simp]: "a_maxDatagramSize (ensureStarted m now a) = a_maxDatagramSize a"
  by (simp add: ensureStarted_def)

lemma mds_step: "keeps_size x \<Longrightarrow> a_maxDatagramSize (adapter_step env m a x) = a_maxDatagramSize a"
  by (cases x) (simp_all add: SetRTTStatsProvider_def OnPacketSent_def OnPacketAcked_def
    OnCongestionEvent_def OnRetransmissionTimeout_def MaybeExitSlowStart_def Let_def split: option.split)

lemma mds_run:
  "\<forall>x \<in> set calls. keeps_size x \<Longrightarrow> a_maxDatagramSize (adapter_run env m a calls) = a_maxDatagramSize a"
  by (induction calls arbitrary: a) (simp_all add: mds_step)

text \<open>The acknowledgements that the controller sees are the acknowledgements that the sender reports.\<close>

fun is_ack_call :: "adapter_call \<Rightarrow> bool" where
  "is_ack_call (CallPacketAcked now stats n prior t) \<longleftrightarrow> True"
| "is_ack_call x \<longleftrightarrow> False"

definition ack_calls :: "adapter_call list \<Rightarrow> int" where
  "ack_calls calls = int (length (filter is_ack_call calls))"

lemma acks_append [simp]: "acks (es @ fs) = acks es + acks fs"
  by (simp add: acks_def)

lemma acks_ensureStarted [simp]:
  "acks (events_of (ctrl (ensureStarted (logging h) now b))) = acks (events_of (ctrl b))"
  by (simp add: ensureStarted_def logging_def)

lemma logging_ops:
  "OnAck (logging h) ev l = l @ [CEvent (Ack ev)]"
  "OnLoss (logging h) lev l = l @ [CEvent (Loss lev)]"
  "TimeoutHandler (logging h) = (if h then Some (\<lambda>b l. l @ [CEvent (Timeout b)]) else None)"
  by (simp_all add: logging_def)

lemma acks_step:
  "acks (events_of (ctrl (adapter_step env (logging h) b x))) =
    acks (events_of (ctrl b)) + (if is_ack_call x then 1 else 0)"
  by (cases x) (simp_all add: SetRTTStatsProvider_def SetMaxDatagramSize_def OnPacketSent_def
    OnPacketAcked_def OnCongestionEvent_def OnRetransmissionTimeout_def MaybeExitSlowStart_def
    Let_def logging_ops)

lemma acks_run:
  "acks (events_of (ctrl (adapter_run env (logging h) b calls))) =
    acks (events_of (ctrl b)) + ack_calls calls"
  by (induction calls arbitrary: b) (simp_all add: acks_step ack_calls_def)

lemma acks_calls_seen: "acks (events_of (calls_seen env h calls)) = ack_calls calls"
  by (simp add: calls_seen_def acks_run newAdapter_def)

section \<open>Controllers under the adapter\<close>

context window_controller begin

lemma fresh_replay: "fresh c \<Longrightarrow> fresh (replay m c (map (CEvent \<circ> Timeout) pre))"
proof (induction pre arbitrary: c)
  case (Cons b pre)
  then have "fresh (apply_call m c (CEvent (Timeout b)))"
    by (auto simp: apply_call_def cc_step_def fresh_timeout split: option.split)
  then show ?case using Cons.IH by simp
qed simp

lemma adapter_window:
  assumes "fresh c" and "s = InitialPacketSize env" and "0 < s" and "s \<le> 65536"
    and "\<forall>x \<in> set calls. keeps_size x" and "list_ex starts calls"
    and "\<forall>e \<in> set (events_of (calls_seen env (has_handler m) calls)). sane_event s e"
    and "(start + ack_calls calls + 1) * s < 2 ^ 62"
  shows "s \<le> CongestionWindow m (ctrl (adapter_run env m (newAdapter env c) calls)) \<and>
    CongestionWindow m (ctrl (adapter_run env m (newAdapter env c) calls)) \<le> (start + ack_calls calls) * s"
proof -
  let ?log = "calls_seen env (has_handler m) calls"
  have "log_shape (\<lambda>n. n = s) True ?log"
    using calls_seen_shape [of "\<lambda>n. n = s" env calls "has_handler m"] assms(2,5,6)
    by (simp add: keeps_size_ok started_run)
  then obtain pre es where log: "?log = map (CEvent \<circ> Timeout) pre @ CInit s # map CEvent es"
    by (auto simp: log_shape_def)
  have ev: "events_of ?log = map Timeout pre @ es"
    by (simp add: log flip: map_map)
  have "acks (map Timeout pre) = 0" by (induction pre) simp_all
  then have acks: "acks es = ack_calls calls" using acks_calls_seen [of env "has_handler m" calls] ev by simp
  have "ctrl (adapter_run env m (newAdapter env c) calls) =
      cc_run m (OnInit m s (replay m c (map (CEvent \<circ> Timeout) pre))) es"
    by (simp add: adapter_replay log replay_append replay_events apply_call_def)
  then show ?thesis
    using run_window [OF fresh_replay [OF assms(1)] assms(3,4), of es pre] assms(7,8) acks ev
    by auto
qed

end

section \<open>Properties\<close>

definition resizes :: "adapter_call list \<Rightarrow> int list" where
  "resizes calls = concat (map (\<lambda>x. case x of CallSetMaxDatagramSize now n \<Rightarrow> [n] | _ \<Rightarrow> []) calls)"

lemma size_ok_resizes: "x \<in> set calls \<Longrightarrow> size_ok (\<lambda>n. n = s \<or> n \<in> set (resizes calls)) x"
  by (cases x) (force simp: resizes_def)+

text \<open>C7: the order of the callbacks: for every controller and every sequence of calls of the sender,
  the controller's state is the replay of a log in which \<open>OnInit\<close> occurs exactly once if a call that
  starts the adapter was made and not at all before, with the initial packet size or a size that the
  sender set; every acknowledgement and loss comes after it, and only timeouts can come before it.\<close>

theorem adapter_initialises_once:
  "\<exists>log. ctrl (adapter_run env m (newAdapter env c) calls) = replay m c log \<and>
     log_shape (\<lambda>n. n = InitialPacketSize env \<or> n \<in> set (resizes calls)) (list_ex starts calls) log \<and>
     acks (events_of log) = ack_calls calls"
proof -
  let ?log = "calls_seen env (has_handler m) calls"
  have "log_shape (\<lambda>n. n = InitialPacketSize env \<or> n \<in> set (resizes calls)) (list_ex starts calls) ?log"
    using calls_seen_shape [of "\<lambda>n. n = InitialPacketSize env \<or> n \<in> set (resizes calls)" env calls]
    by (simp add: size_ok_resizes started_run)
  then show ?thesis
    using adapter_replay [of env m c calls] acks_calls_seen [of env "has_handler m" calls] by blast
qed

text \<open>A retransmission timeout before the first other call reaches the controller before
  \<open>OnInit\<close>, whatever the controller: it is the one callback of the adapter that does not start it.\<close>

lemma timeout_precedes_init:
  assumes "TimeoutHandler m = Some h"
  shows "ctrl (adapter_run env m (newAdapter env c) [CallRetransmissionTimeout b, CallGetCongestionWindow now]) =
    OnInit m (InitialPacketSize env) (h b c)"
  using assms
  by (simp add: OnRetransmissionTimeout_def newAdapter_def ensureStarted_def)

lemma timeout_precedes_init_witness:
  "ctrl (adapter_run demo_env (logging True) (newAdapter demo_env [])
     [CallRetransmissionTimeout True, CallGetCongestionWindow 7]) = [CEvent (Timeout True), CInit 1280]"
proof -
  have "TimeoutHandler (logging True) = Some (\<lambda>b l. l @ [CEvent (Timeout b)])"
    by (simp add: logging_ops)
  from timeout_precedes_init [OF this, of demo_env "[]" True 7] show ?thesis
    by (simp add: logging_def demo_env_def)
qed

text \<open>The floor of the window prevents a deadlock: with a positive packet size the window is at
  least one packet for every controller, whatever it answers, so an idle connection can always send;
  and a controller that asks for more gets exactly what it asks for.\<close>

lemma idle_connection_can_send:
  assumes "0 < a_maxDatagramSize a"
  shows "fst (CanSend m now 0 a) \<and>
    fst (GetCongestionWindow m now a) =
      max (a_maxDatagramSize a) (CongestionWindow m (ctrl (ensureStarted m now a)))"
  using assms
  by (simp add: CanSend_def GetCongestionWindow_def Let_def ensureStarted_def split: prod.splits)

lemma idle_connection_can_send_witness:
  "fst (GetCongestionWindow (logging True) 7 (newAdapter demo_env [])) = 1280"
  using idle_connection_can_send [of "newAdapter demo_env []" "logging True" 7]
  by (simp add: newAdapter_def demo_env_def) (simp add: logging_def)

end
