(* ===== verification/Reno.thy ===== *)
theory Reno
  imports Controller
begin

text \<open>
  The reference controller \<^verbatim>\<open>quic-cc-lab/internal/cc/reno.go\<close>: its state, its methods on wrapped
  64-bit integers, its interpretation of the controller contract, and the theorems on growth, on the
  loss epoch and on the pacing rate. The exact window arithmetic (without wrap-around) is the
  specification that the wrapped methods refine on sane connections.
\<close>

section \<open>State and methods\<close>

record reno =
  mds :: int
  cwnd :: int
  ssthresh :: int
  acked :: int
  recoveryEnd :: int
  inRecovery :: bool
  srtt :: int

text \<open>The factory's \<^verbatim>\<open>&reno{}\<close>.\<close>

definition new_reno :: reno where
  "new_reno = \<lparr> mds = 0, cwnd = 0, ssthresh = 0, acked = 0, recoveryEnd = 0, inRecovery = False,
     srtt = 0 \<rparr>"

definition infiniteSSThresh :: int where
  "infiniteSSThresh = 2 ^ 40"

definition reno_OnInit :: "int \<Rightarrow> reno \<Rightarrow> reno" where
  "reno_OnInit maxDatagramSize r = r\<lparr> mds := maxDatagramSize,
     cwnd := i64 (10 * maxDatagramSize), ssthresh := infiniteSSThresh \<rparr>"

definition reno_OnAck :: "AckEvent \<Rightarrow> reno \<Rightarrow> reno" where
  "reno_OnAck ev r0 =
     (let r = r0\<lparr> srtt := Smoothed (AckRTT ev) \<rparr>;
          r = (if inRecovery r \<and> recoveryEnd r \<le> AckNow ev then r\<lparr> inRecovery := False \<rparr> else r)
      in if cwnd r < ssthresh r then r\<lparr> cwnd := i64 (cwnd r + BytesAcked ev) \<rparr>
         else
           (let r = r\<lparr> acked := i64 (acked r + BytesAcked ev) \<rparr>
            in if cwnd r \<le> acked r then
                 (let r = r\<lparr> acked := i64 (acked r - cwnd r) \<rparr>
                  in r\<lparr> cwnd := i64 (cwnd r + mds r) \<rparr>)
               else r))"

text \<open>The halving that \<^verbatim>\<open>OnLoss\<close> and \<^verbatim>\<open>OnRetransmissionTimeout\<close> share: at least two packets.\<close>

definition halved :: "reno \<Rightarrow> int" where
  "halved r = (let h = tdiv (cwnd r) 2; least = i64 (2 * mds r) in if h < least then least else h)"

definition reno_OnLoss :: "LossEvent \<Rightarrow> reno \<Rightarrow> reno" where
  "reno_OnLoss ev r =
     (if LossNow ev < recoveryEnd r then r
      else
        (let r = r\<lparr> ssthresh := halved r \<rparr>;
             r = r\<lparr> cwnd := ssthresh r \<rparr>;
             r = r\<lparr> acked := 0 \<rparr>;
             r = r\<lparr> inRecovery := True \<rparr>;
             epoch = Smoothed (LossRTT ev);
             epoch = (if epoch \<le> 0 then 100000000 else epoch)
         in r\<lparr> recoveryEnd := i64 (LossNow ev + epoch) \<rparr>))"

definition reno_OnRetransmissionTimeout :: "bool \<Rightarrow> reno \<Rightarrow> reno" where
  "reno_OnRetransmissionTimeout packetsLost r =
     (if \<not> packetsLost then r
      else
        (let r = r\<lparr> ssthresh := halved r \<rparr>;
             r = r\<lparr> cwnd := mds r \<rparr>
         in r\<lparr> acked := 0 \<rparr>))"

definition reno_InSlowStart :: "reno \<Rightarrow> bool" where
  "reno_InSlowStart r \<longleftrightarrow> cwnd r < ssthresh r"

definition reno_InRecovery :: "reno \<Rightarrow> bool" where
  "reno_InRecovery r \<longleftrightarrow> inRecovery r"

definition reno_CongestionWindow :: "reno \<Rightarrow> int" where
  "reno_CongestionWindow r = cwnd r"

definition reno_PacingRate :: "reno \<Rightarrow> int" where
  "reno_PacingRate r =
     (if srtt r \<le> 0 then 0
      else (let num = i64 (cwnd r * 1000000000);
                rate = tdiv num (srtt r)
            in if reno_InSlowStart r then i64 (2 * rate) else tdiv (i64 (rate * 5)) 4))"

definition reno_controller :: "reno controller" where
  "reno_controller = \<lparr> OnInit = reno_OnInit, OnAck = reno_OnAck, OnLoss = reno_OnLoss,
     CongestionWindow = reno_CongestionWindow, PacingRate = reno_PacingRate,
     TimeoutHandler = Some reno_OnRetransmissionTimeout,
     StateReporter = Some (reno_InSlowStart, reno_InRecovery) \<rparr>"

lemmas reno_methods = reno_OnInit_def reno_OnAck_def reno_OnLoss_def
  reno_OnRetransmissionTimeout_def reno_CongestionWindow_def

lemma reno_controller_simps [simp]:
  "OnInit reno_controller = reno_OnInit" "OnAck reno_controller = reno_OnAck"
  "OnLoss reno_controller = reno_OnLoss"
  "CongestionWindow reno_controller = reno_CongestionWindow"
  "PacingRate reno_controller = reno_PacingRate"
  "TimeoutHandler reno_controller = Some reno_OnRetransmissionTimeout"
  "StateReporter reno_controller = Some (reno_InSlowStart, reno_InRecovery)"
  by (simp_all add: reno_controller_def)

section \<open>The contract\<close>

text \<open>
  \<open>reno_inv s b r\<close>: packets of \<open>s\<close> bytes, a window of at least one packet and at most \<open>b\<close>, a
  threshold of at least two packets, and less than a window of credit towards the next increase,
  none in slow start.
\<close>

definition reno_inv :: "int \<Rightarrow> int \<Rightarrow> reno \<Rightarrow> bool" where
  "reno_inv s b r \<longleftrightarrow> 0 < s \<and> mds r = s \<and> s \<le> cwnd r \<and> cwnd r \<le> b \<and> 2 * s \<le> b \<and> b < 2 ^ 62 \<and>
     2 * s \<le> ssthresh r \<and> 0 \<le> acked r \<and> acked r < cwnd r \<and>
     (cwnd r < ssthresh r \<longrightarrow> acked r = 0)"

lemma halved_exact: "reno_inv s b r \<Longrightarrow> halved r = max (2 * s) (cwnd r div 2)"
  by (auto simp: halved_def reno_inv_def tdiv_nonneg Let_def)

lemma reno_OnAck_exact:
  assumes "reno_inv s b r" and "0 \<le> BytesAcked ev" and "BytesAcked ev \<le> s" and "b + s < 2 ^ 62"
  shows "reno_OnAck ev r = r\<lparr> srtt := Smoothed (AckRTT ev),
      inRecovery := inRecovery r \<and> AckNow ev < recoveryEnd r,
      cwnd := (if cwnd r < ssthresh r then cwnd r + BytesAcked ev
               else if cwnd r \<le> acked r + BytesAcked ev then cwnd r + s else cwnd r),
      acked := (if cwnd r < ssthresh r then acked r
                else if cwnd r \<le> acked r + BytesAcked ev then acked r + BytesAcked ev - cwnd r
                else acked r + BytesAcked ev) \<rparr>"
  using assms by (auto simp: reno_OnAck_def reno_inv_def Let_def)

lemma reno_OnLoss_exact:
  assumes "reno_inv s b r" and "sane_event s (Loss ev)"
  shows "reno_OnLoss ev r = (if LossNow ev < recoveryEnd r then r
    else r\<lparr> ssthresh := max (2 * s) (cwnd r div 2), cwnd := max (2 * s) (cwnd r div 2), acked := 0,
      inRecovery := True,
      recoveryEnd := LossNow ev +
        (if Smoothed (LossRTT ev) \<le> 0 then 100000000 else Smoothed (LossRTT ev)) \<rparr>)"
  using assms by (auto simp: reno_OnLoss_def halved_exact sane_time_def Let_def)

lemma reno_Timeout_exact:
  assumes "reno_inv s b r"
  shows "reno_OnRetransmissionTimeout lost r = (if \<not> lost then r
    else r\<lparr> ssthresh := max (2 * s) (cwnd r div 2), cwnd := s, acked := 0 \<rparr>)"
  using halved_exact [OF assms] assms
  by (simp add: reno_OnRetransmissionTimeout_def reno_inv_def Let_def)

lemmas reno_exact = reno_OnAck_exact reno_OnLoss_exact reno_Timeout_exact

definition reno_fresh :: "reno \<Rightarrow> bool" where
  "reno_fresh r \<longleftrightarrow> acked r = 0"

interpretation reno: window_controller reno_controller reno_inv reno_fresh 10
proof (unfold_locales, goal_cases)
  case (1 c s)
  then show ?case
    by (simp add: reno_OnInit_def reno_inv_def reno_fresh_def infiniteSSThresh_def)
next
  case (2 c h lost)
  then show ?case by (auto simp: reno_fresh_def reno_OnRetransmissionTimeout_def Let_def)
next
  case (3 s b c e)
  show ?case
  proof (cases e)
    case (Ack ev)
    then show ?thesis using 3
      by (simp add: cc_step_def reno_OnAck_exact [of s b]) (auto simp: reno_inv_def)
  next
    case (Loss ev)
    then show ?thesis using 3
      by (simp add: cc_step_def reno_OnLoss_exact [of s b]) (auto simp: reno_inv_def)
  next
    case (Timeout lost)
    then show ?thesis using 3
      by (simp add: cc_step_def reno_Timeout_exact [of s b]) (auto simp: reno_inv_def)
  qed
next
  case (4 s b c)
  then show ?case by (simp add: reno_inv_def reno_CongestionWindow_def)
qed

interpretation reno_epoch: epoch_controller reno_controller recoveryEnd
proof (unfold_locales, goal_cases)
  case (1 ev c)
  then show ?case by (simp add: reno_OnLoss_def)
next
  case (2 ack c)
  then show ?case by (simp add: reno_OnAck_def Let_def)
qed

section \<open>Growth\<close>

definition acked_bytes :: "AckEvent list \<Rightarrow> int" where
  "acked_bytes evs = sum_list (map BytesAcked evs)"

lemma acked_bytes_simps [simp]:
  "acked_bytes [] = 0" "acked_bytes (ev # evs) = BytesAcked ev + acked_bytes evs"
  by (simp_all add: acked_bytes_def)

lemma acks_map_Ack [simp]: "acks (map Ack evs) = int (length evs)"
  by (induction evs) simp_all

lemma reno_ack_inv:
  "reno_inv s b r \<Longrightarrow> sane_event s (Ack ev) \<Longrightarrow> b + s < 2 ^ 62 \<Longrightarrow> reno_inv s (b + s) (reno_OnAck ev r)"
  using reno.step [of s b r "Ack ev"] by (simp add: cc_step_def)

lemma run_budget:
  assumes "0 < s" and "b + int (length (ev # evs)) * s < 2 ^ 62"
  shows "b + s < 2 ^ 62 \<and> b + s + int (length evs) * s < 2 ^ 62"
proof -
  have "0 \<le> int (length evs) * s" using assms(1) by simp
  moreover have "b + s + int (length evs) * s < 2 ^ 62" using assms(2) by (simp add: algebra_simps)
  ultimately show ?thesis by linarith
qed

lemma acked_bytes_nonneg: "\<forall>ev \<in> set evs. sane_event s (Ack ev) \<Longrightarrow> 0 \<le> acked_bytes evs"
  by (induction evs) auto

lemma reno_slow_start_run:
  assumes "reno_inv s b r" and "\<forall>ev \<in> set evs. sane_event s (Ack ev)"
    and "b + int (length evs) * s < 2 ^ 62" and "cwnd r + acked_bytes evs < ssthresh r"
  shows "cwnd (cc_run reno_controller r (map Ack evs)) = cwnd r + acked_bytes evs"
  using assms
proof (induction evs arbitrary: b r)
  case (Cons ev evs)
  have "0 < s" using Cons.prems(1) by (simp add: reno_inv_def)
  note b = run_budget [OF this Cons.prems(3)]
  have "0 \<le> acked_bytes evs" using Cons.prems(2) acked_bytes_nonneg [of evs s] by simp
  then have ss: "cwnd r < ssthresh r" using Cons.prems(2,4) by simp
  let ?r = "reno_OnAck ev r"
  have step: "cwnd ?r = cwnd r + BytesAcked ev" "ssthresh ?r = ssthresh r"
    using Cons.prems b ss by (simp_all add: reno_OnAck_exact [of s b])
  have "reno_inv s (b + s) ?r" using Cons.prems b by (simp add: reno_ack_inv)
  then have "cwnd (cc_run reno_controller ?r (map Ack evs)) = cwnd ?r + acked_bytes evs"
    using Cons.IH [of "b + s" ?r] Cons.prems(2,4) b step by simp
  then show ?case using step by (simp add: cc_step_def)
qed simp

lemma reno_avoidance_run:
  assumes "reno_inv s b r" and "\<forall>ev \<in> set evs. sane_event s (Ack ev)"
    and "b + int (length evs) * s < 2 ^ 62" and "ssthresh r \<le> cwnd r"
  defines "r' \<equiv> cc_run reno_controller r (map Ack evs)"
  shows "\<exists>k. 0 \<le> k \<and> cwnd r' = cwnd r + k * s \<and> 0 \<le> acked r' \<and> acked r' < cwnd r' \<and>
    2 * acked r' + 2 * k * cwnd r + s * k * (k - 1) = 2 * (acked r + acked_bytes evs)"
  using assms(1-4) unfolding r'_def
proof (induction evs arbitrary: b r)
  case Nil
  then show ?case by (intro exI [of _ 0]) (simp add: reno_inv_def)
next
  case (Cons ev evs)
  have "0 < s" using Cons.prems(1) by (simp add: reno_inv_def)
  note b = run_budget [OF this Cons.prems(3)]
  let ?r = "reno_OnAck ev r" and ?fin = "cc_run reno_controller (reno_OnAck ev r) (map Ack evs)"
  have step: "cwnd ?r = (if cwnd r \<le> acked r + BytesAcked ev then cwnd r + s else cwnd r)"
    "acked ?r = (if cwnd r \<le> acked r + BytesAcked ev then acked r + BytesAcked ev - cwnd r
      else acked r + BytesAcked ev)" "ssthresh ?r = ssthresh r"
    using Cons.prems b by (simp_all add: reno_OnAck_exact [of s b])
  have "reno_inv s (b + s) ?r" using Cons.prems b by (simp add: reno_ack_inv)
  moreover have "ssthresh ?r \<le> cwnd ?r" using Cons.prems(4) \<open>0 < s\<close> by (simp add: step)
  ultimately obtain k where k: "0 \<le> k" "cwnd ?fin = cwnd ?r + k * s" "0 \<le> acked ?fin"
      "acked ?fin < cwnd ?fin"
      "2 * acked ?fin + 2 * k * cwnd ?r + s * k * (k - 1) = 2 * (acked ?r + acked_bytes evs)"
    using Cons.IH [of "b + s" ?r] Cons.prems(2) b by (auto simp del: cc_run_simps)
  show ?case
  proof (cases "cwnd r \<le> acked r + BytesAcked ev")
    case True
    then have "cwnd ?fin = cwnd r + (k + 1) * s"
      "2 * acked ?fin + 2 * (k + 1) * cwnd r + s * (k + 1) * ((k + 1) - 1) =
        2 * (acked r + acked_bytes (ev # evs))"
      using k(2,5) by (simp_all add: step algebra_simps)
    then show ?thesis using k by (intro exI [of _ "k + 1"]) (simp add: cc_step_def)
  next
    case False
    then show ?thesis using k by (intro exI [of _ k]) (simp add: cc_step_def step)
  qed
qed

section \<open>Properties\<close>

text \<open>C3: the window of a Reno connection: after initialisation with packets of \<open>s\<close> bytes and any
  sequence of sane acknowledgements, losses and timeouts, the window is at least one packet and at
  most \<open>10 + n\<close> packets, where \<open>n\<close> counts the acknowledgements; in particular no 64-bit operation of
  the methods wraps.\<close>

theorem reno_window_bounds:
  assumes "0 < s" and "s \<le> 65536" and "\<forall>e \<in> set es. sane_event s e"
    and "(10 + acks es + 1) * s < 2 ^ 62"
  shows "s \<le> reno_CongestionWindow (cc_run reno_controller (reno_OnInit s new_reno) es) \<and>
    reno_CongestionWindow (cc_run reno_controller (reno_OnInit s new_reno) es) \<le> (10 + acks es) * s"
  using reno.run_window [of new_reno s es] assms by (simp add: reno_fresh_def new_reno_def)

definition demo_rtt :: RTT where
  "demo_rtt = \<lparr> Smoothed = 50000000, Latest = 50000000, Min = 40000000, MeanDeviation = 0 \<rparr>"

definition demo_ack :: "int \<Rightarrow> int \<Rightarrow> AckEvent" where
  "demo_ack n t = \<lparr> BytesAcked = n, AckInFlight = 0, AckRTT = demo_rtt, AckNow = t \<rparr>"

definition demo_loss :: "int \<Rightarrow> LossEvent" where
  "demo_loss t = \<lparr> BytesLost = 1200, LossInFlight = 0, LossRTT = demo_rtt, LossNow = t \<rparr>"

lemmas demo_events = demo_rtt_def demo_ack_def demo_loss_def sane_time_def

theorem reno_window_bounds_witness:
  "1200 \<le> reno_CongestionWindow (cc_run reno_controller (reno_OnInit 1200 new_reno)
      [Ack (demo_ack 1200 7), Loss (demo_loss 9), Timeout True])"
  using reno_window_bounds [of 1200 "[Ack (demo_ack 1200 7), Loss (demo_loss 9), Timeout True]"]
  by (simp add: demo_events)

text \<open>C11: at most one halving per epoch: a loss after the current epoch sets the window and the
  threshold to half the window, at least two packets, and opens an epoch of one smoothed RTT (100 ms
  before the first sample); every further loss reported before its end is ignored, so that the events
  up to then have the same effect as their acknowledgements alone.\<close>

theorem reno_one_reduction_per_epoch:
  assumes "reno_inv s b r" and "sane_event s (Loss ev)" and "recoveryEnd r \<le> LossNow ev"
    and "r' = reno_OnLoss ev r"
    and "\<forall>e \<in> set es. before_end (recoveryEnd r') e"
  shows "cwnd r' = max (2 * s) (cwnd r div 2) \<and> ssthresh r' = cwnd r' \<and>
    recoveryEnd r' = LossNow ev +
      (if Smoothed (LossRTT ev) \<le> 0 then 100000000 else Smoothed (LossRTT ev)) \<and>
    cc_run reno_controller r' es = cc_run reno_controller r' (filter is_ack es)"
proof -
  have "cc_run reno_controller r' es = cc_run reno_controller r' (filter is_ack es)"
    using assms(5) by (rule reno_epoch.run_within_epoch)
  then show ?thesis using assms(1-4) by (simp add: reno_OnLoss_exact [of s b])
qed

theorem reno_one_reduction_per_epoch_witness:
  "cwnd (cc_run reno_controller (reno_OnInit 1200 new_reno)
      [Loss (demo_loss 9), Loss (demo_loss 10), Loss (demo_loss 50000008)]) = 6000"
proof -
  let ?r = "reno_OnInit 1200 new_reno"
  have "reno_inv 1200 12000 ?r"
    by (simp add: reno_inv_def reno_OnInit_def new_reno_def infiniteSSThresh_def)
  moreover have "recoveryEnd ?r \<le> LossNow (demo_loss 9)"
    by (simp add: reno_OnInit_def new_reno_def demo_events)
  moreover have "sane_event 1200 (Loss (demo_loss 9))" by (simp add: demo_events)
  moreover have "\<forall>e \<in> set [Loss (demo_loss 10), Loss (demo_loss 50000008)].
      before_end (recoveryEnd (reno_OnLoss (demo_loss 9) ?r)) e"
    by (simp add: reno_OnLoss_def reno_OnInit_def new_reno_def demo_events Let_def)
  ultimately show ?thesis
    using reno_one_reduction_per_epoch [of 1200 12000 ?r "demo_loss 9", OF _ _ _ refl,
        of "[Loss (demo_loss 10), Loss (demo_loss 50000008)]"]
    by (simp add: cc_step_def) (simp add: reno_OnInit_def new_reno_def)
qed

text \<open>Slow start is exponential: while the window stays below the threshold it grows by every
  byte that is acknowledged, so a full window of acknowledgements doubles it.\<close>

lemma reno_slow_start_doubles:
  assumes "reno_inv s b r" and "\<forall>ev \<in> set evs. sane_event s (Ack ev)"
    and "b + int (length evs) * s < 2 ^ 62"
    and "acked_bytes evs = cwnd r" and "2 * cwnd r < ssthresh r"
  shows "cwnd (cc_run reno_controller r (map Ack evs)) = 2 * cwnd r"
  using reno_slow_start_run [of s b r evs] assms by simp

lemma reno_slow_start_doubles_witness:
  "cwnd (cc_run reno_controller (reno_OnInit 1000 new_reno)
     (map Ack (replicate 10 (demo_ack 1000 7)))) = 20000"
proof -
  have "reno_inv 1000 10000 (reno_OnInit 1000 new_reno)"
    by (simp add: reno_inv_def reno_OnInit_def new_reno_def infiniteSSThresh_def)
  moreover have "acked_bytes (replicate 10 (demo_ack 1000 7)) = 10000"
    by (simp add: acked_bytes_def demo_ack_def sum_list_replicate)
  ultimately show ?thesis
    using reno_slow_start_doubles [of 1000 10000 "reno_OnInit 1000 new_reno"
        "replicate 10 (demo_ack 1000 7)"]
    by (simp add: reno_OnInit_def new_reno_def infiniteSSThresh_def demo_events)
qed

text \<open>C25: congestion avoidance is additive: over any acknowledgements the window grows by a whole
  number \<open>k\<close> of packets, and the bytes acknowledged, with the credit held before, are exactly the
  \<open>k\<close> successive windows that were filled plus the credit held after, which is less than a window.
  So each packet of growth is paid for with one full window of acknowledged bytes.\<close>

theorem reno_avoidance_additive:
  assumes "reno_inv s b r" and "\<forall>ev \<in> set evs. sane_event s (Ack ev)"
    and "b + int (length evs) * s < 2 ^ 62" and "ssthresh r \<le> cwnd r"
    and "r' = cc_run reno_controller r (map Ack evs)"
  shows "\<exists>k. 0 \<le> k \<and> cwnd r' = cwnd r + k * s \<and> 0 \<le> acked r' \<and> acked r' < cwnd r' \<and>
    2 * acked r' + 2 * k * cwnd r + s * k * (k - 1) = 2 * (acked r + acked_bytes evs)"
  using reno_avoidance_run [of s b r evs] assms by simp

theorem reno_avoidance_additive_witness:
  "\<exists>k. 0 \<le> k \<and> cwnd (cc_run reno_controller (reno_OnLoss (demo_loss 9) (reno_OnInit 1000 new_reno))
      (map Ack [demo_ack 1000 10])) = 5000 + k * 1000"
proof -
  let ?r = "reno_OnLoss (demo_loss 9) (reno_OnInit 1000 new_reno)"
  have r: "cwnd ?r = 5000" "ssthresh ?r = 5000" "mds ?r = 1000" "acked ?r = 0"
    by (simp_all add: reno_OnLoss_def reno_OnInit_def new_reno_def demo_events halved_def tdiv_def Let_def)
  then have "reno_inv 1000 10000 ?r" by (simp add: reno_inv_def)
  then show ?thesis
    using reno_avoidance_additive [of 1000 10000 ?r "[demo_ack 1000 10]", OF _ _ _ _ refl] r
    by (auto simp: demo_events simp del: cc_run_simps)
qed

text \<open>C32: the pacing rate is cwnd/SRTT times 2 in slow start and times 5/4 in congestion avoidance, up
  to the rounding of the two integer divisions (less than 2 bytes per second in both), as long as
  \<open>cwnd * 10^9\<close> stays below 2^60; without an RTT sample it is 0.\<close>

theorem reno_pacing_rate_accurate:
  assumes "0 \<le> cwnd r" and "cwnd r * 1000000000 < 2 ^ 60"
  shows "if srtt r \<le> 0 then reno_PacingRate r = 0
    else if reno_InSlowStart r
    then 2 * (cwnd r * 1000000000) - 2 * srtt r < reno_PacingRate r * srtt r \<and>
         reno_PacingRate r * srtt r \<le> 2 * (cwnd r * 1000000000)
    else 5 * (cwnd r * 1000000000) - 8 * srtt r < 4 * (reno_PacingRate r * srtt r) \<and>
         4 * (reno_PacingRate r * srtt r) \<le> 5 * (cwnd r * 1000000000)"
proof (cases "srtt r \<le> 0")
  case True
  then show ?thesis by (simp add: reno_PacingRate_def)
next
  case False
  define t n q where "t = srtt r" and "n = cwnd r * 1000000000" and "q = n div t"
  have t: "0 < t" and n: "0 \<le> n" "n < 2 ^ 60" using False assms by (simp_all add: t_def n_def)
  have q: "0 \<le> q" "q * t \<le> n" "n < q * t + t"
    using t n(1) by (simp_all add: q_def pos_imp_zdiv_nonneg_iff)
      (use div_mult_mod_eq [of n t] pos_mod_sign [of t n] pos_mod_bound [of t n] in linarith)+
  have "q * 1 \<le> q * t" using q(1) t by (intro mult_left_mono) simp_all
  then have qs: "q < 2 ^ 60" using q(2) n(2) by linarith
  have rate: "tdiv (i64 n) t = q" using t n by (simp add: tdiv_nonneg q_def)
  show ?thesis
  proof (cases "reno_InSlowStart r")
    case True
    have "reno_PacingRate r = 2 * q"
      using False True rate qs q(1) by (simp add: reno_PacingRate_def n_def t_def Let_def)
    then have "reno_PacingRate r * t = 2 * (q * t)" by simp
    then have "2 * n - 2 * t < reno_PacingRate r * t \<and> reno_PacingRate r * t \<le> 2 * n"
      using q by linarith
    then show ?thesis using False True by (simp add: t_def n_def)
  next
    case avoid: False
    have p: "reno_PacingRate r = (q * 5) div 4"
      using False avoid rate qs q(1) by (simp add: reno_PacingRate_def n_def t_def Let_def tdiv_nonneg)
    let ?p = "(q * 5) div 4"
    have "4 * ?p \<le> q * 5" "q * 5 \<le> 4 * ?p + 3" by linarith+
    then have "4 * ?p * t \<le> q * 5 * t" "q * 5 * t \<le> (4 * ?p + 3) * t"
      using t by (simp_all add: mult_right_mono)
    then have "4 * (?p * t) \<le> 5 * (q * t)" "5 * (q * t) \<le> 4 * (?p * t) + 3 * t"
      by (simp_all add: algebra_simps)
    then have "5 * n - 8 * t < 4 * (?p * t) \<and> 4 * (?p * t) \<le> 5 * n"
      using q by linarith
    then show ?thesis using False avoid p by (simp add: t_def n_def)
  qed
qed

theorem reno_pacing_rate_accurate_witness:
  "reno_PacingRate (new_reno\<lparr> cwnd := 12000, ssthresh := 6000, srtt := 50000000 \<rparr>) * 200000000 \<le> 60000000000000"
  using reno_pacing_rate_accurate [of "new_reno\<lparr> cwnd := 12000, ssthresh := 6000, srtt := 50000000 \<rparr>"]
  by (simp add: reno_InSlowStart_def)

text \<open>A loss reported after a timeout, outside an epoch, undoes the collapse: the timeout sets the
  window to one packet and leaves slow start ahead, but it opens no epoch, so the next loss (also one
  of the same flight) sets both the window and the threshold to two packets. The window grows on a
  loss, and the connection is in congestion avoidance instead of slow start.\<close>

lemma reno_loss_after_timeout:
  assumes "reno_inv s b r" and "recoveryEnd r \<le> LossNow ev" and "sane_event s (Loss ev)"
    and "r1 = reno_OnRetransmissionTimeout True r" and "r2 = reno_OnLoss ev r1"
  shows "cwnd r1 = s \<and> reno_InSlowStart r1 \<and> cwnd r2 = 2 * s \<and> ssthresh r2 = 2 * s \<and>
    \<not> reno_InSlowStart r2"
proof -
  have r1: "r1 = r\<lparr> ssthresh := max (2 * s) (cwnd r div 2), cwnd := s, acked := 0 \<rparr>"
    using assms(1,4) by (simp add: reno_Timeout_exact [of s b])
  then have "reno_inv s b r1" using assms(1) by (simp add: reno_inv_def)
  moreover have "0 < s" using assms(1) by (simp add: reno_inv_def)
  moreover have "s div 2 \<le> 2 * s" using \<open>0 < s\<close> by linarith
  ultimately show ?thesis
    using assms(2,3,5) by (simp add: reno_OnLoss_exact [of s b] reno_InSlowStart_def r1)
qed

lemma reno_loss_after_timeout_witness:
  "cwnd (reno_OnLoss (demo_loss 9) (reno_OnRetransmissionTimeout True (reno_OnInit 1200 new_reno))) = 2400"
proof -
  have "reno_inv 1200 12000 (reno_OnInit 1200 new_reno)"
    by (simp add: reno_inv_def reno_OnInit_def new_reno_def infiniteSSThresh_def)
  then show ?thesis
    using reno_loss_after_timeout [of 1200 12000 "reno_OnInit 1200 new_reno" "demo_loss 9", OF _ _ _ refl refl]
    by (simp add: reno_OnInit_def new_reno_def demo_events)
qed

end
