(* ===== verification/Student.thy ===== *)
theory Student
  imports Controller
begin

text \<open>
  The baseline controller \<^verbatim>\<open>quic-cc-lab/internal/cc/student.go\<close>: additive increase from the start,
  one halving per epoch, no pacing and none of the optional interfaces. It meets the same two
  contracts as Reno.
\<close>

section \<open>State and methods\<close>

record student =
  st_mds :: int
  st_cwnd :: int
  st_acked :: int
  st_recoveryEnd :: int

definition new_student :: student where
  "new_student = \<lparr> st_mds = 0, st_cwnd = 0, st_acked = 0, st_recoveryEnd = 0 \<rparr>"

definition student_OnInit :: "int \<Rightarrow> student \<Rightarrow> student" where
  "student_OnInit maxDatagramSize s =
     s\<lparr> st_mds := maxDatagramSize, st_cwnd := i64 (4 * maxDatagramSize) \<rparr>"

definition student_OnAck :: "AckEvent \<Rightarrow> student \<Rightarrow> student" where
  "student_OnAck ev s0 =
     (let s = s0\<lparr> st_acked := i64 (st_acked s0 + BytesAcked ev) \<rparr>
      in if st_cwnd s \<le> st_acked s then
           (let s = s\<lparr> st_acked := i64 (st_acked s - st_cwnd s) \<rparr>
            in s\<lparr> st_cwnd := i64 (st_cwnd s + st_mds s) \<rparr>)
         else s)"

definition student_OnLoss :: "LossEvent \<Rightarrow> student \<Rightarrow> student" where
  "student_OnLoss ev s =
     (if LossNow ev < st_recoveryEnd s then s
      else
        (let s = s\<lparr> st_cwnd := tdiv (st_cwnd s) 2 \<rparr>;
             s = (if st_cwnd s < i64 (2 * st_mds s) then s\<lparr> st_cwnd := i64 (2 * st_mds s) \<rparr> else s);
             s = s\<lparr> st_acked := 0 \<rparr>;
             epoch = Smoothed (LossRTT ev);
             epoch = (if epoch \<le> 0 then 100000000 else epoch)
         in s\<lparr> st_recoveryEnd := i64 (LossNow ev + epoch) \<rparr>))"

definition student_CongestionWindow :: "student \<Rightarrow> int" where
  "student_CongestionWindow s = st_cwnd s"

definition student_PacingRate :: "student \<Rightarrow> int" where
  "student_PacingRate s = 0"

definition student_controller :: "student controller" where
  "student_controller = \<lparr> OnInit = student_OnInit, OnAck = student_OnAck, OnLoss = student_OnLoss,
     CongestionWindow = student_CongestionWindow, PacingRate = student_PacingRate,
     TimeoutHandler = None, StateReporter = None \<rparr>"

lemma student_controller_simps [simp]:
  "OnInit student_controller = student_OnInit" "OnAck student_controller = student_OnAck"
  "OnLoss student_controller = student_OnLoss"
  "CongestionWindow student_controller = student_CongestionWindow"
  "PacingRate student_controller = student_PacingRate"
  "TimeoutHandler student_controller = None" "StateReporter student_controller = None"
  by (simp_all add: student_controller_def)

section \<open>The contracts\<close>

text \<open>The baseline keeps at least two packets, and less than a window of credit.\<close>

definition student_inv :: "int \<Rightarrow> int \<Rightarrow> student \<Rightarrow> bool" where
  "student_inv s b r \<longleftrightarrow> 0 < s \<and> st_mds r = s \<and> 2 * s \<le> st_cwnd r \<and> st_cwnd r \<le> b \<and> b < 2 ^ 62 \<and>
     0 \<le> st_acked r \<and> st_acked r < st_cwnd r"

lemma student_OnAck_exact:
  assumes "student_inv s b r" and "0 \<le> BytesAcked ev" and "BytesAcked ev \<le> s" and "b + s < 2 ^ 62"
  shows "student_OnAck ev r = r\<lparr>
      st_cwnd := (if st_cwnd r \<le> st_acked r + BytesAcked ev then st_cwnd r + s else st_cwnd r),
      st_acked := (if st_cwnd r \<le> st_acked r + BytesAcked ev
        then st_acked r + BytesAcked ev - st_cwnd r else st_acked r + BytesAcked ev) \<rparr>"
  using assms by (auto simp: student_OnAck_def student_inv_def Let_def)

lemma student_OnLoss_exact:
  assumes "student_inv s b r" and "sane_event s (Loss ev)"
  shows "student_OnLoss ev r = (if LossNow ev < st_recoveryEnd r then r
    else r\<lparr> st_cwnd := max (2 * s) (st_cwnd r div 2), st_acked := 0,
      st_recoveryEnd := LossNow ev +
        (if Smoothed (LossRTT ev) \<le> 0 then 100000000 else Smoothed (LossRTT ev)) \<rparr>)"
  using assms by (auto simp: student_OnLoss_def student_inv_def sane_time_def tdiv_nonneg Let_def)

definition student_fresh :: "student \<Rightarrow> bool" where
  "student_fresh r \<longleftrightarrow> st_acked r = 0"

interpretation student: window_controller student_controller student_inv student_fresh 4
proof (unfold_locales, goal_cases)
  case (1 c s)
  then show ?case by (simp add: student_OnInit_def student_inv_def student_fresh_def)
next
  case (2 c h lost)
  then show ?case by simp
next
  case (3 s b c e)
  show ?case
  proof (cases e)
    case (Ack ev)
    then show ?thesis using 3
      by (simp add: cc_step_def student_OnAck_exact [of s b]) (auto simp: student_inv_def)
  next
    case (Loss ev)
    then show ?thesis using 3
      by (simp add: cc_step_def student_OnLoss_exact [of s b]) (auto simp: student_inv_def)
  next
    case (Timeout lost)
    then show ?thesis using 3 by (simp add: cc_step_def)
  qed
next
  case (4 s b c)
  then show ?case by (simp add: student_inv_def student_CongestionWindow_def)
qed

interpretation student_epoch: epoch_controller student_controller st_recoveryEnd
proof (unfold_locales, goal_cases)
  case (1 ev c)
  then show ?case by (simp add: student_OnLoss_def)
next
  case (2 ack c)
  then show ?case by (simp add: student_OnAck_def Let_def)
qed

section \<open>Properties\<close>

text \<open>The baseline on a sane connection: its window stays between one packet and \<open>4 + n\<close> packets
  after \<open>n\<close> acknowledgements, and it never asks for pacing.\<close>

lemma student_window_bounds:
  assumes "0 < s" and "s \<le> 65536" and "\<forall>e \<in> set es. sane_event s e"
    and "(4 + acks es + 1) * s < 2 ^ 62"
    and "c = cc_run student_controller (student_OnInit s new_student) es"
  shows "s \<le> student_CongestionWindow c \<and> student_CongestionWindow c \<le> (4 + acks es) * s \<and>
    student_PacingRate c = 0"
  using student.run_window [of new_student s es] assms
  by (simp add: student_fresh_def new_student_def student_PacingRate_def)

lemma student_window_bounds_witness:
  "student_CongestionWindow (cc_run student_controller (student_OnInit 1200 new_student) [Timeout True]) \<le> 4800"
  using student_window_bounds [of 1200 "[Timeout True]"] by simp

text \<open>The baseline also halves at most once per epoch: after a loss that opens an epoch the window
  is half of what it was, at least two packets, and up to the end of the epoch the further events
  have the effect of their acknowledgements alone.\<close>

lemma student_one_reduction_per_epoch:
  assumes "student_inv s b r" and "sane_event s (Loss ev)" and "st_recoveryEnd r \<le> LossNow ev"
    and "r' = student_OnLoss ev r"
    and "\<forall>e \<in> set es. before_end (st_recoveryEnd r') e"
  shows "st_cwnd r' = max (2 * s) (st_cwnd r div 2) \<and>
    cc_run student_controller r' es = cc_run student_controller r' (filter is_ack es)"
proof -
  have "cc_run student_controller r' es = cc_run student_controller r' (filter is_ack es)"
    using assms(5) by (rule student_epoch.run_within_epoch)
  then show ?thesis using assms(1-4) by (simp add: student_OnLoss_exact [of s b])
qed

lemma student_one_reduction_per_epoch_witness:
  "st_cwnd (student_OnLoss
     \<lparr> BytesLost = 1, LossInFlight = 0,
       LossRTT = \<lparr> Smoothed = 7, Latest = 7, Min = 7, MeanDeviation = 0 \<rparr>, LossNow = 3 \<rparr>
     (student_OnInit 1200 new_student)) = 2400"
proof -
  have "student_inv 1200 4800 (student_OnInit 1200 new_student)"
    by (simp add: student_inv_def student_OnInit_def new_student_def)
  then show ?thesis
    using student_one_reduction_per_epoch [of 1200 4800 "student_OnInit 1200 new_student" _ _ "[]",
        OF _ _ _ refl]
    by (simp add: student_OnInit_def new_student_def sane_time_def)
qed

end
