(* ===== verification/Registry.thy ===== *)
theory Registry
  imports Adapter Reno Student "HOL-Library.List_Lexorder" "HOL-Library.Char_ord" "HOL-Library.Multiset"
begin

text \<open>
  The registry of \<^verbatim>\<open>quic-cc-lab/internal/cc/registry.go\<close>: the map from a name to a factory, the
  sorted list of names, the construction of an adapter and its installation on a connection. The map
  is an association list with distinct keys, whose order stands for Go's unspecified iteration
  order. The two \<^verbatim>\<open>init\<close> functions of the package register Reno and the student's controller; \<open>both\<close>
  dispatches on the dynamic type of the controller that a factory makes.
\<close>

section \<open>Operations\<close>

type_synonym 'c registry = "(string \<times> 'c) list"

datatype registry_panic = DuplicateRegistration string

text \<open>A factory is represented by the fresh controller that it returns.\<close>

definition Register :: "string \<Rightarrow> 'c \<Rightarrow> 'c registry \<Rightarrow> registry_panic + 'c registry" where
  "Register name f registry =
     (if map_of registry name \<noteq> None then Inl (DuplicateRegistration name)
      else Inr (registry @ [(name, f)]))"

definition Names :: "'c registry \<Rightarrow> string list" where
  "Names registry = sort (map fst registry)"

datatype new_error = UnknownAlgorithm string "string list"

definition New :: "quic_env \<Rightarrow> 'c registry \<Rightarrow> string \<Rightarrow> new_error + 'c adapter" where
  "New env registry name = (case map_of registry name of
       None \<Rightarrow> Inl (UnknownAlgorithm name (Names registry))
     | Some f \<Rightarrow> Inr (newAdapter env f))"

text \<open>\<open>setCC\<close> is the method \<^verbatim>\<open>SetCongestionControl\<close> of the library's connection.\<close>

definition Apply ::
    "quic_env \<Rightarrow> ('c adapter \<Rightarrow> 'conn \<Rightarrow> 'conn) \<Rightarrow> 'c registry \<Rightarrow> 'conn \<Rightarrow> string \<Rightarrow> new_error option \<times> 'conn" where
  "Apply env setCC registry conn name = (case New env registry name of
       Inl err \<Rightarrow> (Some err, conn)
     | Inr cc \<Rightarrow> (None, setCC cc conn))"

fun register_all :: "(string \<times> 'c) list \<Rightarrow> 'c registry \<Rightarrow> registry_panic + 'c registry" where
  "register_all [] registry = Inr registry"
| "register_all ((name, f) # xs) registry = (case Register name f registry of
       Inl p \<Rightarrow> Inl p
     | Inr registry' \<Rightarrow> register_all xs registry')"

section \<open>The registered controllers\<close>

datatype instance_state = RenoState reno | StudentState student

text \<open>The \<^verbatim>\<open>init\<close> functions of \<^verbatim>\<open>reno.go\<close> and \<^verbatim>\<open>student.go\<close>, in the order of the file names.\<close>

definition package_init :: "registry_panic + instance_state registry" where
  "package_init = register_all [(''reno'', RenoState new_reno), (''student'', StudentState new_student)] []"

definition dispatch :: "(reno \<Rightarrow> 'a) \<Rightarrow> (student \<Rightarrow> 'a) \<Rightarrow> instance_state \<Rightarrow> 'a" where
  "dispatch f g c = (case c of RenoState r \<Rightarrow> f r | StudentState s \<Rightarrow> g s)"

lemma dispatch_simps [simp]:
  "dispatch f g (RenoState r) = f r" "dispatch f g (StudentState s) = g s"
  by (simp_all add: dispatch_def)

text \<open>The student's controller has no optional interface: the adapter ignores its timeouts.\<close>

definition both :: "instance_state controller" where
  "both = \<lparr> OnInit = (\<lambda>n. dispatch (\<lambda>r. RenoState (reno_OnInit n r)) (\<lambda>s. StudentState (student_OnInit n s))),
     OnAck = (\<lambda>ev. dispatch (\<lambda>r. RenoState (reno_OnAck ev r)) (\<lambda>s. StudentState (student_OnAck ev s))),
     OnLoss = (\<lambda>ev. dispatch (\<lambda>r. RenoState (reno_OnLoss ev r)) (\<lambda>s. StudentState (student_OnLoss ev s))),
     CongestionWindow = dispatch reno_CongestionWindow student_CongestionWindow,
     PacingRate = dispatch reno_PacingRate student_PacingRate,
     TimeoutHandler = Some (\<lambda>b. dispatch (\<lambda>r. RenoState (reno_OnRetransmissionTimeout b r)) StudentState),
     StateReporter = Some (dispatch reno_InSlowStart (\<lambda>_. False), dispatch reno_InRecovery (\<lambda>_. False)) \<rparr>"

definition both_inv :: "int \<Rightarrow> int \<Rightarrow> instance_state \<Rightarrow> bool" where
  "both_inv s b = dispatch (reno_inv s b) (student_inv s b)"

definition both_fresh :: "instance_state \<Rightarrow> bool" where
  "both_fresh = dispatch reno_fresh student_fresh"

lemma both_simps [simp]:
  "OnInit both n (RenoState r) = RenoState (OnInit reno_controller n r)"
  "OnInit both n (StudentState s) = StudentState (OnInit student_controller n s)"
  "CongestionWindow both (RenoState r) = CongestionWindow reno_controller r"
  "CongestionWindow both (StudentState s) = CongestionWindow student_controller s"
  "both_inv sz b (RenoState r) = reno_inv sz b r" "both_inv sz b (StudentState s) = student_inv sz b s"
  "both_fresh (RenoState r) = reno_fresh r" "both_fresh (StudentState s) = student_fresh s"
  "TimeoutHandler both = Some (\<lambda>b. dispatch (\<lambda>r. RenoState (reno_OnRetransmissionTimeout b r)) StudentState)"
  by (simp_all add: both_def both_inv_def both_fresh_def)

lemma both_step [simp]:
  "cc_step both (RenoState r) e = RenoState (cc_step reno_controller r e)"
  "cc_step both (StudentState s) e = StudentState (cc_step student_controller s e)"
  by (cases e; simp add: cc_step_def both_def)+

lemma student_inv_mono: "student_inv s b c \<Longrightarrow> b \<le> b' \<Longrightarrow> b' < 2 ^ 62 \<Longrightarrow> student_inv s b' c"
  by (auto simp: student_inv_def)

interpretation both: window_controller both both_inv both_fresh 10
proof (unfold_locales, goal_cases)
  case (1 c s)
  then show ?case
  proof (cases c)
    case (StudentState r)
    then have "student_inv s (4 * s) (OnInit student_controller s r)"
      using 1 by (intro student.init) simp_all
    then show ?thesis using StudentState 1 by (auto intro: student_inv_mono)
  next
    case (RenoState r)
    have "reno_inv s (10 * s) (OnInit reno_controller s r)"
      using 1 RenoState by (intro reno.init) simp_all
    then show ?thesis using RenoState by simp
  qed
next
  case (2 c h lost)
  then show ?case
    using reno.fresh_timeout by (cases c) (auto simp: reno_controller_def)
next
  case (3 s b c e)
  then show ?case by (cases c) (simp_all add: reno.step student.step)
next
  case (4 s b c)
  then show ?case by (cases c) (simp_all add: reno.window student.window del: reno_controller_simps student_controller_simps)
qed

section \<open>Properties\<close>

lemma register_all_Inr:
  "distinct (map fst reg) \<Longrightarrow>
    register_all xs reg = Inr reg' \<longleftrightarrow> reg' = reg @ xs \<and> distinct (map fst (reg @ xs))"
proof (induction xs arbitrary: reg)
  case (Cons x xs)
  obtain name f where x: "x = (name, f)" by (cases x)
  show ?case
  proof (cases "name \<in> fst ` set reg")
    case True
    then have "map_of reg name \<noteq> None" by (simp add: map_of_eq_None_iff)
    then show ?thesis using True by (auto simp: x Register_def)
  next
    case False
    then have "map_of reg name = None" by (simp add: map_of_eq_None_iff)
    then show ?thesis using False Cons.IH [of "reg @ [(name, f)]"] Cons.prems
      by (simp add: x Register_def)
  qed
qed auto

text \<open>Registering two controllers under one name panics and nothing else does: a sequence of
  registrations succeeds exactly when its names are distinct, and then every name yields an adapter
  around its own factory's controller and every other name an error that lists the registered names.\<close>

lemma registration_outcome:
  "(if distinct (map fst xs)
    then \<exists>reg. register_all xs [] = Inr reg \<and>
      New env reg name = (case map_of xs name of
          Some f \<Rightarrow> Inr (newAdapter env f)
        | None \<Rightarrow> Inl (UnknownAlgorithm name (sort (map fst xs))))
    else \<exists>dup. register_all xs [] = Inl (DuplicateRegistration dup))"
proof (cases "distinct (map fst xs)")
  case True
  then have "register_all xs [] = Inr xs" by (simp add: register_all_Inr)
  then show ?thesis using True by (simp add: New_def Names_def split: option.split)
next
  case False
  then have "register_all xs [] \<noteq> Inr reg" for reg by (simp add: register_all_Inr)
  then show ?thesis using False
    by (cases "register_all xs []") (auto intro: registry_panic.exhaust)
qed

text \<open>The map's iteration order does not show: registering the same entries in any other order
  gives the same strictly sorted list of names and the same result of \<open>New\<close> for every name.\<close>

lemma names_canonical:
  assumes "register_all xs [] = Inr reg" and "mset ys = mset xs"
  shows "\<exists>reg'. register_all ys [] = Inr reg' \<and> Names reg' = Names reg \<and>
    sorted_wrt (<) (Names reg) \<and> set (Names reg) = fst ` set xs \<and> New env reg' name = New env reg name"
proof -
  have reg: "reg = xs" "distinct (map fst xs)" using assms(1) by (simp_all add: register_all_Inr)
  have keys: "mset (map fst ys) = mset (map fst xs)" using assms(2) by simp
  then have ys: "distinct (map fst ys)" using reg(2) by (metis mset_eq_imp_distinct_iff)
  have names: "Names ys = Names xs" using keys by (simp add: Names_def properties_for_sort)
  have "set ys = set xs" using assms(2) by (metis set_mset_mset)
  then have "map_of ys = map_of xs" using reg(2) ys by (simp add: map_of_inject_set)
  then have "New env ys name = New env xs name" by (simp add: New_def names split: option.split)
  moreover have "sorted_wrt (<) (Names xs)"
    using reg(2) by (simp add: Names_def strict_sorted_iff)
  moreover have "register_all ys [] = Inr ys" using ys by (simp add: register_all_Inr)
  ultimately show ?thesis using names by (simp add: reg(1)) (simp add: Names_def)
qed

lemma names_canonical_witness:
  "\<exists>reg. register_all [(''student'', 1 :: int), (''reno'', 0)] [] = Inr reg \<and>
     Names reg = [''reno'', ''student'']"
proof -
  have reg: "register_all [(''reno'', 0 :: int), (''student'', 1)] [] = Inr [(''reno'', 0), (''student'', 1)]"
    by (simp add: Register_def)
  have "Names [(''reno'', 0 :: int), (''student'', 1)] = [''reno'', ''student'']" by code_simp
  then show ?thesis
    using names_canonical [OF reg, of "[(''student'', 1), (''reno'', 0)]" demo_env "''reno''"] by auto
qed

lemma has_handler_both [simp]: "has_handler both"
  by (simp add: has_handler_def)

lemma package_init_eq:
  "package_init = Inr [(''reno'', RenoState new_reno), (''student'', StudentState new_student)]"
  by (simp add: package_init_def Register_def)

lemma new_fresh: "both_fresh (RenoState new_reno) \<and> both_fresh (StudentState new_student)"
  by (simp add: reno_fresh_def student_fresh_def new_reno_def new_student_def)

lemma registered_fresh:
  assumes "package_init = Inr registry" and "New env registry name = Inr a"
  shows "\<exists>c. a = newAdapter env c \<and> both_fresh c"
proof -
  from assms obtain c where c: "map_of registry name = Some c" "a = newAdapter env c"
    by (auto simp: New_def split: option.splits)
  from map_of_SomeD [OF c(1)] have "both_fresh c"
    using assms(1) new_fresh by (auto simp: package_init_eq)
  then show ?thesis using c(2) by blast
qed

text \<open>C6: every registered algorithm is safe on the wire: for each name that the package registers,
  the adapter that \<open>New\<close> builds keeps, over every sequence of calls of the sender (with sane packet
  sizes, times and a fixed packet size \<open>s\<close>), a window that it reports of at least one packet and
  at most ten packets plus one for each acknowledgement.\<close>

theorem registered_connection_window:
  assumes "package_init = Inr registry" and "New env registry name = Inr a"
    and "s = InitialPacketSize env" and "0 < s" and "s \<le> 65536"
    and "\<forall>x \<in> set calls. keeps_size x" and "list_ex starts calls"
    and "\<forall>e \<in> set (events_of (calls_seen env True calls)). sane_event s e"
    and "(10 + ack_calls calls + 1) * s < 2 ^ 62"
  shows "s \<le> fst (GetCongestionWindow both now (adapter_run env both a calls)) \<and>
    fst (GetCongestionWindow both now (adapter_run env both a calls)) \<le> (10 + ack_calls calls) * s"
proof -
  obtain c where a: "a = newAdapter env c" "both_fresh c"
    using registered_fresh assms(1,2) by blast
  let ?a = "adapter_run env both a calls"
  have "s \<le> CongestionWindow both (ctrl ?a) \<and> CongestionWindow both (ctrl ?a) \<le> (10 + ack_calls calls) * s"
    using both.adapter_window [OF a(2) assms(3-7)] assms(8,9) by (simp add: a(1))
  moreover have "a_maxDatagramSize ?a = s"
    using assms(3,6) by (simp add: mds_run a(1)) (simp add: newAdapter_def)
  moreover have "ensureStarted both now ?a = ?a"
    using assms(7) by (simp add: ensureStarted_def started_run)
  ultimately show ?thesis by (simp add: GetCongestionWindow_def Let_def)
qed

definition demo_calls :: "adapter_call list" where
  "demo_calls = [CallRetransmissionTimeout True, CallCanSend 5 0, CallPacketSent 5 6 1280,
     CallPacketAcked 7 demo_rtt 1280 1280 9, CallCongestionEvent 11 12 demo_rtt 1280 1280]"

theorem registered_connection_window_witness:
  "1280 \<le> fst (GetCongestionWindow both 20
     (adapter_run demo_env both (newAdapter demo_env (StudentState new_student)) demo_calls))"
proof -
  have "calls_seen demo_env True demo_calls = [CEvent (Timeout True), CInit 1280,
      CEvent (Ack \<lparr> BytesAcked = 1280, AckInFlight = 1280, AckRTT = \<lparr> Smoothed = 0, Latest = 0, Min = 0, MeanDeviation = 0 \<rparr>, AckNow = 4 \<rparr>),
      CEvent (Loss \<lparr> BytesLost = 1280, LossInFlight = 1280, LossRTT = \<lparr> Smoothed = 0, Latest = 0, Min = 0, MeanDeviation = 0 \<rparr>, LossNow = 7 \<rparr>)]"
    by code_simp
  moreover have "New demo_env [(''reno'', RenoState new_reno), (''student'', StudentState new_student)] ''student'' =
      Inr (newAdapter demo_env (StudentState new_student))"
    by (simp add: New_def)
  ultimately show ?thesis
    using registered_connection_window [OF package_init_eq, of demo_env "''student''" _ 1280 demo_calls 20]
    by (simp add: demo_calls_def ack_calls_def sane_time_def) (simp add: demo_env_def)
qed

end
