(* ===== verification/Bench.thy ===== *)
theory Bench
  imports Complex_Main Tunnel Registry
begin

text \<open>
  The measurement harness \<^verbatim>\<open>quic-cc-lab/cmd/bench/main.go\<close>: the server that installs a controller on
  each connection and streams a fixed pattern, and the client that reads for a while, samples the goodput
  and reports it. Times are nanoseconds of one clock. Go's \<^verbatim>\<open>float64\<close> values are exact fractions here: the
  statements are about the computation, not about its rounding, and a division by an elapsed time of 0
  is 0 instead of a NaN. The library's connections and streams are parameters.
\<close>

section \<open>Commands\<close>

record flags =
  f_mode :: string
  f_listen :: string
  f_server :: string
  f_cc :: string
  f_duration :: int
  f_warmup :: int
  f_json :: bool

datatype command = RunServer string string | RunClient string string int int bool | BadMode

definition bench_main :: "flags \<Rightarrow> command" where
  "bench_main f =
     (if f_mode f = ''server'' then RunServer (f_listen f) (f_cc f)
      else if f_mode f = ''client'' then RunClient (f_server f) (f_cc f) (f_duration f) (f_warmup f) (f_json f)
      else BadMode)"

section \<open>The server\<close>

datatype server_exit = ListenFailed tunnel_error | ApplyFailed new_error

text \<open>
  The results of \<^verbatim>\<open>Accept\<close>, \<open>None\<close> for an error, one after the other. The result: the connections that are
  served, with their controller installed, and how the server ended, \<open>None\<close> if it still accepts.
\<close>

fun accept_conns ::
    "quic_env \<Rightarrow> ('c adapter \<Rightarrow> 'conn \<Rightarrow> 'conn) \<Rightarrow> 'c registry \<Rightarrow> string \<Rightarrow> 'conn option list \<Rightarrow>
      'conn list \<times> server_exit option" where
  "accept_conns env setCC registry name [] = ([], None)"
| "accept_conns env setCC registry name (None # accepts) = accept_conns env setCC registry name accepts"
| "accept_conns env setCC registry name (Some conn # accepts) =
     (case Apply env setCC registry conn name of
        (Some err, _) \<Rightarrow> ([], Some (ApplyFailed err))
      | (None, conn) \<Rightarrow>
          (let (served, exit) = accept_conns env setCC registry name accepts in (conn # served, exit)))"

definition runServer ::
    "('priv, 'pub) x509_lib \<Rightarrow> (string \<Rightarrow> 'priv tls_config \<Rightarrow> quic_config \<Rightarrow> 'l option) \<Rightarrow> 'priv option \<Rightarrow> int \<Rightarrow>
      ('l \<Rightarrow> 'conn option list) \<Rightarrow> quic_env \<Rightarrow> ('c adapter \<Rightarrow> 'conn \<Rightarrow> 'conn) \<Rightarrow> 'c registry \<Rightarrow>
      string \<Rightarrow> string \<Rightarrow> 'conn list \<times> server_exit option" where
  "runServer lib ListenAddr key now Accept env setCC registry listen name =
     (case Listen lib ListenAddr key now listen of
        Inl err \<Rightarrow> ([], Some (ListenFailed err))
      | Inr l \<Rightarrow> accept_conns env setCC registry name (Accept l))"

text \<open>The goroutine of a connection serves the streams that it accepts until an error.\<close>

fun accept_streams :: "'stream option list \<Rightarrow> 'stream list" where
  "accept_streams (Some s # rest) = s # accept_streams rest"
| "accept_streams _ = []"

definition write_chunk :: nat where
  "write_chunk = push_bit 10 128"

definition pattern :: "byte list" where
  "pattern = map word_of_nat [0..<write_chunk]"

text \<open>
  The results of the writes to a stream: \<open>None\<close> for a whole one, \<open>Some k\<close> for one that fails after \<open>k\<close>
  bytes. The result is what the stream was given.
\<close>

fun write_loop :: "byte list \<Rightarrow> nat option list \<Rightarrow> byte list" where
  "write_loop buf [] = []"
| "write_loop buf (None # writes) = buf @ write_loop buf writes"
| "write_loop buf (Some k # writes) = take k buf"

definition serveStream :: "bool \<Rightarrow> nat option list \<Rightarrow> byte list" where
  "serveStream triggered writes = (if triggered then write_loop pattern writes else [])"

section \<open>The client\<close>

record interval =
  T :: rat
  Mbps :: rat

record report =
  CC :: string
  DurationS :: rat
  WarmupS :: rat
  Bytes :: int
  GoodputMbps :: rat
  SteadyGoodputMbps :: rat
  Intervals :: "interval list"

definition Seconds :: "int \<Rightarrow> rat" where
  "Seconds d = of_int d / 1000000000"

definition Millisecond :: int where
  "Millisecond = 1000000"

text \<open>The variables of the measuring loop.\<close>

record sampler =
  total :: int
  intervals :: "interval list"
  nextSample :: int
  lastBytes :: int
  lastT :: int

definition new_sampler :: "int \<Rightarrow> sampler" where
  "new_sampler start = \<lparr> total = 0, intervals = [], nextSample = start + 500 * Millisecond,
     lastBytes = 0, lastT = start \<rparr>"

text \<open>A read: the bytes that it returned, the time after it, and whether it returned an error.\<close>

type_synonym read_result = "int \<times> int \<times> bool"

definition read_step :: "int \<Rightarrow> sampler \<Rightarrow> read_result \<Rightarrow> sampler" where
  "read_step start s r =
     (let (n, now, err) = r; s = s\<lparr> total := total s + n \<rparr> in
      if nextSample s < now \<or> err then
        (let dt = Seconds (now - lastT s);
             iv = \<lparr> T = Seconds (now - start), Mbps = of_int (total s - lastBytes s) * 8 / 1000000 / dt \<rparr>;
             s = (if 0 < dt then s\<lparr> intervals := intervals s @ [iv] \<rparr> else s)
         in s\<lparr> lastBytes := total s, lastT := now, nextSample := now + 500 * Millisecond \<rparr>)
      else s)"

text \<open>The loop ends with the first read that returns an error; \<open>None\<close>: there was none yet.\<close>

fun read_loop :: "int \<Rightarrow> sampler \<Rightarrow> read_result list \<Rightarrow> sampler option" where
  "read_loop start s [] = None"
| "read_loop start s ((n, now, err) # rs) =
     (if err then Some (read_step start s (n, now, err))
      else read_loop start (read_step start s (n, now, err)) rs)"

fun steady_loop :: "rat \<Rightarrow> interval list \<Rightarrow> rat \<Rightarrow> nat \<Rightarrow> rat \<times> nat" where
  "steady_loop warmupS [] acc n = (acc, n)"
| "steady_loop warmupS (iv # ivs) acc n =
     (if T iv < warmupS then steady_loop warmupS ivs acc n
      else steady_loop warmupS ivs (acc + Mbps iv) (Suc n))"

definition steadyGoodput :: "interval list \<Rightarrow> rat \<Rightarrow> rat" where
  "steadyGoodput ivs warmupS =
     (let (acc, n) = steady_loop warmupS ivs 0 0 in if n = 0 then 0 else acc / of_nat n)"

definition make_report :: "string \<Rightarrow> int \<Rightarrow> int \<Rightarrow> sampler \<Rightarrow> report" where
  "make_report name warmup elapsed s = \<lparr> CC = name, DurationS = Seconds elapsed, WarmupS = Seconds warmup,
     Bytes = total s, GoodputMbps = of_int (total s) * 8 / 1000000 / Seconds elapsed,
     SteadyGoodputMbps = steadyGoodput (intervals s) (Seconds warmup), Intervals = intervals s \<rparr>"

datatype client_exit = DialError tunnel_error | ApplyError new_error | OpenStreamError | TriggerError

text \<open>
  \<open>OpenStreamSync\<close> gives a stream or fails; \<open>Trigger\<close>: whether the write of the one byte succeeds;
  \<open>Reads\<close>: what the reads of the stream will return once its deadline is set; \<open>start\<close> and \<open>fin\<close>: the clock before
  the loop and after it. \<open>None\<close>: the client still reads.
\<close>

record ('conn, 'stream) bench_io =
  OpenStreamSync :: "'conn \<Rightarrow> 'stream option"
  Trigger :: "'stream \<Rightarrow> bool"
  Reads :: "'stream \<Rightarrow> int \<Rightarrow> read_result list"

definition runClient ::
    "(string \<Rightarrow> 'priv tls_config \<Rightarrow> quic_config \<Rightarrow> 'conn option) \<Rightarrow> ('conn, 'stream) bench_io \<Rightarrow> quic_env \<Rightarrow> ('c adapter \<Rightarrow> 'conn \<Rightarrow> 'conn) \<Rightarrow> 'c registry \<Rightarrow>
      string \<Rightarrow> string \<Rightarrow> int \<Rightarrow> int \<Rightarrow> int \<Rightarrow> int \<Rightarrow> (client_exit + report) option" where
  "runClient DialAddr io env setCC registry server name duration warmup start fin = (case Dial DialAddr server of
       Inl err \<Rightarrow> Some (Inl (DialError err))
     | Inr conn \<Rightarrow>
         (case Apply env setCC registry conn name of
            (Some err, _) \<Rightarrow> Some (Inl (ApplyError err))
          | (None, conn) \<Rightarrow>
              (case OpenStreamSync io conn of
                 None \<Rightarrow> Some (Inl OpenStreamError)
               | Some stream \<Rightarrow>
                   if \<not> Trigger io stream then Some (Inl TriggerError)
                   else
                     (case read_loop start (new_sampler start) (Reads io stream (start + duration)) of
                        None \<Rightarrow> None
                      | Some s \<Rightarrow> Some (Inr (make_report name warmup (fin - start) s))))))"

lemmas [go_eval] = bench_main_def runServer_def serveStream_def write_chunk_def pattern_def Seconds_def
  Millisecond_def new_sampler_def read_step_def steadyGoodput_def make_report_def runClient_def

section \<open>The server's properties\<close>

lemma package_init_New:
  assumes "package_init = Inr registry"
  shows "New env registry name = (if name = ''reno'' then Inr (newAdapter env (RenoState new_reno))
    else if name = ''student'' then Inr (newAdapter env (StudentState new_student))
    else Inl (UnknownAlgorithm name [''reno'', ''student'']))"
proof -
  have reg: "registry = [(''reno'', RenoState new_reno), (''student'', StudentState new_student)]"
    using assms by (simp add: package_init_eq)
  have "Names registry = [''reno'', ''student'']" unfolding reg by code_simp
  then show ?thesis by (auto simp: New_def reg)
qed

text \<open>The connections that a server accepts.\<close>

definition accepted :: "'conn option list \<Rightarrow> 'conn list" where
  "accepted accepts = map the (filter (\<lambda>a. a \<noteq> None) accepts)"

lemma accepted_simps [simp]:
  "accepted [] = []" "accepted (None # as) = accepted as" "accepted (Some c # as) = c # accepted as"
  by (simp_all add: accepted_def)

lemma accept_conns_known:
  "New env registry name = Inr a \<Longrightarrow> accept_conns env setCC registry name accepts = (map (setCC a) (accepted accepts), None)"
  by (induction env setCC registry name accepts rule: accept_conns.induct) (simp_all add: Apply_def)

lemma accept_conns_unknown:
  "New env registry name = Inl err \<Longrightarrow> accept_conns env setCC registry name accepts =
    ([], if accepted accepts = [] then None else Some (ApplyFailed err))"
  by (induction env setCC registry name accepts rule: accept_conns.induct) (simp_all add: Apply_def)

text \<open>C29: the server's choice of algorithm: with one of the two registered names it serves every connection
  that it accepts, each with its own fresh controller installed, and no failed accept stops it; any other
  name is noticed only when the first connection arrives, and then ends the whole server with an error that
  lists the two names.\<close>

theorem server_serves_registered:
  assumes "package_init = Inr registry" and "Listen lib ListenAddr key now listen = Inr l"
  shows "runServer lib ListenAddr key now Accept env setCC registry listen name =
    (if name = ''reno'' then (map (setCC (newAdapter env (RenoState new_reno))) (accepted (Accept l)), None)
     else if name = ''student'' then (map (setCC (newAdapter env (StudentState new_student))) (accepted (Accept l)), None)
     else ([], if accepted (Accept l) = [] then None
               else Some (ApplyFailed (UnknownAlgorithm name [''reno'', ''student'']))))"
  by (auto simp: runServer_def assms(2) package_init_New [OF assms(1)]
      accept_conns_known accept_conns_unknown)

theorem server_serves_registered_witness:
  "runServer (demo_lib [template 0]) (\<lambda>addr conf quic. Some conf) (Some 7) 0 (\<lambda>l. [None, Some (1 :: nat), None, Some 2])
     demo_env (\<lambda>a c. c + 10) [(''reno'', RenoState new_reno), (''student'', StudentState new_student)] '':4433'' ''cubic'' =
   ([], Some (ApplyFailed (UnknownAlgorithm ''cubic'' [''reno'', ''student''])))"
proof -
  obtain l where "Listen (demo_lib [template 0]) (\<lambda>addr conf quic. Some conf) (Some 7) 0 '':4433'' = Inr l"
    by (simp add: Listen_def selfSignedTLS_def demo_lib_def Let_def)
  from server_serves_registered [OF package_init_eq this, of "\<lambda>l. [None, Some (1 :: nat), None, Some 2]" demo_env
      "\<lambda>a c. c + 10" "''cubic''"]
  show ?thesis by simp
qed

lemma nth_pattern: "i < write_chunk \<Longrightarrow> pattern ! i = word_of_nat i"
  by (simp add: pattern_def)

lemma length_pattern: "length pattern = write_chunk"
  by (simp add: pattern_def)

lemma write_loop_pattern:
  "i < length (write_loop pattern writes) \<Longrightarrow> write_loop pattern writes ! i = word_of_nat i"
proof (induction writes arbitrary: i)
  case (Cons w ws)
  show ?case
  proof (cases w)
    case None
    show ?thesis
    proof (cases "i < write_chunk")
      case True
      then show ?thesis by (simp add: None nth_append length_pattern nth_pattern)
    next
      case False
      then have i: "i - write_chunk < length (write_loop pattern ws)"
        using Cons.prems by (simp add: None length_pattern)
      have "(word_of_nat write_chunk :: byte) = 0" by (simp add: write_chunk_def)
      then have "(word_of_nat (i - write_chunk) :: byte) = word_of_nat i"
        using False by (simp add: of_nat_diff)
      then show ?thesis using False Cons.IH [OF i] by (simp add: None nth_append length_pattern)
    qed
  next
    case (Some k)
    then show ?thesis using Cons.prems by (simp add: nth_pattern length_pattern)
  qed
qed simp

text \<open>What a stream carries: whatever the results of its writes, the byte at every position is the position
  modulo 256, across the boundaries of the 128 KiB chunks, and nothing is sent without the client's trigger.\<close>

lemma stream_pattern:
  assumes "i < length (serveStream triggered writes)"
  shows "triggered \<and> unat (serveStream triggered writes ! i) = i mod 256"
  using assms write_loop_pattern [of i writes]
  by (auto simp: serveStream_def unsigned_of_nat take_bit_eq_mod split: if_splits)

lemma stream_pattern_witness: "unat (serveStream True [None, Some 5] ! 131075) = 3"
proof -
  have "131075 < length (serveStream True [None, Some 5])"
    by (simp add: serveStream_def length_pattern write_chunk_def)
  from stream_pattern [OF this] show ?thesis by simp
qed

section \<open>The samples\<close>

text \<open>The bytes that samples account for, from the end \<open>t\<close> of the sample before; and the end of the last.\<close>

fun volume :: "rat \<Rightarrow> interval list \<Rightarrow> rat" where
  "volume t [] = 0"
| "volume t (iv # ivs) = Mbps iv * 1000000 / 8 * (T iv - t) + volume (T iv) ivs"

fun last_end :: "rat \<Rightarrow> interval list \<Rightarrow> rat" where
  "last_end t [] = t"
| "last_end t (iv # ivs) = last_end (T iv) ivs"

text \<open>Each sample spans more than half a second.\<close>

fun spaced :: "rat \<Rightarrow> interval list \<Rightarrow> bool" where
  "spaced t [] \<longleftrightarrow> True"
| "spaced t (iv # ivs) \<longleftrightarrow> t + 1 / 2 < T iv \<and> spaced (T iv) ivs"

lemma volume_append: "volume t (ivs @ [iv]) = volume t ivs + Mbps iv * 1000000 / 8 * (T iv - last_end t ivs)"
  by (induction ivs arbitrary: t) simp_all

lemma last_end_append [simp]: "last_end t (ivs @ [iv]) = T iv"
  by (induction ivs arbitrary: t) simp_all

lemma spaced_append: "spaced t (ivs @ [iv]) \<longleftrightarrow> spaced t ivs \<and> last_end t ivs + 1 / 2 < T iv"
  by (induction ivs arbitrary: t) simp_all

lemma spaced_length: "spaced t ivs \<Longrightarrow> t + of_nat (length ivs) / 2 \<le> last_end t ivs"
  by (induction ivs arbitrary: t) (fastforce simp: field_simps)+

lemma Seconds_diff: "Seconds (a - b) = Seconds a - Seconds b"
  by (simp add: Seconds_def diff_divide_distrib)

lemma Seconds_less: "Seconds a < Seconds b \<longleftrightarrow> a < b"
  by (simp add: Seconds_def divide_less_cancel)

definition sampler_inv :: "int \<Rightarrow> sampler \<Rightarrow> bool" where
  "sampler_inv start s \<longleftrightarrow> volume 0 (intervals s) = of_int (lastBytes s) \<and>
     last_end 0 (intervals s) = Seconds (lastT s - start) \<and> nextSample s = lastT s + 500 * Millisecond"

lemma sampler_inv_new: "sampler_inv start (new_sampler start)"
  by (simp add: sampler_inv_def new_sampler_def Seconds_def)

text \<open>A read that takes a sample, with a clock that advances.\<close>

lemma read_step_sample:
  assumes "nextSample s < now \<or> err" and "lastT s < now"
  shows "read_step start s (n, now, err) = \<lparr> total = total s + n,
    intervals = intervals s @ [\<lparr> T = Seconds (now - start),
      Mbps = of_int (total s + n - lastBytes s) * 8 / 1000000 / Seconds (now - lastT s) \<rparr>],
    nextSample = now + 500 * Millisecond, lastBytes = total s + n, lastT = now \<rparr>"
  using assms by (auto simp: read_step_def Seconds_def)

lemma sampler_inv_sample:
  assumes "sampler_inv start s" and "nextSample s < now \<or> err" and "lastT s < now"
  shows "sampler_inv start (read_step start s (n, now, err))"
proof -
  have "Seconds (now - start) - Seconds (lastT s - start) = Seconds (now - lastT s)"
    by (simp flip: Seconds_diff)
  moreover have "0 < Seconds (now - lastT s)" using assms(3) by (simp add: Seconds_def)
  ultimately show ?thesis using assms(1)
    by (simp add: sampler_inv_def read_step_sample [OF assms(2,3)] volume_append diff_divide_distrib
        add_divide_distrib left_diff_distrib distrib_right)
qed

lemma sampler_inv_step:
  assumes "sampler_inv start s" and "spaced 0 (intervals s)" and "lastT s < now"
  shows "sampler_inv start (read_step start s (n, now, False)) \<and>
    spaced 0 (intervals (read_step start s (n, now, False))) \<and> lastT (read_step start s (n, now, False)) \<le> now \<and>
    total (read_step start s (n, now, False)) = total s + n"
proof (cases "nextSample s < now")
  case True
  have "last_end 0 (intervals s) + 1 / 2 < Seconds (now - start)"
    using assms(1) True by (simp add: sampler_inv_def Seconds_def Millisecond_def field_simps)
  then show ?thesis using sampler_inv_sample [OF assms(1) _ assms(3), of False n] True assms(2,3)
    by (simp add: read_step_sample spaced_append)
next
  case False
  then show ?thesis using assms by (simp add: read_step_def sampler_inv_def)
qed

text \<open>The reads before the one that ends the loop.\<close>

lemma read_loop_run:
  assumes "sampler_inv start s" and "spaced 0 (intervals s)"
    and "sorted_wrt (<) (lastT s # map (\<lambda>(n, t, e). t) (rs @ [(n, now, True)]))" and "\<forall>(n, t, e) \<in> set rs. \<not> e"
  shows "\<exists>u. sampler_inv start u \<and> spaced 0 (intervals u) \<and> lastT u < now \<and>
    total u = total s + sum_list (map fst rs) \<and>
    read_loop start s (rs @ (n, now, True) # rest) = Some (read_step start u (n, now, True))"
  using assms
proof (induction rs arbitrary: s)
  case Nil
  then show ?case by auto
next
  case (Cons r rs)
  obtain m t e where r: "r = (m, t, e)" by (cases r)
  have e: "\<not> e" and lt: "lastT s < t" using Cons.prems(3,4) r by simp_all
  note step = sampler_inv_step [OF Cons.prems(1,2) lt, of m]
  have sorted: "sorted_wrt (<) (lastT (read_step start s (m, t, False)) # map (\<lambda>(n, t, e). t) (rs @ [(n, now, True)]))"
    using Cons.prems(3) step by (auto simp: r)
  show ?case
    using Cons.IH [OF _ _ sorted] step Cons.prems(4) e by (simp add: r add.assoc)
qed

text \<open>
  The samples lose nothing: with a clock that advances between reads, the rates times the lengths of their
  intervals add up to all bytes read, and the last interval ends with the last read.
\<close>

lemma samples_account_for_all:
  assumes "sorted_wrt (<) (start # map (\<lambda>(n, t, e). t) (rs @ [(n, now, True)]))" and "\<forall>(n, t, e) \<in> set rs. \<not> e"
  shows "\<exists>s. read_loop start (new_sampler start) (rs @ (n, now, True) # rest) = Some s \<and>
    total s = sum_list (map fst rs) + n \<and> volume 0 (intervals s) = of_int (total s) \<and>
    last_end 0 (intervals s) = Seconds (now - start)"
proof -
  have "sorted_wrt (<) (lastT (new_sampler start) # map (\<lambda>(n, t, e). t) (rs @ [(n, now, True)]))"
    using assms(1) by (simp add: new_sampler_def)
  from read_loop_run [OF sampler_inv_new _ this assms(2)] obtain u where
    u: "sampler_inv start u" "lastT u < now" "total u = sum_list (map fst rs)"
      "read_loop start (new_sampler start) (rs @ (n, now, True) # rest) = Some (read_step start u (n, now, True))"
    by (auto simp: new_sampler_def)
  then show ?thesis
    using sampler_inv_sample [OF u(1) _ u(2), of True n] by (simp add: read_step_sample sampler_inv_def)
qed

text \<open>How often the client samples: all intervals but the last are longer than half a second, so a run
  of \<open>d\<close> seconds has less than \<open>2 d + 1\<close> of them, and at least one.\<close>

lemma sample_spacing:
  assumes "sorted_wrt (<) (start # map (\<lambda>(n, t, e). t) (rs @ [(n, now, True)]))" and "\<forall>(n, t, e) \<in> set rs. \<not> e"
  shows "\<exists>s. read_loop start (new_sampler start) (rs @ (n, now, True) # rest) = Some s \<and>
    intervals s \<noteq> [] \<and> spaced 0 (butlast (intervals s)) \<and>
    of_nat (length (intervals s)) < 2 * Seconds (now - start) + 1"
proof -
  have "sorted_wrt (<) (lastT (new_sampler start) # map (\<lambda>(n, t, e). t) (rs @ [(n, now, True)]))"
    using assms(1) by (simp add: new_sampler_def)
  from read_loop_run [OF sampler_inv_new _ this assms(2)] obtain u where
    u: "sampler_inv start u" "spaced 0 (intervals u)" "lastT u < now"
      "read_loop start (new_sampler start) (rs @ (n, now, True) # rest) = Some (read_step start u (n, now, True))"
    by (auto simp: new_sampler_def)
  have "of_nat (length (intervals u)) / 2 \<le> Seconds (lastT u - start)"
    using spaced_length [OF u(2)] u(1) by (simp add: sampler_inv_def)
  moreover have "Seconds (lastT u - start) < Seconds (now - start)" using u(3) by (simp add: Seconds_less)
  ultimately show ?thesis using u(2-4) by (simp add: read_step_sample)
qed

lemma sample_spacing_witness:
  "\<exists>s. read_loop 0 (new_sampler 0) [(5000, 400000000, False), (3000, 600000000, False), (0, 700000000, True)] = Some s \<and>
    of_nat (length (intervals s)) < (12 / 5 :: rat)"
  using sample_spacing [of 0 "[(5000, 400000000, False), (3000, 600000000, False)]" 0 700000000 "[]"]
  by (auto simp: Seconds_def)

section \<open>The report\<close>

definition late :: "rat \<Rightarrow> interval list \<Rightarrow> interval list" where
  "late warmupS ivs = filter (\<lambda>iv. warmupS \<le> T iv) ivs"

lemma steady_loop_late:
  "steady_loop w ivs acc n = (acc + sum_list (map Mbps (late w ivs)), n + length (late w ivs))"
  by (induction w ivs acc n rule: steady_loop.induct) (simp_all add: late_def add.assoc not_less)

text \<open>The steady goodput is the mean of the samples that end after the warm-up: it lies between the least and
  the greatest rate of any of them, and it is 0 when there is none.\<close>

lemma steady_goodput_mean:
  "steadyGoodput ivs w = (if late w ivs = [] then 0
     else sum_list (map Mbps (late w ivs)) / of_nat (length (late w ivs))) \<and>
   (late w ivs = [] \<or> Lattices_Big.Min (Mbps ` set (late w ivs)) \<le> steadyGoodput ivs w \<and>
     steadyGoodput ivs w \<le> Lattices_Big.Max (Mbps ` set (late w ivs)))"
proof -
  let ?l = "late w ivs"
  have mean: "steadyGoodput ivs w = (if ?l = [] then 0 else sum_list (map Mbps ?l) / of_nat (length ?l))"
    by (simp add: steadyGoodput_def steady_loop_late)
  have "of_nat (length ?l) * Lattices_Big.Min (Mbps ` set ?l) \<le> sum_list (map Mbps ?l)"
    "sum_list (map Mbps ?l) \<le> of_nat (length ?l) * Lattices_Big.Max (Mbps ` set ?l)"
    using sum_list_mono [of ?l "\<lambda>iv. Lattices_Big.Min (Mbps ` set ?l)" Mbps] sum_list_mono [of ?l Mbps "\<lambda>iv. Lattices_Big.Max (Mbps ` set ?l)"]
    by (simp_all add: sum_list_triv)
  then show ?thesis by (auto simp: mean field_simps)
qed

text \<open>C12: what a successful run reports: once connection, controller, stream and trigger are in place, the report
  holds every byte that was read up to the error that ends the run; its goodput, over the whole duration, stands for
  exactly the bytes that its intervals account for, and its steady goodput is the mean over the intervals that end
  after the warm-up.\<close>

theorem client_report:
  assumes "Dial DialAddr server = Inr conn" and "Apply env setCC registry conn name = (None, conn')"
    and "OpenStreamSync io conn' = Some stream" and "Trigger io stream"
    and "Reads io stream (start + duration) = rs @ (n, now, True) # rest"
    and "sorted_wrt (<) (start # map (\<lambda>(n, t, e). t) (rs @ [(n, now, True)]))" and "\<forall>(n, t, e) \<in> set rs. \<not> e"
    and "now \<le> fin"
  shows "\<exists>rep. runClient DialAddr io env setCC registry server name duration warmup start fin = Some (Inr rep) \<and>
    Bytes rep = sum_list (map fst rs) + n \<and> CC rep = name \<and>
    GoodputMbps rep * 1000000 / 8 * DurationS rep = volume 0 (Intervals rep) \<and>
    volume 0 (Intervals rep) = of_int (Bytes rep) \<and> last_end 0 (Intervals rep) \<le> DurationS rep \<and>
    SteadyGoodputMbps rep = steadyGoodput (Intervals rep) (Seconds warmup)"
proof -
  obtain s where s: "read_loop start (new_sampler start) (rs @ (n, now, True) # rest) = Some s"
    "total s = sum_list (map fst rs) + n" "volume 0 (intervals s) = of_int (total s)"
    "last_end 0 (intervals s) = Seconds (now - start)"
    using samples_account_for_all [OF assms(6,7)] by blast
  have "start < now" using assms(6) by auto
  then have "0 < Seconds (fin - start)" "Seconds (now - start) \<le> Seconds (fin - start)"
    using assms(8) by (simp_all add: Seconds_def divide_right_mono)
  then show ?thesis using assms(1-5) s
    by (intro exI [of _ "make_report name warmup (fin - start) s"]) (simp add: runClient_def make_report_def)
qed

definition demo_io :: "(string, nat) bench_io" where
  "demo_io = \<lparr> OpenStreamSync = (\<lambda>c. Some 4), Trigger = (\<lambda>s. True),
     Reads = (\<lambda>s deadline. [(900000, 400000000, False), (100000, 600000000, False), (250000, deadline, True)]) \<rparr>"

theorem client_report_witness:
  "\<exists>rep. runClient (\<lambda>a tls quic. Some a) demo_io demo_env (\<lambda>a c. c)
     [(''reno'', RenoState new_reno), (''student'', StudentState new_student)] ''10.0.0.1:4433'' ''reno'' 1000000000 0 0 1000000001 =
       Some (Inr rep) \<and> Bytes rep = 1250000"
proof -
  have "New demo_env [(''reno'', RenoState new_reno), (''student'', StudentState new_student)] ''reno'' =
      Inr (newAdapter demo_env (RenoState new_reno))"
    by (simp add: New_def)
  then show ?thesis
    using client_report [of "\<lambda>a tls quic. Some a" "''10.0.0.1:4433''" _ demo_env "\<lambda>a c. c"
        "[(''reno'', RenoState new_reno), (''student'', StudentState new_student)]" "''reno''" _ demo_io 4 0 1000000000
        "[(900000, 400000000, False), (100000, 600000000, False)]" 250000 1000000000 "[]" 1000000001 0]
    by (auto simp: Dial_def Apply_def demo_io_def)
qed

text \<open>
  The sample that straddles the end of the warm-up counts in full: here all bytes arrive in its first
  tenth of a second, and the steady goodput is not 0.
\<close>

lemma straddling_sample_counts:
  "map_option (\<lambda>s. steadyGoodput (intervals s) (Seconds 2000000000))
     (read_loop 0 (new_sampler 0) [(1050000, 100000000, False), (0, 2100000000, True)]) = Some 4"
  by (simp add: go_eval)

end
