(* ===== verification/Spec2Isabelle.thy ===== *)
theory Spec2Isabelle
  imports PingStats TraceReaders TraceHop Socks5Udp Socks5Relay MitmRelay Bench
begin

text \<open>
  A verification library for the Go programs of this repository: two network tools (\<^verbatim>\<open>code/ping\<close>,
  \<^verbatim>\<open>code/traceroute\<close>), two proxies (\<^verbatim>\<open>code/socks5\<close>, \<^verbatim>\<open>code/mitm\<close>) and the congestion-control lab
  (\<^verbatim>\<open>quic-cc-lab/internal/cc\<close>, \<^verbatim>\<open>quic-cc-lab/internal/tunnel\<close>, \<^verbatim>\<open>quic-cc-lab/cmd/bench\<close>).

  The programs share no code, but the same Go idioms; so do the theories. Prelude.thy has Go's machine
  types (bytes and 16- and 32-bit words as words; \<^verbatim>\<open>int64\<close> as \<open>int\<close> with \<open>i64\<close> at every operation that
  can leave the range), run-time panics as values (\<open>go_panic + 'a\<close>), big-endian access and the list
  lemmas. NetAddr.thy has what the programs use of the package \<^verbatim>\<open>net\<close>: addresses, their printing and
  \<^verbatim>\<open>JoinHostPort\<close>. Pipe.thy has what the proxies copy with: a connection that is written to and may
  break, \<^verbatim>\<open>io.Copy\<close>, and \<^verbatim>\<open>bufio.Writer\<close> with its 4096 bytes and its \<^verbatim>\<open>ReadFrom\<close>; the locale
  \<open>byte_pipe\<close> is their contract (what arrives is the source's stream up to a part held back), interpreted
  for both. X509.thy has certificates, keys and the library calls on them as a record of functions, with
  their documented behaviour as the predicate \<open>x509_laws\<close> and a small library that satisfies it.

  \<^bold>\<open>Network tools.\<close> Packet.thy models the Internet checksum (a 32-bit accumulator and the loop that
  folds its carries), the echo request and the parsers, and proves that the checksum is the unique one
  of RFC 1071 for packets of at most 131074 bytes, that built packets verify and that a changed word is
  detected. Ping.thy models \<^verbatim>\<open>main\<close> of ping as a step relation over the main loop's records and
  counters, the two channels, the running timers and the network; \<open>sys_inv\<close> is its invariant, from which
  the accounting, the meaning of termination and the unreachable error state follow. The bound is 65536
  probes (sequence numbers wrap), and the accounting assumes that time-outs outlive the queue. PingStats.thy
  adds the setup, the time-outs and the statistics: that one pass computes minimum, mean, maximum and
  variance, that a run with a failed write never finishes by itself, and that a time-out below a second
  loses everything. Traceroute.thy models the reader of a hop, its sending and collection loops and the
  loop over the hops, and proves that replies find their probes and no other hop's, that the bookkeeping is
  exact, and when a hop hangs. TraceHop.thy runs a hop as a step relation of its goroutines with the
  bounded channel and the stop handshake, refines the collection loop (\<open>hop_run_collect\<close>) and shows that a hop ends
  and the trace reaches the last one unless more replies arrive than the channel holds, and that it can deadlock
  with one more. TraceReaders.thy puts readers, timers and collection together
  from the packets on, with the readers that earlier hops left running: what a hop prints when its router
  answers, which readers run, and what happens when one of them takes a later hop's packets.

  \<^bold>\<open>Proxies.\<close> Socks5.thy models a client's whole conversation with \<^verbatim>\<open>process\<close> up to the relaying,
  on the client's byte stream, with the buffered writer explicit; Socks5Relay.thy models \<^verbatim>\<open>forward\<close>, the two
  goroutines of a CONNECT and the channel they report on, and shows that the relay refines an abstract
  transparent tunnel, delivers prefixes whatever fails, when it returns, and that data sent ahead of the
  reply is held back; it ends with the accept loop. Socks5Udp.thy models the datagram relay with its
  reused receive buffer and, as a step relation, the two goroutines of an association and the channel
  between them. Mitm.thy models the request handling of the intercepting proxy, MitmCa.thy its certificate
  authority (signing, storing, loading) and MitmRelay.thy what follows a request (copying, the two logging
  loops of an interception, step by step and with reads that return data and an error together), \<^verbatim>\<open>main\<close> and its
  accept loop with the interrupt and the end of the process. \<open>SignOk\<close> of Mitm.thy is the
  success of \<open>SignCertificate\<close>. The outcome of dials, listens, writes, name resolution and TLS are parameters of
  these models.

  \<^bold>\<open>Congestion control.\<close> Controller.thy has the interface \<^verbatim>\<open>Controller\<close> as a record of methods and two
  contracts as locales: \<open>window_controller\<close> (a window between one packet and a bound that each
  acknowledgement raises by one packet) and \<open>epoch_controller\<close> (one reaction to losses per epoch).
  Reno.thy and Student.thy model the two controllers and interpret both locales. Pacer.thy models the token
  bucket and interprets the locale \<open>token_bucket\<close>; quic-go's constants and clock arithmetic are the
  parameter \<open>quic_env\<close>, whose documented behaviour is \<open>quic_env_ok\<close>. Adapter.thy models every
  method of \<^verbatim>\<open>adapter.go\<close> for an arbitrary controller; its simulation lemma \<open>adapter_replay\<close> says that
  the controller's state is the replay of a log of callbacks, which transports the contract of any
  controller to the adapter. Registry.thy models \<^verbatim>\<open>registry.go\<close>, interprets the contract for the
  controllers that the package registers, and joins everything in \<open>registered_connection_window\<close>.
  Tunnel.thy models \<^verbatim>\<open>tunnel.go\<close> (the configuration, the listener with its certificate, the dialler), and
  Bench.thy the harness on top of it and of the registry: which connections the server serves, the pattern
  that a stream carries, and that the client's samples and report account for every byte.

  \<^bold>\<open>Conventions.\<close> A definition has the name of the Go function it models, with a prefix where that
  would be ambiguous (\<open>reno_OnAck\<close>), and follows its branches, early returns and order of assignments. Pointers
  that may be nil are options, Go maps with unspecified iteration order are association lists or partial
  maps, channels are the sequences of values that they hold or that arrive, and goroutines are the rules of a step
  relation or actions that interleave in any order. A floating-point value is an exact fraction of type \<open>rat\<close>:
  the statements about the statistics of ping and bench and the times of traceroute are not about its rounding. No fuel is used: every
  loop is a terminating recursion over its input, and a loop that has not ended after its input is
  a value of its own (\<open>Blocked\<close>, \<open>None\<close>).

  \<^bold>\<open>Not modelled.\<close> The parsing of flags, the text of log and console messages beyond the line of a
  traceroute hop, and JSON; the wrap-around of byte counters at \<open>2 ^ 63\<close>; the inside of TLS, x509, QUIC and
  the regular expressions, which are parameters; in \<^verbatim>\<open>io.Copy\<close> a read and the write of its data are one step.
  The Python and shell scripts, the static site and the assignment texts hold no Go code.
\<close>

end
